(* ===== verification/Prelude.thy ===== *)
theory Prelude
  imports
    Main
    "HOL-Library.Word"
    "HOL-Library.AList"
    "HOL-Library.Product_Lexorder"
    "HOL-Library.Multiset"
begin

text \<open>
  Shared vocabulary of the development: the machine types of the Go code, the results of
  fallible functions, association lists for Go maps whose iteration order matters, and the
  generic lemmas and the contract of "a state whose operations keep an invariant" that the
  component theories use.

  Go's \<open>uint64\<close>, \<open>uint32\<close> and \<open>byte\<close> are words of that width, with wrap-around addition.
  A Go \<open>int64\<close> that is only stored and cast (a timestamp) is the 64-bit pattern, read by
  \<open>sint\<close>. A Go \<open>int\<close> or \<open>int64\<close> used as an identifier or a small count is \<open>int\<close>; file
  positions and lengths, which are bounded by the size of a file, are \<open>nat\<close>.
\<close>

type_synonym byte = "8 word"
type_synonym u32 = "32 word"
type_synonym u64 = "64 word"
type_synonym i64 = "64 word"
type_synonym bytes = "byte list"

type_synonym ('k, 'v) gomap = "('k \<times> 'v) list"
  \<comment> \<open>a Go map together with the order in which one \<open>range\<close> loop visits it; keys are distinct\<close>

section \<open>Collections of facts\<close>

named_theorems seg_simps \<open>equations of the segment operations\<close>
named_theorems part_simps \<open>equations of the partition operations\<close>
named_theorems frame_simps \<open>which fields an operation leaves alone\<close>
named_theorems word_bounds \<open>unsigned arithmetic without wrap-around\<close>

section \<open>Words without wrap-around\<close>

lemma unat_add_of_nat [word_bounds]:
  "unat (b :: u64) + n < 2 ^ 64 \<Longrightarrow> unat (b + of_nat n) = unat b + n"
  by (simp add: unat_word_ariths unat_of_nat mod_simps)

lemma add_of_nat_inject [word_bounds]:
  "unat (b :: u64) + m < 2 ^ 64 \<Longrightarrow> unat b + n < 2 ^ 64 \<Longrightarrow>
   b + of_nat m = b + of_nat n \<longleftrightarrow> m = n"
  by (metis add_left_cancel unat_add_of_nat)

lemma add_one_of_nat: "b + of_nat n + 1 = (b :: u64) + of_nat (Suc n)"
  by simp

lemma word_between_offset:
  assumes "unat (b :: u64) \<le> unat w"
  shows "w = b + of_nat (unat w - unat b)"
proof -
  have "b + of_nat (unat w - unat b) = of_nat (unat b) + of_nat (unat w - unat b)" by simp
  also have "\<dots> = of_nat (unat b + (unat w - unat b))" by (simp only: of_nat_add)
  also have "\<dots> = w" using assms by simp
  finally show ?thesis by simp
qed

lemma unat_plus_one [word_bounds]:
  "unat (w :: u64) + 1 < 2 ^ 64 \<Longrightarrow> unat (w + 1) = unat w + 1"
  using unat_add_of_nat [of w 1] by simp

lemma unat_offset_less [word_bounds]:
  "unat (b :: u64) + n < 2 ^ 64 \<Longrightarrow> m \<le> n \<Longrightarrow> unat (b + of_nat m) = unat b + m"
  by (rule unat_add_of_nat) simp

section \<open>Lists\<close>

lemma concat_map_take_Suc:
  "n < length xs \<Longrightarrow> concat (map f (take (Suc n) xs)) = concat (map f (take n xs)) @ f (xs ! n)"
  by (simp add: take_Suc_conv_app_nth)

lemma concat_map_split:
  assumes "n < length xs"
  shows "concat (map f xs) = concat (map f (take n xs)) @ f (xs ! n) @ concat (map f (drop (Suc n) xs))"
proof -
  have "xs = take n xs @ xs ! n # drop (Suc n) xs"
    using assms by (rule id_take_nth_drop)
  then show ?thesis
    by (metis (no_types, lifting) concat.simps(2) concat_append list.simps(9) map_append)
qed

lemma concat_map_take_drop:
  "concat (map f xs) = concat (map f (take n xs)) @ concat (map f (drop n xs))"
  by (metis append_take_drop_id concat_append map_append)

lemma take_drop_window: "take (length ys) (drop (length xs) (xs @ ys @ zs)) = ys"
  by simp

section \<open>A state whose operations keep an invariant\<close>

text \<open>
  The contract most components share: the operations of an object, each run under the object's
  mutex, are the steps of a machine; \<open>ok\<close> is what a caller guarantees before it calls, and each
  step so called keeps the invariant. The client is whoever runs any sequence of operations.
\<close>

locale step_machine =
  fixes inv :: "'s \<Rightarrow> bool"
    and ok :: "'op \<Rightarrow> 's \<Rightarrow> bool"
    and step :: "'op \<Rightarrow> 's \<Rightarrow> 's"
  assumes step_inv: "inv s \<Longrightarrow> ok opn s \<Longrightarrow> inv (step opn s)"
begin

fun run_ok :: "'op list \<Rightarrow> 's \<Rightarrow> bool" where
  "run_ok [] s \<longleftrightarrow> True"
| "run_ok (x # ops) s \<longleftrightarrow> ok x s \<and> run_ok ops (step x s)"

lemma run_inv: "inv s \<Longrightarrow> run_ok ops s \<Longrightarrow> inv (fold step ops s)"
  by (induction ops arbitrary: s) (auto intro: step_inv)

lemma run_ok_append: "run_ok (xs @ ys) s \<longleftrightarrow> run_ok xs s \<and> run_ok ys (fold step xs s)"
  by (induction xs arbitrary: s) auto

end

text \<open>A measured quantity that no step decreases (an epoch, a synchronisation state).\<close>

locale monotone_machine = step_machine inv ok step
  for inv :: "'s \<Rightarrow> bool" and ok :: "'op \<Rightarrow> 's \<Rightarrow> bool" and step :: "'op \<Rightarrow> 's \<Rightarrow> 's" +
  fixes level :: "'s \<Rightarrow> 'l::preorder"
  assumes step_mono: "inv s \<Longrightarrow> ok opn s \<Longrightarrow> level s \<le> level (step opn s)"
begin

lemma run_mono: "inv s \<Longrightarrow> run_ok ops s \<Longrightarrow> level s \<le> level (fold step ops s)"
proof (induction ops arbitrary: s)
  case Nil
  then show ?case by simp
next
  case (Cons x ops)
  then have "inv (step x s)" "level s \<le> level (step x s)" "run_ok ops (step x s)"
    by (auto intro: step_inv step_mono)
  with Cons.IH [of "step x s"] show ?case by (auto intro: order_trans)
qed

end

section \<open>Updates of an association list\<close>

lemma update_new: "k \<notin> fst ` set al \<Longrightarrow> AList.update k v al = al @ [(k, v)]"
  by (induction al) auto

lemma update_subset: "set (AList.update k v al) \<subseteq> insert (k, v) (set al)"
  by (induction al) auto

lemma map_of_values: "map_of (map (\<lambda>(j, c). (j, f j c)) al) i = map_option (f i) (map_of al i)"
  by (induction al) auto

section \<open>A store of objects under keys\<close>

text \<open>
  What the maps of the program promise (partitions of a topic, topics of a pool, partitions of a
  node, leaders of partitions): replacing the object under a present key changes that key only.
\<close>

locale keyed_store =
  fixes ok :: "'s \<Rightarrow> bool"
    and get :: "'k \<Rightarrow> 's \<Rightarrow> 'v option"
    and put :: "'k \<Rightarrow> 'v \<Rightarrow> 's \<Rightarrow> 's"
    and fits :: "'k \<Rightarrow> 'v \<Rightarrow> 'v \<Rightarrow> bool"
  assumes put_ok: "ok s \<Longrightarrow> get k s = Some u \<Longrightarrow> fits k u v \<Longrightarrow> ok (put k v s)"
    and get_put_same: "ok s \<Longrightarrow> get k s = Some u \<Longrightarrow> fits k u v \<Longrightarrow> get k (put k v s) = Some v"
    and get_put_other: "ok s \<Longrightarrow> get k s = Some u \<Longrightarrow> fits k u v \<Longrightarrow> j \<noteq> k \<Longrightarrow> get j (put k v s) = get j s"
begin

lemma get_put:
  "ok s \<Longrightarrow> get k s = Some u \<Longrightarrow> fits k u v \<Longrightarrow> get j (put k v s) = (if j = k then Some v else get j s)"
  by (simp add: get_put_same get_put_other)

text \<open>Updates of two different keys do not see each other.\<close>

lemma get_put_put:
  assumes "ok s" "get j s = Some u" "get k s = Some w" "j \<noteq> k" "fits j u x" "fits k w y"
  shows "get j (put k y (put j x s)) = Some x \<and> get k (put k y (put j x s)) = Some y"
proof -
  have o: "ok (put j x s)" using assms(1,2,5) by (rule put_ok)
  have g: "get k (put j x s) = Some w" "get j (put j x s) = Some x"
    using assms get_put [OF assms(1,2,5)] by auto
  show ?thesis using get_put [OF o g(1) assms(6)] assms(4) g(2) by simp
qed

end

end
