(* ===== verification/Bytes.thy ===== *)
theory Bytes
  imports Prelude
begin

text \<open>
  The big-endian integer layout of Go's \<open>encoding/binary\<close>, used by the log records
  (\<open>server/persistent/aol/segment.go\<close>) and by the TCP frames (\<open>server/broker/tcp.go\<close>,
  \<open>client/cmd/broker.go\<close>).
\<close>

unbundle bit_operations_syntax

fun be_bytes :: "nat \<Rightarrow> 'a::len word \<Rightarrow> bytes" where
  "be_bytes 0 v = []"
| "be_bytes (Suc k) v = be_bytes k (drop_bit 8 v) @ [ucast v]"

definition be_word :: "bytes \<Rightarrow> 'a::len word" where
  "be_word bs = foldl (\<lambda>acc b. push_bit 8 acc OR ucast b) 0 bs"

definition PutUint32 :: "u32 \<Rightarrow> bytes" where "PutUint32 v = be_bytes 4 v"
definition PutUint64 :: "u64 \<Rightarrow> bytes" where "PutUint64 v = be_bytes 8 v"
definition Uint32 :: "bytes \<Rightarrow> u32" where "Uint32 b = be_word (take 4 b)"
definition Uint64 :: "bytes \<Rightarrow> u64" where "Uint64 b = be_word (take 8 b)"

lemma length_be_bytes [simp]: "length (be_bytes k v) = k"
  by (induction k v rule: be_bytes.induct) auto

lemma length_PutUint [simp]: "length (PutUint32 v) = 4" "length (PutUint64 w) = 8"
  by (simp_all add: PutUint32_def PutUint64_def)

lemma PutUint_not_Nil [simp]: "PutUint32 v \<noteq> []" "PutUint64 w \<noteq> []"
  by (metis length_PutUint(1) list.size(3) zero_neq_numeral,
      metis length_PutUint(2) list.size(3) zero_neq_numeral)

lemma be_word_snoc: "be_word (bs @ [b]) = push_bit 8 (be_word bs) OR ucast b"
  by (simp add: be_word_def)

lemma push_take_low_byte:
  "push_bit 8 (take_bit (8 * k) (drop_bit 8 v)) OR ucast (ucast v :: byte) =
   take_bit (8 + 8 * k) (v :: 'a::len word)"
  by (rule bit_word_eqI) (auto simp: bit_simps not_le)

lemma be_word_bytes: "be_word (be_bytes k v) = take_bit (8 * k) (v :: 'a::len word)"
proof (induction k v rule: be_bytes.induct)
  case (1 v)
  then show ?case by (simp add: be_word_def)
next
  case (2 k v)
  then show ?case by (simp add: be_word_snoc push_take_low_byte)
qed

lemma be_word_bytes_full: "8 * k = LENGTH('a) \<Longrightarrow> be_word (be_bytes k v) = (v :: 'a::len word)"
  by (simp add: be_word_bytes take_bit_length_eq)

text \<open>A field of a record: what was put at the front of a buffer is what is read there.\<close>

locale field_codec =
  fixes put :: "'v \<Rightarrow> bytes" and get :: "bytes \<Rightarrow> 'v" and width :: nat
  assumes get_put: "get (put v @ rest) = v"
    and length_put: "length (put v) = width"
begin

lemma get_put_self: "get (put v) = v"
  using get_put [of v "[]"] by simp

lemma put_inject: "put v = put w \<Longrightarrow> v = w"
  by (metis get_put_self)

lemma get_at: "get (drop (length pre) (pre @ put v @ rest)) = v"
  by (simp add: get_put)

lemma drop_put: "drop width (put v @ rest) = rest"
  by (simp add: length_put)

lemma take_put: "take width (put v @ rest) = put v"
  by (simp add: length_put)

end

interpretation be32: field_codec PutUint32 Uint32 4
  by unfold_locales
    (simp_all add: Uint32_def PutUint32_def be_word_bytes_full)

interpretation be64: field_codec PutUint64 Uint64 8
  by unfold_locales
    (simp_all add: Uint64_def PutUint64_def be_word_bytes_full)

end
