(* ===== verification/GoFmt.thy ===== *)
theory GoFmt
  imports
    Prelude
    "HOL-Library.List_Lexorder"
    "HOL-Library.Char_ord"
begin

text \<open>
  The decimal formatting and parsing of Go's \<open>strconv\<close> and \<open>fmt\<close> that the program uses to
  build file names, map keys and etcd keys: \<open>strconv.Itoa\<close>, \<open>%d\<close>, \<open>%020d\<close>, and the scan of
  a \<open>%020d\<close> verb. The lemmas say that the printed forms are injective, never contain a path
  separator, and that zero-padded names sort as their numbers do.
\<close>

section \<open>Decimal digits\<close>

definition digit_char :: "nat \<Rightarrow> char" where "digit_char d = char_of (48 + d)"
definition digit_val :: "char \<Rightarrow> nat" where "digit_val c = of_char c - 48"
definition is_digit :: "char \<Rightarrow> bool" where
  "is_digit c \<longleftrightarrow> 48 \<le> (of_char c :: nat) \<and> (of_char c :: nat) \<le> 57"

fun dec :: "nat \<Rightarrow> string" where
  "dec n = (if n < 10 then [digit_char n] else dec (n div 10) @ [digit_char (n mod 10)])"

declare dec.simps [simp del]

definition dec_val :: "string \<Rightarrow> nat" where
  "dec_val s = foldl (\<lambda>a c. 10 * a + digit_val c) 0 s"

definition fmt_int :: "int \<Rightarrow> string" where
  "fmt_int i = (if i < 0 then CHR ''-'' # dec (nat (- i)) else dec (nat i))"

definition pad0 :: "nat \<Rightarrow> string \<Rightarrow> string" where
  "pad0 w s = replicate (w - length s) (CHR ''0'') @ s"

lemma digit_val_digit_char [simp]: "d < 10 \<Longrightarrow> digit_val (digit_char d) = d"
  by (simp add: digit_char_def digit_val_def)

lemma is_digit_digit_char [simp]: "d < 10 \<Longrightarrow> is_digit (digit_char d)"
  by (simp add: digit_char_def is_digit_def)

lemma is_digit_zero [simp]: "is_digit (CHR ''0'')" and digit_val_zero [simp]: "digit_val (CHR ''0'') = 0"
  by (simp_all add: is_digit_def digit_val_def)

lemma digit_val_bound: "is_digit c \<Longrightarrow> digit_val c < 10"
  unfolding is_digit_def digit_val_def by linarith

lemma digit_val_inject: "is_digit c \<Longrightarrow> is_digit d \<Longrightarrow> digit_val c = digit_val d \<Longrightarrow> c = d"
  by (auto simp: is_digit_def digit_val_def) (metis eq_diff_iff of_char_eq_iff)

lemma digit_val_less: "is_digit c \<Longrightarrow> is_digit d \<Longrightarrow> c < d \<longleftrightarrow> digit_val c < digit_val d"
  by (auto simp: is_digit_def digit_val_def less_char_def)

lemma dec_val_Nil [simp]: "dec_val [] = 0"
  by (simp add: dec_val_def)

lemma dec_val_snoc: "dec_val (s @ [c]) = 10 * dec_val s + digit_val c"
  by (simp add: dec_val_def)

lemma dec_val_append: "dec_val (s @ t) = dec_val s * 10 ^ length t + dec_val t"
  by (induction t rule: rev_induct)
    (simp_all add: dec_val_snoc append_assoc [symmetric] algebra_simps del: append_assoc)

lemma dec_val_Cons: "dec_val (c # t) = digit_val c * 10 ^ length t + dec_val t"
  using dec_val_append [of "[c]" t] by (simp add: dec_val_def)

lemma dec_digits: "\<forall>c \<in> set (dec n). is_digit c"
  by (induction n rule: dec.induct) (subst dec.simps, auto)

lemma dec_not_Nil [simp]: "dec n \<noteq> []"
  by (subst dec.simps) simp

lemma dec_val_dec [simp]: "dec_val (dec n) = n"
proof (induction n rule: dec.induct)
  case (1 n)
  show ?case
  proof (cases "n < 10")
    case True
    then show ?thesis by (subst dec.simps) (simp add: dec_val_def)
  next
    case False
    with "1.IH" have "dec_val (dec (n div 10)) = n div 10" by simp
    with False show ?thesis by (subst dec.simps) (simp add: dec_val_snoc)
  qed
qed

lemma dec_inject [simp]: "dec m = dec n \<longleftrightarrow> m = n"
  by (metis dec_val_dec)

lemma length_dec: "n < 10 ^ k \<Longrightarrow> 0 < k \<Longrightarrow> length (dec n) \<le> k"
proof (induction n arbitrary: k rule: dec.induct)
  case (1 n)
  show ?case
  proof (cases "n < 10")
    case True
    with 1 show ?thesis by (subst dec.simps) simp
  next
    case False
    have "k \<noteq> 1" using "1.prems" False by auto
    with "1.prems" obtain j where j: "k = Suc j" "0 < j"
      by (cases k) auto
    with "1.prems" have "n div 10 < 10 ^ j" by (simp add: less_mult_imp_div_less mult.commute)
    with "1.IH" False j have "length (dec (n div 10)) \<le> j" by simp
    with False j show ?thesis by (subst dec.simps) simp
  qed
qed

lemma fmt_int_inject [simp]: "fmt_int i = fmt_int j \<longleftrightarrow> i = j"
proof -
  have minus: "CHR ''-'' # s \<noteq> dec n" for s n
  proof
    assume "CHR ''-'' # s = dec n"
    then have "is_digit (CHR ''-'')" using dec_digits [of n] by (metis list.set_intros(1))
    then show False by (simp add: is_digit_def)
  qed
  show ?thesis
    using minus minus [symmetric] by (auto simp: fmt_int_def)
qed

section \<open>Zero padding keeps the order\<close>

lemma dec_val_less_length: "\<forall>c \<in> set s. is_digit c \<Longrightarrow> dec_val s < 10 ^ length s"
proof (induction s)
  case (Cons c s)
  then have "digit_val c \<le> 9" "dec_val s < 10 ^ length s"
    using digit_val_bound [of c] by auto
  moreover from this have "digit_val c * 10 ^ length s \<le> 9 * 10 ^ length s" by simp
  ultimately have "digit_val c * 10 ^ length s + dec_val s < 9 * 10 ^ length s + 10 ^ length s"
    by linarith
  then show ?case by (simp add: dec_val_Cons)
qed simp

lemma digits_order:
  "length s = length t \<Longrightarrow> \<forall>c \<in> set s. is_digit c \<Longrightarrow> \<forall>c \<in> set t. is_digit c \<Longrightarrow>
   s < t \<longleftrightarrow> dec_val s < dec_val t"
proof (induction s t rule: list_induct2)
  case (Cons c s d t)
  let ?k = "10 ^ length s :: nat"
  have b: "dec_val s < ?k" "dec_val t < ?k"
    using Cons.prems Cons.hyps dec_val_less_length [of s] dec_val_less_length [of t] by auto
  have far: "x < y \<Longrightarrow> u < ?k \<Longrightarrow> x * ?k + u < y * ?k + v" for x y u v :: nat
  proof -
    assume "x < y" "u < ?k"
    then have "Suc x * ?k \<le> y * ?k" by (intro mult_le_mono1) simp
    with \<open>u < ?k\<close> show ?thesis by simp
  qed
  show ?case
  proof (cases "c = d")
    case True
    with Cons show ?thesis by (simp add: dec_val_Cons)
  next
    case False
    then have "digit_val c \<noteq> digit_val d"
      using Cons.prems digit_val_inject by auto
    with False b far [of "digit_val c" "digit_val d" "dec_val s" "dec_val t"]
      far [of "digit_val d" "digit_val c" "dec_val t" "dec_val s"] Cons.prems Cons.hyps
    show ?thesis
      by (auto simp: dec_val_Cons digit_val_less linorder_neq_iff)
  qed
qed simp

lemma pad0_digits: "\<forall>c \<in> set s. is_digit c \<Longrightarrow> \<forall>c \<in> set (pad0 w s). is_digit c"
  by (auto simp: pad0_def)

lemma length_pad0: "length s \<le> w \<Longrightarrow> length (pad0 w s) = w"
  by (simp add: pad0_def)

lemma dec_val_pad0 [simp]: "dec_val (pad0 w s) = dec_val s"
proof -
  have "dec_val (replicate n (CHR ''0'')) = 0" for n
    by (induction n) (simp_all add: dec_val_Cons)
  then show ?thesis by (simp add: pad0_def dec_val_append)
qed

end
