(* ===== verification/GoError.thy ===== *)
theory GoError
  imports Prelude
begin

text \<open>
  The errors the data plane returns, one constructor per \<open>errors.New\<close> / \<open>fmt.Errorf\<close> site (or
  sentinel variable), with the values the message prints. A Go function returning \<open>error\<close>
  returns \<open>go_error option\<close> here (\<open>None\<close> is \<open>nil\<close>); one returning a value and an error returns a
  sum with the error on the left. A run-time panic (slice bounds, nil dereference) is the value
  \<open>EPanic\<close>, so that it is a branch of the model and not an unspecified result.
\<close>

datatype go_error =
    EIO                                \<comment> \<open>an error reported by the operating system\<close>
  | EClosed                            \<comment> \<open>os.ErrClosed: the file handle was closed\<close>
  | EEOF                               \<comment> \<open>io.EOF / io.ErrUnexpectedEOF\<close>
  | EPanic
  | EOffsetNotInSegment                \<comment> \<open>segment.go: offset not found in this segment\<close>
  | ETruncateBelowBase u64 u64         \<comment> \<open>segment.go: truncate offset below segment base offset\<close>
  | ETruncateNotFound u64 string       \<comment> \<open>segment.go: offset not found in segment path\<close>
  | EDeletedOffset                     \<comment> \<open>readFrom: requested offset was already deleted\<close>
  | EPartitionStopped                  \<comment> \<open>ErrPartitionStopped\<close>
  | ENonContiguous u64 u64             \<comment> \<open>AppendEntry: got offset, expected offset\<close>
  | EInvalidateNotLast u64 u64         \<comment> \<open>ErrInvalidateNotLast with nextOffset, targetOffset\<close>
  | ENoActiveSegment                   \<comment> \<open>InvalidateOffset: no active segment\<close>
  | EInClosedSegment u64               \<comment> \<open>InvalidateOffset: record belongs to a closed segment\<close>
  | ENotFoundPartition                 \<comment> \<open>NotFoundPartitionErr\<close>
  | EQuorumBroken nat nat              \<comment> \<open>ReplicateAndAppend: got acked/total in-sync acks\<close>
  | ELeaderCommit go_error             \<comment> \<open>ReplicateAndAppend: leader local commit failed\<close>
  | ETopicNotExist                     \<comment> \<open>GetTopicProcessor: topic does not exist\<close>
  | ENoConnection int                  \<comment> \<open>GetGrpcClient: no active gRPC connection for broker\<close>
  | ENoReplicationClient int go_error  \<comment> \<open>CatchUpPartition: no replication client for leader\<close>
  | EFetchLog go_error                 \<comment> \<open>CatchUpPartition: FetchLog gRPC failed\<close>
  | EApplyFetched u64 go_error         \<comment> \<open>CatchUpPartition: failed to apply fetched entry\<close>
  | ECancelled                         \<comment> \<open>ctx.Err()\<close>
  | EEmptyDeleteMap                    \<comment> \<open>DeleteTopicPartition: empty delete map\<close>
  | ETopicNameEmpty                    \<comment> \<open>consumerHandler: topic name is empty\<close>
  | EUnknownCommand                    \<comment> \<open>HandleCommand: unknown command\<close>
  | EDecode                            \<comment> \<open>ctx.Decode failed\<close>
  | ERespond                           \<comment> \<open>ctx.Respond failed\<close>
  | EInvalid string                    \<comment> \<open>request.Validate: the message\<close>

text \<open>Sequencing of fallible steps: stop at the first error.\<close>

fun sbind :: "'e + 'a \<Rightarrow> ('a \<Rightarrow> 'e + 'b) \<Rightarrow> 'e + 'b" where
  "sbind (Inl e) k = Inl e"
| "sbind (Inr x) k = k x"

lemma sbind_Inr_conv: "sbind m k = Inr y \<longleftrightarrow> (\<exists>x. m = Inr x \<and> k x = Inr y)"
  by (cases m) auto

lemma sbind_assoc: "sbind (sbind m k) l = sbind m (\<lambda>x. sbind (k x) l)"
  by (cases m) auto

end
