(* ===== verification/LogContract.thy ===== *)
theory LogContract
  imports Prelude
begin

text \<open>
  What a log promises, whatever stores it: a run of messages with consecutive offsets from a base
  offset, that grows at its end, is read by offset and can be rolled back by its last record. The
  segment file and the whole partition both provide this interface; replication and catch-up are
  its clients.
\<close>

section \<open>Messages and abstract logs\<close>

record message =
  Offset :: u64
  Timestamp :: i64
  Payload :: bytes

lemma message_eta [simp]:
  "\<lparr>Offset = Offset m, Timestamp = Timestamp m, Payload = Payload m\<rparr> = m"
  by simp

definition payload_ok :: "bytes \<Rightarrow> bool" where
  "payload_ok p \<longleftrightarrow> 20 + length p < 2 ^ 32"
  \<comment> \<open>the record size fits the 32-bit size field; requests carry at most 64 KiB\<close>

definition log_from :: "u64 \<Rightarrow> message list \<Rightarrow> bool" where
  "log_from b ms \<longleftrightarrow>
     (\<forall>i < length ms. Offset (ms ! i) = b + of_nat i) \<and>
     (\<forall>m \<in> set ms. payload_ok (Payload m)) \<and> unat b + length ms < 2 ^ 64"

lemma log_from_bound: "log_from b ms \<Longrightarrow> unat b + length ms < 2 ^ 64"
  by (simp add: log_from_def)

lemma log_from_offset: "log_from b ms \<Longrightarrow> i < length ms \<Longrightarrow> Offset (ms ! i) = b + of_nat i"
  by (simp add: log_from_def)

lemma log_from_payload: "log_from b ms \<Longrightarrow> m \<in> set ms \<Longrightarrow> payload_ok (Payload m)"
  by (simp add: log_from_def)

lemma log_from_Nil [simp]: "log_from b []"
  using unsigned_less [of b, where ?'a = nat] by (simp add: log_from_def)

lemma log_from_append:
  "log_from b (ms @ ns) \<longleftrightarrow> log_from b ms \<and> log_from (b + of_nat (length ms)) ns
     \<and> unat b + length ms + length ns < 2 ^ 64"
proof
  assume a: "log_from b (ms @ ns)"
  then have bnd: "unat b + length ms + length ns < 2 ^ 64" by (simp add: log_from_def)
  have "Offset (ns ! i) = b + of_nat (length ms) + of_nat i" if "i < length ns" for i
    using log_from_offset [OF a, of "length ms + i"] that by (simp add: nth_append)
  moreover have "Offset (ms ! i) = b + of_nat i" if "i < length ms" for i
    using log_from_offset [OF a, of i] that by (simp add: nth_append)
  ultimately show "log_from b ms \<and> log_from (b + of_nat (length ms)) ns
     \<and> unat b + length ms + length ns < 2 ^ 64"
    using a bnd by (simp add: log_from_def unat_add_of_nat)
next
  assume a: "log_from b ms \<and> log_from (b + of_nat (length ms)) ns
     \<and> unat b + length ms + length ns < 2 ^ 64"
  have "Offset ((ms @ ns) ! i) = b + of_nat i" if "i < length (ms @ ns)" for i
  proof (cases "i < length ms")
    case True
    with a show ?thesis by (simp add: nth_append log_from_def)
  next
    case False
    then obtain j where j: "i = length ms + j" by (metis le_Suc_ex not_less)
    with a that show ?thesis by (simp add: log_from_def)
  qed
  with a show "log_from b (ms @ ns)" by (auto simp: log_from_def)
qed

lemma log_from_take: "log_from b ms \<Longrightarrow> log_from b (take k ms)"
  by (metis append_take_drop_id log_from_append)

lemma log_from_butlast: "log_from b ms \<Longrightarrow> log_from b (butlast ms)"
  by (simp add: butlast_conv_take log_from_take)

lemma log_from_drop: "log_from b ms \<Longrightarrow> k \<le> length ms \<Longrightarrow> log_from (b + of_nat k) (drop k ms)"
  by (metis append_take_drop_id length_take log_from_append min.absorb2)

lemma log_from_next_unat: "log_from b ms \<Longrightarrow> unat (b + of_nat (length ms)) = unat b + length ms"
  by (rule unat_add_of_nat, rule log_from_bound)

lemma log_from_snoc:
  "log_from b (ms @ [m]) \<longleftrightarrow> log_from b ms \<and> Offset m = b + of_nat (length ms)
     \<and> payload_ok (Payload m) \<and> unat b + length ms + 1 < 2 ^ 64"
proof -
  have one: "log_from c [m] \<longleftrightarrow> Offset m = c \<and> payload_ok (Payload m) \<and> unat c + 1 < 2 ^ 64" for c
    by (simp add: log_from_def)
  have "unat (b + of_nat (length ms)) + 1 < 2 ^ 64 \<longleftrightarrow> unat b + length ms + 1 < 2 ^ 64" if "log_from b ms"
    by (simp only: log_from_next_unat [OF that])
  then show ?thesis
    unfolding log_from_append one by auto
qed

lemma log_from_Cons:
  "log_from b (m # ms) \<longleftrightarrow> Offset m = b \<and> payload_ok (Payload m) \<and> log_from (b + 1) ms
     \<and> unat b + 1 + length ms < 2 ^ 64"
  using log_from_append [of b "[m]" ms] log_from_snoc [of b "[]" m] by auto

text \<open>The entry an abstract log holds at an offset.\<close>

definition log_at :: "u64 \<Rightarrow> message list \<Rightarrow> u64 \<Rightarrow> message option" where
  "log_at b ms off =
     (if unat b \<le> unat off \<and> unat off - unat b < length ms then Some (ms ! (unat off - unat b)) else None)"

lemma log_at_nth: "log_from b ms \<Longrightarrow> i < length ms \<Longrightarrow> log_at b ms (b + of_nat i) = Some (ms ! i)"
  using log_from_bound [of b ms] by (simp add: log_at_def unat_add_of_nat)

lemma log_at_Some:
  assumes "log_at b ms off = Some m"
  shows "\<exists>i < length ms. off = b + of_nat i \<and> m = ms ! i"
  using assms word_between_offset [of b off] by (auto simp: log_at_def split: if_splits)

lemma log_at_next: "log_from b ms \<Longrightarrow> log_at b ms (b + of_nat (length ms)) = None"
  by (simp add: log_at_def log_from_next_unat)

lemma log_at_snoc:
  assumes "log_from b (ms @ [m])"
  shows "log_at b (ms @ [m]) = (log_at b ms)(b + of_nat (length ms) \<mapsto> m)"
proof
  fix off
  have n: "unat (b + of_nat (length ms)) = unat b + length ms"
    using assms by (auto simp: log_from_snoc log_from_next_unat)
  show "log_at b (ms @ [m]) off = ((log_at b ms)(b + of_nat (length ms) \<mapsto> m)) off"
  proof (cases "off = b + of_nat (length ms)")
    case True
    with n show ?thesis by (simp add: log_at_def)
  next
    case False
    then have "unat off \<noteq> unat b + length ms" using n by (metis word_unat_eq_iff)
    with False show ?thesis by (auto simp: log_at_def nth_append)
  qed
qed

section \<open>The interface\<close>

locale append_log =
  fixes rep :: "'s \<Rightarrow> u64 \<Rightarrow> message list \<Rightarrow> bool"
    and app :: "message \<Rightarrow> 's \<Rightarrow> 's"
    and rd :: "'s \<Rightarrow> u64 \<Rightarrow> message option"
    and cut :: "u64 \<Rightarrow> 's \<Rightarrow> 's"
    and nxt :: "'s \<Rightarrow> u64"
    and cuttable :: "'s \<Rightarrow> bool"
  assumes rep_log: "rep s b ms \<Longrightarrow> log_from b ms"
    and rep_nxt: "rep s b ms \<Longrightarrow> nxt s = b + of_nat (length ms)"
    and rep_rd: "rep s b ms \<Longrightarrow> rd s off = log_at b ms off"
    and rep_app: "rep s b ms \<Longrightarrow> log_from b (ms @ [m]) \<Longrightarrow> rep (app m s) b (ms @ [m])"
    and app_cuttable: "rep s b ms \<Longrightarrow> log_from b (ms @ [m]) \<Longrightarrow> cuttable (app m s)"
    and rep_cut: "rep s b ms \<Longrightarrow> ms \<noteq> [] \<Longrightarrow> cuttable s \<Longrightarrow> rep (cut (nxt s - 1) s) b (butlast ms)"
begin

lemma rep_unique: "rep s b ms \<Longrightarrow> rep s b ns \<Longrightarrow> ms = ns"
proof -
  assume a: "rep s b ms" "rep s b ns"
  have "b + of_nat (length ms) = b + of_nat (length ns)"
    using rep_nxt [OF a(1)] rep_nxt [OF a(2)] by simp
  then have len: "length ms = length ns"
    using add_of_nat_inject [OF log_from_bound log_from_bound, OF rep_log rep_log, OF a] by simp
  moreover have "ms ! i = ns ! i" if i: "i < length ms" for i
  proof -
    have "Some (ms ! i) = rd s (b + of_nat i)"
      using rep_rd [OF a(1)] log_at_nth [OF rep_log [OF a(1)] i] by simp
    also have "\<dots> = Some (ns ! i)"
      using rep_rd [OF a(2)] log_at_nth [OF rep_log [OF a(2)], of i] i len by simp
    finally show ?thesis by simp
  qed
  ultimately show "ms = ns" by (rule nth_equalityI)
qed

lemma rep_appends: "rep s b ms \<Longrightarrow> log_from b (ms @ xs) \<Longrightarrow> rep (fold app xs s) b (ms @ xs)"
proof (induction xs arbitrary: s ms)
  case Nil
  then show ?case by simp
next
  case (Cons x xs)
  from Cons.prems have l: "log_from b ((ms @ [x]) @ xs)" by simp
  then have "log_from b (ms @ [x])" by (simp only: log_from_append)
  with Cons.prems have "rep (app x s) b (ms @ [x])" by (intro rep_app)
  from Cons.IH [OF this l] show ?case by simp
qed

lemma read_after_append:
  "rep s b ms \<Longrightarrow> log_from b (ms @ [m]) \<Longrightarrow> rd (app m s) = (rd s)(nxt s \<mapsto> m)"
  using rep_rd rep_app rep_nxt log_at_snoc by (metis (no_types, lifting) ext)

lemma nxt_after_append:
  "rep s b ms \<Longrightarrow> log_from b (ms @ [m]) \<Longrightarrow> nxt (app m s) = nxt s + 1"
  using rep_nxt rep_app by (metis add_one_of_nat length_append_singleton)

text \<open>Rolling back the record just written restores the log.\<close>

lemma rollback:
  assumes "rep s b ms" and "log_from b (ms @ [m])"
  shows "rep (cut (nxt s) (app m s)) b ms"
proof -
  have r: "rep (app m s) b (ms @ [m])" using assms by (rule rep_app)
  have "nxt (app m s) - 1 = nxt s" using nxt_after_append [OF assms] by simp
  with rep_cut [OF r _ app_cuttable [OF assms]] show ?thesis by simp
qed

lemma rollback_reads:
  "rep s b ms \<Longrightarrow> log_from b (ms @ [m]) \<Longrightarrow> rd (cut (nxt s) (app m s)) = rd s"
  using rollback rep_rd by (metis (no_types, lifting) ext)

text \<open>A copy that holds a prefix becomes equal by replaying the rest.\<close>

lemma replay_suffix:
  assumes "rep s b ms" and "rep t b (take k ms)"
  shows "rep (fold app (drop k ms) t) b ms"
  using rep_appends [OF assms(2), of "drop k ms"] rep_log [OF assms(1)] by simp

end

end
