(* ===== verification/Segment.thy ===== *)
theory Segment
  imports Bytes GoFmt GoError LogContract
begin

text \<open>
  The append-only segment file, \<open>server/persistent/aol/segment.go\<close>: its record format, the
  in-memory index, append, read, truncation and crash recovery.

  A segment works on one file. The file's contents are a byte list beside the \<^theory_text>\<open>segment\<close>
  record, which has the struct's fields; \<open>fileOpen\<close> says whether the \<open>*os.File\<close> is still open.
  What the operating system answers is an argument: for a write, whether it completed or how many
  bytes reached the file, whether the repair truncation and the fsync succeed; for reads, the
  positions at which the device fails. \<open>Path\<close> is the file's name within the partition directory.
\<close>

section \<open>Data\<close>

record segment =
  Path :: string
  BaseOffset :: u64
  NextOffset :: u64
  index :: "u64 \<rightharpoonup> nat"
  CurrentSize :: nat
  fileOpen :: bool

type_synonym dir = "(string \<times> bytes) list"  \<comment> \<open>the regular files of one partition directory\<close>

datatype write_result = Wrote | WriteErr nat  \<comment> \<open>on error, the bytes already in the file\<close>

record append_io =
  wr :: write_result
  repairOk :: bool
  syncOk :: bool

record trunc_io =
  truncOk :: bool
  tsyncOk :: bool

record open_io =
  openOk :: bool
  statOk :: bool
  repairTruncOk :: bool
  readFault :: "nat \<Rightarrow> bool"

definition good_append :: append_io where
  "good_append = \<lparr>wr = Wrote, repairOk = True, syncOk = True\<rparr>"
definition good_trunc :: trunc_io where
  "good_trunc = \<lparr>truncOk = True, tsyncOk = True\<rparr>"
definition good_open :: open_io where
  "good_open = \<lparr>openOk = True, statOk = True, repairTruncOk = True, readFault = (\<lambda>_. False)\<rparr>"

section \<open>The operations\<close>

definition fileName :: "u64 \<Rightarrow> string" where
  "fileName baseOffset = pad0 20 (dec (unat baseOffset)) @ ''.log''"

definition file_truncate :: "nat \<Rightarrow> bytes \<Rightarrow> bytes" where
  "file_truncate pos f = take pos f @ replicate (pos - length f) 0"

definition file_ReadAt :: "(nat \<Rightarrow> bool) \<Rightarrow> bytes \<Rightarrow> nat \<Rightarrow> nat \<Rightarrow> go_error + bytes" where
  "file_ReadAt fault f pos n =
     (if n = 0 then Inr []
      else if fault pos then Inl EIO
      else if length f < pos + n then Inl EEOF
      else Inr (take n (drop pos f)))"

definition Append ::
  "append_io \<Rightarrow> u64 \<Rightarrow> i64 \<Rightarrow> bytes \<Rightarrow> bytes \<times> segment \<Rightarrow> (go_error + nat) \<times> bytes \<times> segment" where
  "Append io offset timestamp payload = (\<lambda>(f, s).
     let valLen = length payload;
         msgBodySize = (of_nat (8 + 8 + valLen) :: u32);
         totalMsgSize = 4 + msgBodySize
     in if unat totalMsgSize < 20 then (Inl EPanic, f, s)
     else
       let buf = PutUint32 msgBodySize @ PutUint64 offset @ PutUint64 timestamp
                   @ take (unat totalMsgSize - 20) payload;
           pos = CurrentSize s
       in if \<not> fileOpen s then (Inl EClosed, f, s)
       else case wr io of
         WriteErr n \<Rightarrow>
           (let f' = f @ take n buf
            in (Inl EIO, if 0 < n \<and> repairOk io then file_truncate pos f' else f', s))
       | Wrote \<Rightarrow>
           if \<not> syncOk io then (Inl EIO, f @ buf, s)
           else (Inr (length buf), f @ buf,
                 s\<lparr>index := (index s)(offset \<mapsto> pos),
                   CurrentSize := CurrentSize s + length buf,
                   NextOffset := offset + 1\<rparr>))"

definition TruncateFrom ::
  "trunc_io \<Rightarrow> u64 \<Rightarrow> bytes \<times> segment \<Rightarrow> go_error option \<times> bytes \<times> segment" where
  "TruncateFrom io offset = (\<lambda>(f, s).
     if NextOffset s \<le> offset then (None, f, s)
     else if offset < BaseOffset s then (Some (ETruncateBelowBase offset (BaseOffset s)), f, s)
     else case index s offset of
       None \<Rightarrow> (Some (ETruncateNotFound offset (Path s)), f, s)
     | Some pos \<Rightarrow>
         if \<not> truncOk io then (Some EIO, f, s)
         else
           let f' = file_truncate pos f
           in if \<not> fileOpen s then (Some EClosed, f', s)
           else if \<not> tsyncOk io then (Some EIO, f', s)
           else (None, f',
                 s\<lparr>index := (\<lambda>o'. if offset \<le> o' then None else index s o'),
                   CurrentSize := pos, NextOffset := offset\<rparr>))"

definition Read :: "(nat \<Rightarrow> bool) \<Rightarrow> u64 \<Rightarrow> bytes \<times> segment \<Rightarrow> go_error + message" where
  "Read fault offset = (\<lambda>(f, s).
     case index s offset of
       None \<Rightarrow> Inl EOffsetNotInSegment
     | Some pos \<Rightarrow>
         if \<not> fileOpen s then Inl EClosed
         else sbind (file_ReadAt fault f pos 4) (\<lambda>sizeBuf.
           let msgBodySize = Uint32 sizeBuf
           in sbind (file_ReadAt fault f (pos + 4) (unat msgBodySize)) (\<lambda>bodyBuf.
             if length bodyBuf < 16 then Inl EPanic
             else Inr \<lparr>Offset = Uint64 (take 8 bodyBuf),
                       Timestamp = Uint64 (take 8 (drop 8 bodyBuf)),
                       Payload = drop 16 bodyBuf\<rparr>)))"

function recover_loop ::
  "(nat \<Rightarrow> bool) \<Rightarrow> bytes \<Rightarrow> nat \<Rightarrow> nat \<Rightarrow> (u64 \<rightharpoonup> nat) \<Rightarrow> u64
     \<Rightarrow> go_error + nat \<times> (u64 \<rightharpoonup> nat) \<times> u64" where
  "recover_loop fault f fsize currentPos idx nxt =
     (if currentPos < fsize then
        case file_ReadAt fault f currentPos 4 of
          Inl e \<Rightarrow> if e = EEOF then Inr (currentPos, idx, nxt) else Inl e
        | Inr sizeBuf \<Rightarrow>
            let totalRecordSize = 4 + unat (Uint32 sizeBuf)
            in if fsize < currentPos + totalRecordSize then Inr (currentPos, idx, nxt)
            else case file_ReadAt fault f (currentPos + 4) 8 of
              Inl e \<Rightarrow> if e = EEOF then Inr (currentPos, idx, nxt) else Inl e
            | Inr offsetBuf \<Rightarrow>
                let msgOffset = Uint64 offsetBuf
                in recover_loop fault f fsize (currentPos + totalRecordSize)
                     (idx(msgOffset \<mapsto> currentPos)) (msgOffset + 1)
      else Inr (currentPos, idx, nxt))"
  by pat_completeness auto
termination
  by (relation "measure (\<lambda>(fault, f, fsize, currentPos, idx, nxt). fsize - currentPos)") auto

declare recover_loop.simps [simp del]

definition recoverIndex ::
  "(nat \<Rightarrow> bool) \<Rightarrow> bool \<Rightarrow> bytes \<times> segment \<Rightarrow> go_error + bytes \<times> segment" where
  "recoverIndex fault truncateOk = (\<lambda>(f, s).
     sbind (recover_loop fault f (CurrentSize s) 0 (index s) (NextOffset s)) (\<lambda>(currentPos, idx, nxt).
       let s' = s\<lparr>index := idx, NextOffset := nxt\<rparr>
       in if currentPos < CurrentSize s then
            if \<not> truncateOk then Inl EIO
            else Inr (file_truncate currentPos f, s'\<lparr>CurrentSize := currentPos\<rparr>)
          else Inr (f, s')))"

definition dir_get :: "dir \<Rightarrow> string \<Rightarrow> bytes" where
  "dir_get d name = (case map_of d name of None \<Rightarrow> [] | Some f \<Rightarrow> f)"

definition NewSegment :: "open_io \<Rightarrow> u64 \<Rightarrow> dir \<Rightarrow> (go_error + segment) \<times> dir" where
  "NewSegment io baseOffset d =
     (let path = fileName baseOffset
      in if \<not> openOk io then (Inl EIO, d)
      else
        let f = dir_get d path; d' = AList.update path f d
        in if \<not> statOk io then (Inl EIO, d')
        else
          let seg = \<lparr>Path = path, BaseOffset = baseOffset, NextOffset = baseOffset,
                     index = Map.empty, CurrentSize = length f, fileOpen = True\<rparr>
          in if 0 < CurrentSize seg then
               case recoverIndex (readFault io) (repairTruncOk io) (f, seg) of
                 Inl e \<Rightarrow> (Inl e, d')
               | Inr (f', seg') \<Rightarrow> (Inr seg', AList.update path f' d')
             else (Inr seg, d'))"

definition seg_Close :: "segment \<Rightarrow> segment" where
  "seg_Close s = s\<lparr>fileOpen := False\<rparr>"

section \<open>The record format\<close>

definition encode_record :: "message \<Rightarrow> bytes" where
  "encode_record m = PutUint32 (of_nat (16 + length (Payload m))) @ PutUint64 (Offset m)
     @ PutUint64 (Timestamp m) @ Payload m"

definition log_image :: "message list \<Rightarrow> bytes" where
  "log_image ms = concat (map encode_record ms)"

definition pos_of :: "message list \<Rightarrow> nat \<Rightarrow> nat" where
  "pos_of ms i = length (log_image (take i ms))"

definition index_of :: "u64 \<Rightarrow> message list \<Rightarrow> (u64 \<rightharpoonup> nat)" where
  "index_of b ms = (\<lambda>off.
     if unat b \<le> unat off \<and> unat off - unat b < length ms then Some (pos_of ms (unat off - unat b)) else None)"

lemma log_image_Nil [simp]: "log_image [] = []"
  and log_image_append [simp]: "log_image (ms @ ns) = log_image ms @ log_image ns"
  and log_image_single: "log_image [m] = encode_record m"
  and log_image_Cons: "log_image (m # ms) = encode_record m @ log_image ms"
  by (simp_all add: log_image_def)

lemma length_encode_record [simp]: "length (encode_record m) = 20 + length (Payload m)"
  by (simp add: encode_record_def)

lemma record_size_word: "payload_ok p \<Longrightarrow> unat (of_nat (16 + length p) :: u32) = 16 + length p"
  by (simp add: payload_ok_def unat_word_ariths unat_of_nat)

lemma total_size_word: "payload_ok p \<Longrightarrow> unat (4 + of_nat (16 + length p) :: u32) = 20 + length p"
  by (simp add: payload_ok_def unat_word_ariths unat_of_nat)

lemma Uint32_encode: "Uint32 (take 4 (encode_record m)) = of_nat (16 + length (Payload m))"
  by (simp add: encode_record_def be32.take_put be32.get_put_self)

lemma offset_encode: "Uint64 (take 8 (drop 4 (encode_record m @ rest))) = Offset m"
  by (simp add: encode_record_def be32.drop_put be64.take_put be64.get_put_self)

lemma body_encode:
  "take (16 + length (Payload m)) (drop 4 (encode_record m @ rest)) =
   PutUint64 (Offset m) @ PutUint64 (Timestamp m) @ Payload m"
  by (simp add: encode_record_def)

text \<open>Reading at the position of a whole record.\<close>

lemma ReadAt_inside:
  "0 < n \<Longrightarrow> length ys \<ge> n \<Longrightarrow> \<not> fault (length pre) \<Longrightarrow>
   file_ReadAt fault (pre @ ys) (length pre) n = Inr (take n ys)"
  by (simp add: file_ReadAt_def)

lemma ReadAt_inside_plus:
  "0 < n \<Longrightarrow> length ys \<ge> k + n \<Longrightarrow> \<not> fault (length pre + k) \<Longrightarrow>
   file_ReadAt fault (pre @ ys) (length pre + k) n = Inr (take n (drop k ys))"
  by (simp add: file_ReadAt_def)

section \<open>A segment represents a run of the log\<close>

definition seg_rep :: "bytes \<times> segment \<Rightarrow> u64 \<Rightarrow> message list \<Rightarrow> bool" where
  "seg_rep st b ms \<longleftrightarrow>
     log_from b ms \<and> fst st = log_image ms \<and> CurrentSize (snd st) = length (log_image ms)
     \<and> BaseOffset (snd st) = b \<and> NextOffset (snd st) = b + of_nat (length ms)
     \<and> index (snd st) = index_of b ms \<and> fileOpen (snd st)"

lemma seg_repD:
  assumes "seg_rep st b ms"
  shows "log_from b ms" "fst st = log_image ms" "CurrentSize (snd st) = length (log_image ms)"
    "BaseOffset (snd st) = b" "NextOffset (snd st) = b + of_nat (length ms)"
    "index (snd st) = index_of b ms" "fileOpen (snd st)"
  using assms by (simp_all add: seg_rep_def)

lemma index_of_Nil [simp]: "index_of b [] = Map.empty"
  by (simp add: index_of_def)

lemma index_of_nth: "log_from b ms \<Longrightarrow> i < length ms \<Longrightarrow> index_of b ms (b + of_nat i) = Some (pos_of ms i)"
  using log_from_bound [of b ms] by (simp add: index_of_def unat_add_of_nat)

lemma index_of_snoc:
  assumes "log_from b (ms @ [m])"
  shows "index_of b (ms @ [m]) = (index_of b ms)(b + of_nat (length ms) \<mapsto> length (log_image ms))"
proof
  fix off
  have n: "unat (b + of_nat (length ms)) = unat b + length ms"
    using assms by (auto simp: log_from_snoc log_from_next_unat)
  show "index_of b (ms @ [m]) off
      = ((index_of b ms)(b + of_nat (length ms) \<mapsto> length (log_image ms))) off"
  proof (cases "off = b + of_nat (length ms)")
    case True
    with n show ?thesis by (simp add: index_of_def pos_of_def)
  next
    case False
    then have "unat off \<noteq> unat b + length ms" using n by (metis word_unat_eq_iff)
    with False show ?thesis by (auto simp: index_of_def pos_of_def)
  qed
qed

lemma index_of_take:
  assumes "log_from b ms" "i \<le> length ms"
  shows "(\<lambda>o'. if b + of_nat i \<le> o' then None else index_of b ms o') = index_of b (take i ms)"
proof
  fix off
  have "unat (b + of_nat i) = unat b + i"
    using unat_offset_less [OF log_from_bound [OF assms(1)] assms(2)] .
  then show "(if b + of_nat i \<le> off then None else index_of b ms off) = index_of b (take i ms) off"
    using assms(2) by (auto simp: index_of_def word_le_nat_alt pos_of_def min_def)
qed

subsection \<open>Append\<close>

lemma Append_good [seg_simps]:
  assumes "payload_ok p" "fileOpen s"
  shows "Append good_append off ts p (f, s) =
    (Inr (20 + length p), f @ encode_record \<lparr>Offset = off, Timestamp = ts, Payload = p\<rparr>,
     s\<lparr>index := (index s)(off \<mapsto> CurrentSize s), CurrentSize := CurrentSize s + (20 + length p),
       NextOffset := off + 1\<rparr>)"
  using assms total_size_word [OF assms(1)]
  by (simp add: Append_def Let_def good_append_def encode_record_def add.assoc)

lemma Append_rep:
  assumes "seg_rep (f, s) b ms" "log_from b (ms @ [m])"
  shows "seg_rep (snd (Append good_append (Offset m) (Timestamp m) (Payload m) (f, s))) b (ms @ [m])"
proof -
  have m: "payload_ok (Payload m)" "b + of_nat (length ms) = Offset m"
    using assms(2) by (simp_all add: log_from_snoc)
  have "b + of_nat (length (ms @ [m])) = Offset m + 1"
    using m(2) by (simp add: algebra_simps)
  then show ?thesis
    using assms(2) seg_repD [OF assms(1)] m(1) index_of_snoc [OF assms(2)]
    by (simp add: Append_good seg_rep_def log_image_single m(2) del: of_nat_Suc)
qed

text \<open>Whatever the outcome, a failed append leaves the segment's record of itself unchanged.\<close>

lemma Append_error_segment: "Append io off ts p (f, s) = (Inl e, f', s') \<Longrightarrow> s' = s"
  by (auto simp: Append_def Let_def split: if_splits write_result.splits)

lemma Append_write_error_repaired:
  assumes "seg_rep (f, s) b ms" "payload_ok p" "wr io = WriteErr n" "repairOk io"
  shows "Append io off ts p (f, s) = (Inl EIO, f, s)"
  using assms total_size_word [OF assms(2)]
  by (auto simp: Append_def Let_def seg_rep_def file_truncate_def)

subsection \<open>Read\<close>

lemma Read_record:
  assumes idx: "index s off = Some (length pre)" and opn: "fileOpen s"
    and f: "f = pre @ encode_record m @ rest" and pok: "payload_ok (Payload m)"
    and ok: "\<not> fault (length pre)" "\<not> fault (length pre + 4)"
  shows "Read fault off (f, s) = Inr m"
proof -
  have r1: "file_ReadAt fault f (length pre) 4 = Inr (take 4 (encode_record m))"
    using ok(1) ReadAt_inside [where n = 4 and ys = "encode_record m @ rest" and pre = pre and fault = fault]
    unfolding f by simp
  have r2: "file_ReadAt fault f (length pre + 4) (16 + length (Payload m)) =
      Inr (PutUint64 (Offset m) @ PutUint64 (Timestamp m) @ Payload m)"
    using ok(2) ReadAt_inside_plus [where k = 4 and n = "16 + length (Payload m)"
        and ys = "encode_record m @ rest" and pre = pre and fault = fault]
    unfolding f body_encode by simp
  have size: "unat (Uint32 (take 4 (encode_record m))) = 16 + length (Payload m)"
    using record_size_word [OF pok] by (simp only: Uint32_encode)
  have "Read fault off (f, s) =
    Inr \<lparr>Offset = Offset m, Timestamp = Timestamp m, Payload = Payload m\<rparr>"
    using opn unfolding Read_def
    by (simp add: idx r1 Let_def size r2
        be64.take_put be64.drop_put be64.get_put_self del: of_nat_add)
  then show ?thesis by simp
qed

lemma Read_nth:
  assumes rep: "seg_rep (f, s) b ms" and i: "i < length ms"
    and ok: "\<not> fault (pos_of ms i)" "\<not> fault (pos_of ms i + 4)"
  shows "Read fault (b + of_nat i) (f, s) = Inr (ms ! i)"
proof (rule Read_record)
  show "index s (b + of_nat i) = Some (length (log_image (take i ms)))"
    using seg_repD [OF rep] i by (simp add: index_of_nth pos_of_def)
  show "f = log_image (take i ms) @ encode_record (ms ! i) @ log_image (drop (Suc i) ms)"
    using seg_repD(2) [OF rep] concat_map_split [OF i, of encode_record] by (simp add: log_image_def)
  show "payload_ok (Payload (ms ! i))"
    using seg_repD(1) [OF rep] i by (simp add: log_from_payload)
qed (use seg_repD(7) [OF rep] ok in \<open>simp_all add: pos_of_def\<close>)

lemma Read_outside:
  "seg_rep (f, s) b ms \<Longrightarrow> index_of b ms off = None \<Longrightarrow> Read fault off (f, s) = Inl EOffsetNotInSegment"
  by (simp add: Read_def seg_rep_def)

subsection \<open>Truncation\<close>

lemma log_image_take: "log_image ms = log_image (take i ms) @ log_image (drop i ms)"
  by (metis append_take_drop_id log_image_append)

lemma pos_of_le: "pos_of ms i \<le> length (log_image ms)"
  using log_image_take [of ms i] by (simp add: pos_of_def)

lemma file_truncate_image: "file_truncate (pos_of ms i) (log_image ms) = log_image (take i ms)"
proof -
  have "take (pos_of ms i) (log_image ms) = log_image (take i ms)"
    using log_image_take [of ms i] by (metis append_eq_conv_conj pos_of_def)
  then show ?thesis by (simp add: file_truncate_def pos_of_le)
qed

lemma TruncateFrom_rep:
  assumes rep: "seg_rep (f, s) b ms" and i: "i \<le> length ms"
  shows "fst (TruncateFrom good_trunc (b + of_nat i) (f, s)) = None"
    and "seg_rep (snd (TruncateFrom good_trunc (b + of_nat i) (f, s))) b (take i ms)"
proof -
  note r = seg_repD [OF rep, simplified]
  have ui: "unat (b + of_nat i) = unat b + i"
    using unat_offset_less [OF log_from_bound [OF r(1)] i] .
  have ge: "NextOffset s \<le> b + of_nat i \<longleftrightarrow> i = length ms"
    using r(5) ui i log_from_next_unat [OF r(1)] by (auto simp: word_le_nat_alt)
  have nl: "\<not> b + of_nat i < b"
    using ui by (simp add: word_less_nat_alt)
  have "fst (TruncateFrom good_trunc (b + of_nat i) (f, s)) = None \<and>
    seg_rep (snd (TruncateFrom good_trunc (b + of_nat i) (f, s))) b (take i ms)"
  proof (cases "i = length ms")
    case True
    with ge rep show ?thesis by (simp add: TruncateFrom_def)
  next
    case False
    with i have il: "i < length ms" by simp
    have idx: "index s (b + of_nat i) = Some (pos_of ms i)"
      using r index_of_nth [OF r(1) il] by simp
    have cut: "(\<lambda>o'. if b + of_nat i \<le> o' then None else index s o') = index_of b (take i ms)"
      unfolding r(6) by (rule index_of_take [OF r(1) i])
    show ?thesis
      using False ge nl r idx il log_from_take [OF r(1), of i] cut
        file_truncate_image [of ms i]
      by (simp add: TruncateFrom_def Let_def good_trunc_def seg_rep_def pos_of_def)
  qed
  then show "fst (TruncateFrom good_trunc (b + of_nat i) (f, s)) = None"
    and "seg_rep (snd (TruncateFrom good_trunc (b + of_nat i) (f, s))) b (take i ms)"
    by blast+
qed

lemma TruncateFrom_error_segment: "TruncateFrom io off (f, s) = (Some e, f', s') \<Longrightarrow> s' = s"
  by (auto simp: TruncateFrom_def Let_def split: if_splits option.splits)

subsection \<open>Recovery\<close>

text \<open>
  A tail that recovery recognises as an interrupted write: not even the size field is there, or
  the size field promises more than the file holds.
\<close>

definition torn_tail :: "bytes \<Rightarrow> bool" where
  "torn_tail t \<longleftrightarrow> length t < 4 \<or> length t < 4 + unat (Uint32 (take 4 t))"

lemma torn_prefix:
  assumes "payload_ok (Payload m)" "n < length (encode_record m)"
  shows "torn_tail (take n (encode_record m))"
proof (cases "n < 4")
  case False
  then have "take 4 (take n (encode_record m)) = take 4 (encode_record m)"
    by (simp add: min_def)
  then show ?thesis
    using assms record_size_word [OF assms(1)] Uint32_encode [of m] by (simp add: torn_tail_def)
qed (simp add: torn_tail_def)

lemma recover_loop_torn:
  assumes "torn_tail t"
  shows "recover_loop (\<lambda>_. False) (pre @ t) (length (pre @ t)) (length pre) idx nxt = Inr (length pre, idx, nxt)"
proof (cases "t = []")
  case True
  then show ?thesis by (simp add: recover_loop.simps)
next
  case False
  with assms show ?thesis
    by (subst recover_loop.simps) (auto simp: file_ReadAt_def torn_tail_def Let_def)
qed

lemma recover_loop_record:
  assumes "payload_ok (Payload m)"
  shows "recover_loop (\<lambda>_. False) (pre @ encode_record m @ rest) (length (pre @ encode_record m @ rest))
      (length pre) idx nxt =
    recover_loop (\<lambda>_. False) (pre @ encode_record m @ rest) (length (pre @ encode_record m @ rest))
      (length (pre @ encode_record m)) (idx(Offset m \<mapsto> length pre)) (Offset m + 1)"
proof -
  let ?f = "pre @ encode_record m @ rest"
  have r1: "file_ReadAt (\<lambda>_. False) ?f (length pre) 4 = Inr (take 4 (encode_record m))"
    by (simp add: file_ReadAt_def)
  have r2: "file_ReadAt (\<lambda>_. False) ?f (length pre + 4) 8 = Inr (PutUint64 (Offset m))"
    by (simp add: file_ReadAt_def encode_record_def)
  have size: "4 + unat (Uint32 (take 4 (encode_record m))) = length (encode_record m)"
    using record_size_word [OF assms] by (simp only: Uint32_encode length_encode_record)
  show ?thesis
    by (subst recover_loop.simps)
      (simp only: r1 r2 sum.case Let_def size be64.get_put_self, simp add: add.assoc)
qed

lemma recover_loop_image:
  "log_from b (ms0 @ ms) \<Longrightarrow> torn_tail t \<Longrightarrow>
   recover_loop (\<lambda>_. False) (log_image (ms0 @ ms) @ t) (length (log_image (ms0 @ ms) @ t))
     (length (log_image ms0)) (index_of b ms0) (b + of_nat (length ms0)) =
   Inr (length (log_image (ms0 @ ms)), index_of b (ms0 @ ms), b + of_nat (length (ms0 @ ms)))"
proof (induction ms arbitrary: ms0)
  case Nil
  then show ?case using recover_loop_torn [of t "log_image ms0"] by simp
next
  case (Cons m ms)
  have l: "log_from b ((ms0 @ [m]) @ ms)" using Cons.prems(1) by simp
  then have l1: "log_from b (ms0 @ [m])" by (simp only: log_from_append)
  then have m: "payload_ok (Payload m)" "Offset m = b + of_nat (length ms0)"
    by (simp_all add: log_from_snoc)
  have im: "log_image (ms0 @ m # ms) @ t = log_image ms0 @ encode_record m @ log_image ms @ t"
    by (simp add: log_image_Cons)
  have nx: "Offset m + 1 = b + of_nat (length (ms0 @ [m]))"
    using m(2) by simp
  have ix: "(index_of b ms0)(Offset m \<mapsto> length (log_image ms0)) = index_of b (ms0 @ [m])"
    using index_of_snoc [OF l1] m(2) by simp
  have ps: "length (log_image ms0 @ encode_record m) = length (log_image (ms0 @ [m]))"
    by (simp add: log_image_single)
  have "recover_loop (\<lambda>_. False) (log_image (ms0 @ m # ms) @ t) (length (log_image (ms0 @ m # ms) @ t))
     (length (log_image ms0)) (index_of b ms0) (b + of_nat (length ms0)) =
    recover_loop (\<lambda>_. False) (log_image (ms0 @ m # ms) @ t) (length (log_image (ms0 @ m # ms) @ t))
     (length (log_image (ms0 @ [m]))) (index_of b (ms0 @ [m])) (b + of_nat (length (ms0 @ [m])))"
    unfolding im using recover_loop_record [OF m(1)] by (simp only: ix nx ps)
  with Cons.IH [OF l Cons.prems(2)] show ?case by simp
qed

text \<open>Opening the file of an earlier run: whole records are indexed, a torn tail is cut off.\<close>

lemma NewSegment_recovers:
  assumes "log_from b ms" "torn_tail t" "dir_get d (fileName b) = log_image ms @ t"
  shows "\<exists>s d'. NewSegment good_open b d = (Inr s, d') \<and> Path s = fileName b
     \<and> seg_rep (dir_get d' (fileName b), s) b ms
     \<and> (\<forall>n. n \<noteq> fileName b \<longrightarrow> map_of d' n = map_of d n)"
proof -
  have lp: "recover_loop (\<lambda>_. False) (log_image ms @ t) (length (log_image ms @ t)) 0 Map.empty b =
      Inr (length (log_image ms), index_of b ms, b + of_nat (length ms))"
    using recover_loop_image [of b "[]" ms t] assms(1,2) by simp
  show ?thesis
  proof (cases "log_image ms @ t = []")
    case True
    moreover from this have "ms = []"
      by (cases ms) (auto simp: log_image_Cons encode_record_def)
    ultimately show ?thesis
      using assms by (simp add: NewSegment_def good_open_def Let_def seg_rep_def dir_get_def update_conv')
  next
    case False
    then have pos: "0 < length (log_image ms @ t)" by simp
    have tr: "file_truncate (length (log_image ms)) (log_image ms @ t) = log_image ms"
      by (simp add: file_truncate_def)
    show ?thesis
    proof (cases "t = []")
      case True
      with pos lp assms show ?thesis
        by (simp add: NewSegment_def good_open_def Let_def recoverIndex_def seg_rep_def dir_get_def
            update_conv' split_def)
    next
      case False
      with pos lp assms tr show ?thesis
        by (simp add: NewSegment_def good_open_def Let_def recoverIndex_def seg_rep_def dir_get_def
            update_conv' split_def)
    qed
  qed
qed

section \<open>The segment provides the log interface\<close>

definition seg_append :: "message \<Rightarrow> bytes \<times> segment \<Rightarrow> bytes \<times> segment" where
  "seg_append m st = snd (Append good_append (Offset m) (Timestamp m) (Payload m) st)"

definition seg_read :: "bytes \<times> segment \<Rightarrow> u64 \<Rightarrow> message option" where
  "seg_read st off = (case Read (\<lambda>_. False) off st of Inl e \<Rightarrow> None | Inr m \<Rightarrow> Some m)"

definition seg_cut :: "u64 \<Rightarrow> bytes \<times> segment \<Rightarrow> bytes \<times> segment" where
  "seg_cut off st = snd (TruncateFrom good_trunc off st)"

lemma seg_read_log_at:
  assumes "seg_rep st b ms"
  shows "seg_read st off = log_at b ms off"
proof (cases "log_at b ms off")
  case None
  then have "index_of b ms off = None" by (auto simp: log_at_def index_of_def split: if_splits)
  with None assms show ?thesis
    by (cases st) (simp add: seg_read_def Read_outside)
next
  case (Some m)
  then obtain i where i: "i < length ms" "off = b + of_nat i" "m = ms ! i"
    using log_at_Some by blast
  with Some assms show ?thesis
    by (cases st) (simp add: seg_read_def Read_nth)
qed

interpretation seg: append_log seg_rep seg_append seg_read seg_cut "\<lambda>st. NextOffset (snd st)" "\<lambda>_. True"
proof unfold_locales
  fix st b ms and m :: message
  show "seg_rep st b ms \<Longrightarrow> log_from b (ms @ [m]) \<Longrightarrow> seg_rep (seg_append m st) b (ms @ [m])"
    by (cases st) (simp add: seg_append_def Append_rep)
  assume rep: "seg_rep st b ms" and ne: "ms \<noteq> []"
  have nx: "NextOffset (snd st) - 1 = b + of_nat (length ms - 1)"
    using seg_repD(5) [OF rep] ne by (cases ms) simp_all
  from rep ne show "seg_rep (seg_cut (NextOffset (snd st) - 1) st) b (butlast ms)"
    unfolding nx by (cases st) (simp add: seg_cut_def TruncateFrom_rep butlast_conv_take)
qed (auto simp: seg_rep_def seg_read_log_at)

section \<open>Recovery from a crash at any byte\<close>

lemma torn_tail_Nil [simp]: "torn_tail []"
  by (simp add: torn_tail_def)

lemma log_image_prefix:
  "\<forall>m \<in> set ms. payload_ok (Payload m) \<Longrightarrow> n \<le> length (log_image ms) \<Longrightarrow>
   \<exists>k t. k \<le> length ms \<and> take n (log_image ms) = log_image (take k ms) @ t \<and> torn_tail t
     \<and> pos_of ms k \<le> n \<and> (k < length ms \<longrightarrow> n < pos_of ms (Suc k))"
proof (induction ms arbitrary: n)
  case Nil
  then show ?case by (simp add: pos_of_def)
next
  case (Cons m ms)
  show ?case
  proof (cases "n < length (encode_record m)")
    case True
    with Cons.prems have "torn_tail (take n (encode_record m))" by (simp add: torn_prefix)
    with True show ?thesis
      by (intro exI [of _ 0] exI [of _ "take n (encode_record m)"])
        (simp add: log_image_Cons pos_of_def)
  next
    case False
    let ?n = "n - length (encode_record m)"
    have "?n \<le> length (log_image ms)" using Cons.prems False by (simp add: log_image_Cons)
    then obtain k t where kt: "k \<le> length ms" "take ?n (log_image ms) = log_image (take k ms) @ t"
      "torn_tail t" "pos_of ms k \<le> ?n" "k < length ms \<longrightarrow> ?n < pos_of ms (Suc k)"
      using Cons.IH [of ?n] Cons.prems by auto
    then show ?thesis
      using False
      by (intro exI [of _ "Suc k"] exI [of _ t]) (auto simp: log_image_Cons pos_of_def)
  qed
qed

text \<open>C12. Crash recovery. If the process dies while the file of a segment holds any byte prefix of
  the log's image (an append was interrupted anywhere, or the last appends never reached the disk),
  opening the segment again succeeds and yields exactly the longest run of whole records that fits
  in those bytes: their index, the next offset and the size are those of that run and the partial
  record is cut off the file, so that appending continues without a gap. No other file of the
  directory changes.\<close>

theorem segment_crash_recovery:
  assumes "log_from b ms" and "n \<le> length (log_image ms)"
    and "dir_get d (fileName b) = take n (log_image ms)"
  shows "\<exists>k s d'. k \<le> length ms \<and> NewSegment good_open b d = (Inr s, d')
     \<and> Path s = fileName b \<and> seg_rep (dir_get d' (fileName b), s) b (take k ms)
     \<and> pos_of ms k \<le> n \<and> (k < length ms \<longrightarrow> n < pos_of ms (Suc k))
     \<and> (\<forall>f. f \<noteq> fileName b \<longrightarrow> map_of d' f = map_of d f)"
proof -
  obtain k t where kt: "k \<le> length ms" "take n (log_image ms) = log_image (take k ms) @ t"
    "torn_tail t" "pos_of ms k \<le> n" "k < length ms \<longrightarrow> n < pos_of ms (Suc k)"
    using log_image_prefix [OF _ assms(2)] assms(1) by (auto simp: log_from_def)
  obtain s d' where "NewSegment good_open b d = (Inr s, d')" "Path s = fileName b"
    "seg_rep (dir_get d' (fileName b), s) b (take k ms)"
    "\<forall>f. f \<noteq> fileName b \<longrightarrow> map_of d' f = map_of d f"
    using NewSegment_recovers [OF log_from_take [OF assms(1)] kt(3)] assms(3) kt(2) by metis
  with kt show ?thesis by blast
qed

definition two_records :: "message list" where
  "two_records = [\<lparr>Offset = 5, Timestamp = 9, Payload = [1, 2]\<rparr>, \<lparr>Offset = 6, Timestamp = 10, Payload = [3]\<rparr>]"

lemma log_from_two_records: "log_from 5 two_records"
  by (simp add: two_records_def log_from_Cons payload_ok_def)

theorem segment_crash_recovery_witness:
  "\<exists>s d'. NewSegment good_open 5 [(fileName 5, take 30 (log_image two_records))] = (Inr s, d')
     \<and> seg_rep (dir_get d' (fileName 5), s) 5 (take 1 two_records)"
proof -
  have len: "length (log_image two_records) = 43"
    by (simp add: two_records_def log_image_Cons)
  have "dir_get [(fileName 5, take 30 (log_image two_records))] (fileName 5) = take 30 (log_image two_records)"
    by (simp add: dir_get_def)
  from segment_crash_recovery [OF log_from_two_records _ this] len
  obtain k s d' where r: "k \<le> length two_records"
    "NewSegment good_open 5 [(fileName 5, take 30 (log_image two_records))] = (Inr s, d')"
    "seg_rep (dir_get d' (fileName 5), s) 5 (take k two_records)"
    "pos_of two_records k \<le> 30" "k < length two_records \<longrightarrow> 30 < pos_of two_records (Suc k)"
    by (auto simp del: length_encode_record)
  have "k \<noteq> 0" using r(5) by (intro notI) (simp add: two_records_def pos_of_def log_image_Cons)
  moreover have "k \<noteq> 2" using r(4) by (intro notI) (simp add: two_records_def pos_of_def log_image_Cons)
  ultimately have "k = 1" using r(1) by (simp add: two_records_def)
  with r show ?thesis by blast
qed

section \<open>Opening any file\<close>

text \<open>Every indexed position starts a record whose bytes are all in the file.\<close>

definition index_inside :: "bytes \<Rightarrow> (u64 \<rightharpoonup> nat) \<Rightarrow> bool" where
  "index_inside f idx \<longleftrightarrow> (\<forall>off pos. idx off = Some pos \<longrightarrow>
     pos + 4 + unat (Uint32 (take 4 (drop pos f))) \<le> length f)"

lemma index_inside_extend:
  "index_inside (take p f) idx \<Longrightarrow> p \<le> q \<Longrightarrow> q \<le> length f \<Longrightarrow> index_inside (take q f) idx"
proof -
  assume a: "index_inside (take p f) idx" "p \<le> q" "q \<le> length f"
  have "pos + 4 + unat (Uint32 (take 4 (drop pos (take q f)))) \<le> length (take q f)"
    if "idx off = Some pos" for off pos
  proof -
    have b: "pos + 4 + unat (Uint32 (take 4 (drop pos (take p f)))) \<le> p"
      using a that by (fastforce simp: index_inside_def)
    then have "take 4 (drop pos (take q f)) = take 4 (drop pos (take p f))"
      using a by (simp add: drop_take min_def)
    with b a show ?thesis by simp
  qed
  then show ?thesis by (simp add: index_inside_def)
qed

lemma recover_loop_inside:
  assumes "recover_loop (\<lambda>_. False) f (length f) pos idx nxt = r"
    and "pos \<le> length f" and "index_inside (take pos f) idx"
  shows "\<exists>p idx' nxt'. r = Inr (p, idx', nxt') \<and> p \<le> length f \<and> index_inside (take p f) idx'"
  using assms
proof (induction "\<lambda>_::nat. False" f "length f" pos idx nxt rule: recover_loop.induct)
  case (1 f pos idx nxt)
  note unf = recover_loop.simps [of "\<lambda>_. False" f "length f" pos idx nxt]
  show ?case
  proof (cases "pos + 4 \<le> length f")
    case False
    with 1 unf show ?thesis by (auto simp: file_ReadAt_def)
  next
    case True
    define total where "total = 4 + unat (Uint32 (take 4 (drop pos f)))"
    have r1: "file_ReadAt (\<lambda>_. False) f pos 4 = Inr (take 4 (drop pos f))"
      using True by (simp add: file_ReadAt_def)
    show ?thesis
    proof (cases "pos + total \<le> length f \<and> pos + 12 \<le> length f")
      case False
      with 1 unf True r1 show ?thesis
        by (auto simp: total_def Let_def file_ReadAt_def)
    next
      case fits: True
      define off where "off = Uint64 (take 8 (drop (pos + 4) f))"
      have r2: "file_ReadAt (\<lambda>_. False) f (pos + 4) 8 = Inr (take 8 (drop (pos + 4) f))"
        using fits by (simp add: file_ReadAt_def)
      have step: "recover_loop (\<lambda>_. False) f (length f) pos idx nxt =
          recover_loop (\<lambda>_. False) f (length f) (pos + total) (idx(off \<mapsto> pos)) (off + 1)"
        using fits True unf by (simp add: r1 r2 Let_def total_def off_def)
      have "index_inside (take (pos + total) f) (idx(off \<mapsto> pos))"
      proof -
        have old: "index_inside (take (pos + total) f) idx"
          using index_inside_extend [OF 1(4)] fits by simp
        have "take 4 (drop pos (take (pos + total) f)) = take 4 (drop pos f)"
          using fits by (simp add: drop_take total_def min_def)
        with old fits show ?thesis
          by (auto simp: index_inside_def total_def)
      qed
      moreover have "recover_loop (\<lambda>_. False) f (length f) (pos + total) (idx(off \<mapsto> pos)) (off + 1) = r"
        using step 1(2) by simp
      ultimately show ?thesis
        using 1(1) [OF _ r1 refl _ r2 refl] True fits
        by (auto simp: total_def off_def)
    qed
  qed
qed

lemma NewSegment_any:
  "\<exists>s d'. NewSegment good_open b d = (Inr s, d') \<and> fileOpen s
     \<and> CurrentSize s = length (dir_get d' (fileName b))
     \<and> (\<exists>n. dir_get d' (fileName b) = take n (dir_get d (fileName b)))
     \<and> index_inside (dir_get d' (fileName b)) (index s)"
proof -
  let ?f = "dir_get d (fileName b)"
  obtain p idx nxt where r: "recover_loop (\<lambda>_. False) ?f (length ?f) 0 Map.empty b = Inr (p, idx, nxt)"
    "p \<le> length ?f" "index_inside (take p ?f) idx"
    using recover_loop_inside [of ?f 0 Map.empty b, OF refl] by (auto simp: index_inside_def)
  show ?thesis
  proof (cases "?f = []")
    case True
    then show ?thesis
      by (simp add: NewSegment_def good_open_def Let_def dir_get_def update_conv' index_inside_def)
  next
    case False
    show ?thesis
    proof (cases "p < length ?f")
      case True
      with False r show ?thesis
        by (auto simp: NewSegment_def good_open_def Let_def dir_get_def update_conv' recoverIndex_def
            file_truncate_def)
    next
      case False
      with \<open>?f \<noteq> []\<close> r have "p = length ?f" by simp
      with \<open>?f \<noteq> []\<close> r show ?thesis
        by (auto simp: NewSegment_def good_open_def Let_def dir_get_def update_conv' recoverIndex_def
            intro: exI [of _ p])
    qed
  qed
qed

text \<open>Opening a segment over an arbitrary file, damaged or foreign, terminates without an
  error when the disk works: the file keeps a prefix of its bytes, the recorded size is the size of
  that prefix, and a read of any offset afterwards never runs past the end of the file. (It finds
  the record, reports the offset as unknown, or panics on a record too short for its header.)\<close>

theorem segment_open_any_file:
  "\<exists>s d'. NewSegment good_open b d = (Inr s, d') \<and> CurrentSize s = length (dir_get d' (fileName b))
     \<and> (\<exists>n. dir_get d' (fileName b) = take n (dir_get d (fileName b)))
     \<and> (\<forall>off. (\<exists>m. Read (\<lambda>_. False) off (dir_get d' (fileName b), s) = Inr m)
          \<or> Read (\<lambda>_. False) off (dir_get d' (fileName b), s) \<in> {Inl EOffsetNotInSegment, Inl EPanic})"
proof -
  obtain s d' n where r: "NewSegment good_open b d = (Inr s, d')" "fileOpen s"
    "CurrentSize s = length (dir_get d' (fileName b))"
    "dir_get d' (fileName b) = take n (dir_get d (fileName b))"
    "index_inside (dir_get d' (fileName b)) (index s)"
    using NewSegment_any [of b d] by blast
  have "(\<exists>m. Read (\<lambda>_. False) off (dir_get d' (fileName b), s) = Inr m)
          \<or> Read (\<lambda>_. False) off (dir_get d' (fileName b), s) \<in> {Inl EOffsetNotInSegment, Inl EPanic}" for off
  proof (cases "index s off")
    case None
    then show ?thesis by (simp add: Read_def)
  next
    case (Some pos)
    let ?f = "dir_get d' (fileName b)"
    have le: "pos + 4 + unat (Uint32 (take 4 (drop pos ?f))) \<le> length ?f"
      using r(5) Some unfolding index_inside_def by blast
    then have r1: "file_ReadAt (\<lambda>_. False) ?f pos 4 = Inr (take 4 (drop pos ?f))"
      by (simp add: file_ReadAt_def)
    have "\<exists>body. file_ReadAt (\<lambda>_. False) ?f (pos + 4) (unat (Uint32 (take 4 (drop pos ?f)))) = Inr body"
      using le by (simp add: file_ReadAt_def)
    with r1 Some r(2) show ?thesis by (auto simp: Read_def Let_def split: if_splits)
  qed
  with r show ?thesis by blast
qed

text \<open>Append and read. On a segment that represents a run of messages, appending a payload
  at the next offset succeeds, reports the 20 header bytes plus the payload, and from then on
  a read at every offset gives what it gave before, except that the new offset gives the new
  record with its timestamp and payload.\<close>

theorem segment_append_read:
  assumes "seg_rep (f, s) b ms" and "payload_ok p" and "unat b + length ms + 1 < 2 ^ 64"
  shows "fst (Append good_append (NextOffset s) ts p (f, s)) = Inr (20 + length p)
     \<and> seg_read (snd (Append good_append (NextOffset s) ts p (f, s)))
       = (seg_read (f, s))(NextOffset s \<mapsto> \<lparr>Offset = NextOffset s, Timestamp = ts, Payload = p\<rparr>)"
proof -
  let ?m = "\<lparr>Offset = NextOffset s, Timestamp = ts, Payload = p\<rparr>"
  have l: "log_from b (ms @ [?m])"
    using assms seg_repD [OF assms(1)] by (simp add: log_from_snoc)
  have "seg_append ?m (f, s) = snd (Append good_append (NextOffset s) ts p (f, s))"
    by (simp add: seg_append_def)
  with seg.read_after_append [OF assms(1) l] show ?thesis
    using assms(2) seg_repD(7) [OF assms(1)] by (simp add: Append_good)
qed

definition empty_segment :: "u64 \<Rightarrow> segment" where
  "empty_segment b = \<lparr>Path = fileName b, BaseOffset = b, NextOffset = b, index = Map.empty,
     CurrentSize = 0, fileOpen = True\<rparr>"

lemma empty_segment_rep: "seg_rep ([], empty_segment b) b []"
  by (simp add: seg_rep_def empty_segment_def)

theorem segment_append_read_witness:
  "seg_read (snd (Append good_append 7 99 [1, 2, 3] ([], empty_segment 7))) 7
     = Some \<lparr>Offset = 7, Timestamp = 99, Payload = [1, 2, 3]\<rparr>"
  using segment_append_read [OF empty_segment_rep [of 7], of "[1, 2, 3]" 99]
  by (simp add: payload_ok_def empty_segment_def)

text \<open>Truncation. On a segment that represents a run of messages, \<open>TruncateFrom\<close> at an
  offset of the run or just past its end succeeds and leaves the segment representing exactly the
  messages before that offset: file bytes, index, size and next offset agree.\<close>

theorem segment_truncate:
  assumes "seg_rep (f, s) b ms" and "i \<le> length ms"
  shows "fst (TruncateFrom good_trunc (b + of_nat i) (f, s)) = None
     \<and> seg_rep (snd (TruncateFrom good_trunc (b + of_nat i) (f, s))) b (take i ms)"
  using TruncateFrom_rep [OF assms] by blast

lemma two_records_rep:
  "seg_rep (log_image two_records, \<lparr>Path = fileName 5, BaseOffset = 5, NextOffset = 7,
     index = index_of 5 two_records, CurrentSize = 43, fileOpen = True\<rparr>) 5 two_records"
  using log_from_two_records by (simp add: seg_rep_def two_records_def log_image_Cons)

theorem segment_truncate_witness:
  "fst (TruncateFrom good_trunc (5 + of_nat 1) (log_image two_records, \<lparr>Path = fileName 5, BaseOffset = 5,
     NextOffset = 7, index = index_of 5 two_records, CurrentSize = 43, fileOpen = True\<rparr>)) = None"
  using segment_truncate [OF two_records_rep, of 1] by (simp add: two_records_def)

text \<open>C19. A failed fsync. When the write of a record succeeds but the fsync after it fails,
  \<open>Append\<close> reports an error and leaves the segment's size as it was, although the bytes are in the
  file. The next append at the same offset is acknowledged, yet its index entry points at the bytes
  of the failed record: reading the acknowledged offset returns the timestamp and payload of the
  append that was reported as failed.\<close>

theorem segment_fsync_failure_shadows_next_append:
  assumes "seg_rep (f, s) b ms" and "payload_ok p1" and "payload_ok p2"
    and "wr io = Wrote" and "\<not> syncOk io"
    and "Append io (NextOffset s) ts1 p1 (f, s) = (r1, st1)"
    and "Append good_append (NextOffset s) ts2 p2 st1 = (r2, st2)"
  shows "r1 = Inl EIO \<and> r2 = Inr (20 + length p2)
     \<and> Read (\<lambda>_. False) (NextOffset s) st2 = Inr \<lparr>Offset = NextOffset s, Timestamp = ts1, Payload = p1\<rparr>"
proof -
  let ?m1 = "\<lparr>Offset = NextOffset s, Timestamp = ts1, Payload = p1\<rparr>"
  let ?m2 = "\<lparr>Offset = NextOffset s, Timestamp = ts2, Payload = p2\<rparr>"
  note r = seg_repD [OF assms(1), simplified]
  have st1: "r1 = Inl EIO" "st1 = (f @ encode_record ?m1, s)"
    using assms(4-6) total_size_word [OF assms(2)] r(7)
    by (simp_all add: Append_def Let_def encode_record_def)
  have st2: "r2 = Inr (20 + length p2)" "fst st2 = f @ encode_record ?m1 @ encode_record ?m2"
    "index (snd st2) (NextOffset s) = Some (length f)" "fileOpen (snd st2)"
    using assms(7) st1(2) assms(3) r by (auto simp: Append_good)
  have "Read (\<lambda>_. False) (NextOffset s) (fst st2, snd st2) = Inr ?m1"
    by (rule Read_record [OF st2(3,4,2)]) (simp_all add: assms(2))
  with st1 st2 show ?thesis by (metis prod.collapse)
qed

theorem segment_fsync_failure_shadows_next_append_witness:
  "\<exists>r1 st1 r2 st2. Append \<lparr>wr = Wrote, repairOk = True, syncOk = False\<rparr> 7 1 [10] ([], empty_segment 7) = (r1, st1)
     \<and> Append good_append 7 2 [20] st1 = (r2, st2) \<and> r1 = Inl EIO \<and> r2 = Inr 21
     \<and> Read (\<lambda>_. False) 7 st2 = Inr \<lparr>Offset = 7, Timestamp = 1, Payload = [10]\<rparr>"
proof -
  let ?io = "\<lparr>wr = Wrote, repairOk = True, syncOk = False\<rparr>"
  obtain r1 st1 where a: "Append ?io 7 1 [10] ([], empty_segment 7) = (r1, st1)" by (metis prod.collapse)
  obtain r2 st2 where b: "Append good_append 7 2 [20] st1 = (r2, st2)" by (metis prod.collapse)
  have n: "NextOffset (empty_segment 7) = 7" by (simp add: empty_segment_def)
  show ?thesis
    using segment_fsync_failure_shadows_next_append [OF empty_segment_rep [of 7], of "[10]" "[20]" ?io 1 r1 st1 2 r2 st2]
      a b n by (cases st2) (auto simp: payload_ok_def)
qed

text \<open>A record whose size field is below 16 is indexed by recovery, and reading it panics.\<close>

lemma short_record_panics:
  "\<exists>s d'. NewSegment good_open 0 [(fileName 0, [0, 0, 0, 8, 0, 0, 0, 0, 0, 0, 0, 0])] = (Inr s, d')
     \<and> Read (\<lambda>_. False) 0 (dir_get d' (fileName 0), s) = Inl EPanic"
  by (simp add: NewSegment_def good_open_def Let_def dir_get_def recoverIndex_def recover_loop.simps
      file_ReadAt_def Uint32_def Uint64_def be_word_def Read_def)

end
