(* ===== verification/Partition.thy ===== *)
theory Partition
  imports Segment
begin

text \<open>
  One partition of a topic on one node: \<open>server/broker/partition_proccessor.go\<close>.

  The \<^theory_text>\<open>partition\<close> record has the struct's fields. A \<open>*aol.Segment\<close> is an index into
  \<open>segs\<close>, the segments this partition has opened, because \<open>closedSegments\<close> and \<open>activeSegment\<close>
  can hold the same pointer; \<open>files\<close> is the partition's directory on disk, which holds regular
  files only. \<open>pdone\<close> says that the Lifecycle's context is cancelled. Each method runs under the
  partition's mutex, so it is one function from the state before to the state after; a method
  that releases the mutex and takes it again receives the states it finds at each acquisition.
  The clock, the answers of the operating system and a request's cancellation are arguments.
\<close>

section \<open>Data\<close>

datatype SyncState = StateReplicating | StateInSync
datatype PartitionState = PartitionActive | PartitionStopping | PartitionDeleted
datatype PushOutcome = PushAccepted | PushRejectedNotInSync | PushRejectedGap

text \<open>The synchronisation states in the order a replica goes through them.\<close>

instantiation SyncState :: linorder
begin

definition less_eq_SyncState :: "SyncState \<Rightarrow> SyncState \<Rightarrow> bool" where
  "less_eq_SyncState a b \<longleftrightarrow> a = StateReplicating \<or> b = StateInSync"

definition less_SyncState :: "SyncState \<Rightarrow> SyncState \<Rightarrow> bool" where
  "less_SyncState a b \<longleftrightarrow> a = StateReplicating \<and> b = StateInSync"

instance
proof
  fix x y z :: SyncState
  show "x < y \<longleftrightarrow> x \<le> y \<and> \<not> y \<le> x"
    by (cases x; cases y) (simp_all add: less_eq_SyncState_def less_SyncState_def)
  show "x \<le> x" by (cases x) (simp_all add: less_eq_SyncState_def)
  show "x \<le> y \<Longrightarrow> y \<le> z \<Longrightarrow> x \<le> z"
    by (cases x; cases y; cases z) (simp_all add: less_eq_SyncState_def)
  show "x \<le> y \<Longrightarrow> y \<le> x \<Longrightarrow> x = y"
    by (cases x; cases y) (simp_all add: less_eq_SyncState_def)
  show "x \<le> y \<or> y \<le> x"
    by (cases x; cases y) (simp_all add: less_eq_SyncState_def)
qed

end

record replica =
  Id :: int
  BrokerID :: string
  InSync :: bool

record partition =
  id_p :: int
  topicName :: string
  segs :: "segment list"
  activeSegment :: "nat option"
  closedSegments :: "nat list"
  baseOffset :: u64
  nextOffset :: u64
  ttl :: int
  maxSegmentSize :: nat
  inSyncQuota :: int
  replicas :: "replica list"
  syncState :: SyncState
  state :: PartitionState
  pdone :: bool
  files :: dir

type_synonym faults = "string \<Rightarrow> nat \<Rightarrow> bool"  \<comment> \<open>positions of a file where the device fails\<close>

definition no_faults :: faults where "no_faults = (\<lambda>_ _. False)"

section \<open>Start-up: recovering the segments of the directory\<close>

text \<open>\<open>fmt.Sscanf(name, "%020d.log", &base)\<close>: blanks, at most 20 digits, then \<open>.log\<close>.\<close>

definition is_blank :: "char \<Rightarrow> bool" where
  "is_blank c \<longleftrightarrow> c = CHR '' '' \<or> c = CHR 0x09 \<or> c = CHR 0x0B \<or> c = CHR 0x0C \<or> c = CHR 0x0D"

definition scan_fileName :: "string \<Rightarrow> u64 option" where
  "scan_fileName name =
     (let s = dropWhile is_blank name;
          digits = takeWhile is_digit (take 20 s)
      in if digits = [] \<or> 2 ^ 64 \<le> dec_val digits then None
      else if take 4 (drop (length digits) s) = ''.log'' then Some (of_nat (dec_val digits))
      else None)"

definition has_log_suffix :: "string \<Rightarrow> bool" where
  "has_log_suffix name \<longleftrightarrow> drop (length name - 4) name = ''.log''"

text \<open>The loop over the sorted \<open>.log\<close> files: opens each and appends it to \<open>closedSegments\<close>.\<close>

fun open_segments :: "(u64 \<Rightarrow> open_io) \<Rightarrow> string list \<Rightarrow> partition \<Rightarrow> go_error option \<times> partition" where
  "open_segments io [] p = (None, p)"
| "open_segments io (name # names) p =
     (case scan_fileName name of
        None \<Rightarrow> open_segments io names p
      | Some base \<Rightarrow>
          (case NewSegment (io base) base (files p) of
             (Inl e, d) \<Rightarrow> (Some e, p\<lparr>files := d\<rparr>)
           | (Inr seg, d) \<Rightarrow> open_segments io names
               (p\<lparr>segs := segs p @ [seg], closedSegments := closedSegments p @ [length (segs p)],
                  files := d\<rparr>)))"

record recover_io =
  mkdirOk :: bool
  readDirOk :: bool
  segOpen :: "u64 \<Rightarrow> open_io"

definition recoverSegments :: "recover_io \<Rightarrow> partition \<Rightarrow> go_error option \<times> partition" where
  "recoverSegments io p =
     (if \<not> mkdirOk io \<or> \<not> readDirOk io then (Some EIO, p)
      else case open_segments (segOpen io) (sort (filter has_log_suffix (map fst (files p)))) p of
        (Some e, p1) \<Rightarrow> (Some e, p1)
      | (None, p1) \<Rightarrow>
          (case (if closedSegments p1 \<noteq> [] then
                   let a = last (closedSegments p1)
                   in (None, p1\<lparr>activeSegment := Some a, closedSegments := butlast (closedSegments p1),
                        nextOffset := NextOffset (segs p1 ! a)\<rparr>)
                 else case NewSegment (segOpen io (baseOffset p1)) (baseOffset p1) (files p1) of
                     (Inl e, d) \<Rightarrow> (Some e, p1\<lparr>files := d\<rparr>)
                   | (Inr seg, d) \<Rightarrow> (None, p1\<lparr>segs := segs p1 @ [seg],
                        activeSegment := Some (length (segs p1)), files := d,
                        nextOffset := baseOffset p1\<rparr>)) of
             (Some e, p2) \<Rightarrow> (Some e, p2)
           | (None, p2) \<Rightarrow>
               (None, p2\<lparr>baseOffset :=
                  (case closedSegments p2 of
                     c # _ \<Rightarrow> BaseOffset (segs p2 ! c)
                   | [] \<Rightarrow> (case activeSegment p2 of
                        Some a \<Rightarrow> BaseOffset (segs p2 ! a) | None \<Rightarrow> baseOffset p2))\<rparr>)))"

text \<open>The constructor; an error of the recovery is only logged. \<open>d\<close> is the directory it finds.\<close>

definition NewPartitionProcessor ::
  "recover_io \<Rightarrow> bool \<Rightarrow> int \<Rightarrow> string \<Rightarrow> u64 \<Rightarrow> int \<Rightarrow> replica list \<Rightarrow> dir \<Rightarrow> partition" where
  "NewPartitionProcessor io parentDone i topic offset ttl' r d =
     snd (recoverSegments io
       \<lparr>id_p = i, topicName = topic, segs = [], activeSegment = None, closedSegments = [],
        baseOffset = offset, nextOffset = offset, ttl = ttl', maxSegmentSize = 10 * 1024 * 1024,
        inSyncQuota = 0, replicas = r, syncState = StateReplicating, state = PartitionActive,
        pdone = parentDone, files = d\<rparr>)"

section \<open>Writing\<close>

record lock_io =
  rotateIO :: open_io
  writeIO :: append_io

definition good_io :: lock_io where
  "good_io = \<lparr>rotateIO = good_open, writeIO = good_append\<rparr>"

text \<open>Rotation: the active segment joins the closed ones before the new file is opened.\<close>

definition rotate :: "open_io \<Rightarrow> u64 \<Rightarrow> nat \<Rightarrow> partition \<Rightarrow> go_error option \<times> partition" where
  "rotate io offset a p =
     (let p1 = p\<lparr>closedSegments := closedSegments p @ [a]\<rparr>
      in case NewSegment io offset (files p1) of
        (Inl e, d) \<Rightarrow> (Some e, p1\<lparr>files := d\<rparr>)
      | (Inr newSeg, d) \<Rightarrow>
          (None, p1\<lparr>segs := segs p1 @ [newSeg], activeSegment := Some (length (segs p1)), files := d\<rparr>))"

definition append_active :: "append_io \<Rightarrow> u64 \<Rightarrow> i64 \<Rightarrow> bytes \<Rightarrow> nat \<Rightarrow> partition \<Rightarrow> go_error option \<times> partition" where
  "append_active io offset timestamp payload a p =
     (let s = segs p ! a
      in case Append io offset timestamp payload (dir_get (files p) (Path s), s) of
        (r, f', s') \<Rightarrow>
          let p' = p\<lparr>segs := (segs p)[a := s'], files := AList.update (Path s) f' (files p)\<rparr>
          in case r of
               Inl e \<Rightarrow> (Some e, p')
             | Inr n \<Rightarrow> (None, p'\<lparr>nextOffset := nextOffset p' + 1\<rparr>))"

definition appendLocked :: "lock_io \<Rightarrow> u64 \<Rightarrow> i64 \<Rightarrow> bytes \<Rightarrow> partition \<Rightarrow> go_error option \<times> partition" where
  "appendLocked io offset timestamp payload p =
     (case activeSegment p of
        None \<Rightarrow> (Some EPanic, p)
      | Some a \<Rightarrow>
          if maxSegmentSize p \<le> CurrentSize (segs p ! a) then
            (case rotate (rotateIO io) offset a p of
               (Some e, p') \<Rightarrow> (Some e, p')
             | (None, p') \<Rightarrow>
                 append_active (writeIO io) offset timestamp payload (the (activeSegment p')) p')
          else append_active (writeIO io) offset timestamp payload a p)"

definition PushQueue :: "lock_io \<Rightarrow> i64 \<Rightarrow> bytes \<Rightarrow> partition \<Rightarrow> u64 \<times> partition" where
  "PushQueue io timestamp m p =
     (let offset = nextOffset p in (offset, snd (appendLocked io offset timestamp m p)))"

definition AppendEntry ::
  "lock_io \<Rightarrow> u64 \<Rightarrow> i64 \<Rightarrow> bytes \<Rightarrow> partition \<Rightarrow> (u64 \<times> go_error option) \<times> partition" where
  "AppendEntry io offset timestamp payload p =
     (if state p \<noteq> PartitionActive then ((nextOffset p, Some EPartitionStopped), p)
      else if offset < nextOffset p then ((offset, None), p)
      else if offset \<noteq> nextOffset p then
        ((nextOffset p, Some (ENonContiguous offset (nextOffset p))), p)
      else case appendLocked io offset timestamp payload p of
        (Some e, p') \<Rightarrow> ((nextOffset p', Some e), p')
      | (None, p') \<Rightarrow> ((offset, None), p'))"

definition InvalidateOffset :: "trunc_io \<Rightarrow> u64 \<Rightarrow> partition \<Rightarrow> go_error option \<times> partition" where
  "InvalidateOffset io targetOffset p =
     (if state p \<noteq> PartitionActive then (Some EPartitionStopped, p)
      else if nextOffset p \<le> targetOffset then (None, p)
      else if nextOffset p \<noteq> targetOffset + 1 then
        (Some (EInvalidateNotLast (nextOffset p) targetOffset), p)
      else case activeSegment p of
        None \<Rightarrow> (Some ENoActiveSegment, p)
      | Some a \<Rightarrow>
          let s = segs p ! a
          in if targetOffset < BaseOffset s then (Some (EInClosedSegment targetOffset), p)
          else case TruncateFrom io targetOffset (dir_get (files p) (Path s), s) of
            (err, f', s') \<Rightarrow>
              let p' = p\<lparr>segs := (segs p)[a := s'], files := AList.update (Path s) f' (files p)\<rparr>
              in case err of
                   Some e \<Rightarrow> (Some e, p')
                 | None \<Rightarrow> (None, p'\<lparr>nextOffset := targetOffset\<rparr>))"

definition TryApplyPush ::
  "lock_io \<Rightarrow> u64 \<Rightarrow> i64 \<Rightarrow> bytes \<Rightarrow> partition \<Rightarrow> (PushOutcome \<times> u64) \<times> partition" where
  "TryApplyPush io targetOffset timestamp payload p =
     (if syncState p \<noteq> StateInSync then ((PushRejectedNotInSync, nextOffset p), p)
      else if targetOffset \<noteq> nextOffset p then ((PushRejectedGap, nextOffset p), p)
      else case appendLocked io targetOffset timestamp payload p of
        (Some e, p') \<Rightarrow> ((PushRejectedGap, nextOffset p'), p')
      | (None, p') \<Rightarrow> ((PushAccepted, targetOffset), p'))"

definition ForceInSync :: "partition \<Rightarrow> partition" where
  "ForceInSync p = p\<lparr>syncState := StateInSync\<rparr>"

definition TryFinalizeInSync :: "u64 \<Rightarrow> partition \<Rightarrow> bool \<times> partition" where
  "TryFinalizeInSync observedHW p =
     (if nextOffset p < observedHW then (False, p) else (True, p\<lparr>syncState := StateInSync\<rparr>))"

section \<open>Reading\<close>

definition findSegment :: "u64 \<Rightarrow> partition \<Rightarrow> nat option" where
  "findSegment offset p =
     (case List.find (\<lambda>i. BaseOffset (segs p ! i) \<le> offset \<and> offset < NextOffset (segs p ! i))
             (closedSegments p) of
        Some i \<Rightarrow> Some i
      | None \<Rightarrow>
          (case activeSegment p of
             None \<Rightarrow> None
           | Some a \<Rightarrow>
               if BaseOffset (segs p ! a) \<le> offset \<and> offset < NextOffset (segs p ! a) then Some a else None))"

definition seg_Read_at :: "faults \<Rightarrow> u64 \<Rightarrow> nat \<Rightarrow> partition \<Rightarrow> go_error + message" where
  "seg_Read_at fault offset i p =
     (let s = segs p ! i in Read (fault (Path s)) offset (dir_get (files p) (Path s), s))"

text \<open>The read loop of \<open>readFrom\<close>; every break keeps what was read so far.\<close>

function readFrom_loop ::
  "faults \<Rightarrow> int \<Rightarrow> bool \<Rightarrow> u64 \<Rightarrow> partition \<Rightarrow> u64 \<Rightarrow> message list \<Rightarrow> message list \<times> u64" where
  "readFrom_loop fault maxMessages isStream endOffset p currentOffset result =
     (if currentOffset < endOffset \<and> currentOffset < nextOffset p then
        if 0 < maxMessages \<and> maxMessages \<le> int (length result) \<and> \<not> isStream then (result, currentOffset)
        else case findSegment currentOffset p of
          None \<Rightarrow> (result, currentOffset)
        | Some i \<Rightarrow>
            (case seg_Read_at fault currentOffset i p of
               Inl e \<Rightarrow> (result, currentOffset)
             | Inr msg \<Rightarrow> readFrom_loop fault maxMessages isStream endOffset p (currentOffset + 1) (result @ [msg]))
      else (result, currentOffset))"
  by pat_completeness auto

lemma word_less_next_measure:
  "c < (n :: u64) \<Longrightarrow> unat n - unat (c + 1) < unat n - unat c"
proof -
  assume "c < n"
  then have "unat c < unat n" by (simp add: word_less_nat_alt)
  moreover from this have "unat (c + 1) = unat c + 1"
    using unsigned_less [of n, where ?'a = nat] by (intro unat_plus_one) simp
  ultimately show ?thesis by simp
qed

termination readFrom_loop
  by (relation "measure (\<lambda>(fault, maxMessages, isStream, endOffset, p, currentOffset, result).
        unat (nextOffset p) - unat currentOffset)") (auto intro: word_less_next_measure)

declare readFrom_loop.simps [simp del]

text \<open>
  \<open>readFrom\<close> takes the lock twice: \<open>p1\<close> is the state at the range check, \<open>p2\<close> at the read. A
  stream request also returns the offset from which the live stream starts.
\<close>

definition readFrom ::
  "faults \<Rightarrow> u64 \<Rightarrow> int \<Rightarrow> bool \<Rightarrow> partition \<Rightarrow> partition \<Rightarrow> go_error + message list \<times> u64 option" where
  "readFrom fault startOffset maxMessages isStream p1 p2 =
     (if startOffset < baseOffset p1 then Inl EDeletedOffset
      else
        let endOffset = (if isStream then nextOffset p1 else startOffset + of_int maxMessages);
            (result, currentOffset) = readFrom_loop fault maxMessages isStream endOffset p2 startOffset []
        in Inr (result, if isStream then Some currentOffset else None))"

text \<open>
  One turn of the stream goroutine of \<open>getStream\<close>, from the top of its loop. \<open>reqDone\<close> is
  \<open>ctx.Done()\<close> and \<open>pdone p\<close> is \<open>p.Done()\<close>. \<open>StreamWait\<close> is blocking in \<open>cond.Wait\<close>;
  \<open>StreamSleep\<close> is the pause before the next turn; \<open>StreamSkip\<close> restarts at the base offset.
\<close>

datatype stream_action = StreamClose | StreamWait | StreamSkip u64 | StreamSleep | StreamEmit message u64

definition stream_body :: "faults \<Rightarrow> partition \<Rightarrow> u64 \<Rightarrow> stream_action" where
  "stream_body fault p currentOffset =
     (case findSegment currentOffset p of
        Some i \<Rightarrow>
          (case seg_Read_at fault currentOffset i p of
             Inl e \<Rightarrow> StreamSleep
           | Inr msg \<Rightarrow> StreamEmit msg (currentOffset + 1))
      | None \<Rightarrow> if currentOffset < baseOffset p then StreamSkip (baseOffset p) else StreamSleep)"

definition stream_wait_loop :: "faults \<Rightarrow> bool \<Rightarrow> partition \<Rightarrow> u64 \<Rightarrow> stream_action" where
  "stream_wait_loop fault reqDone p currentOffset =
     (if nextOffset p \<le> currentOffset then (if reqDone then StreamClose else StreamWait)
      else stream_body fault p currentOffset)"

definition getStream_turn :: "faults \<Rightarrow> bool \<Rightarrow> partition \<Rightarrow> u64 \<Rightarrow> stream_action" where
  "getStream_turn fault reqDone p currentOffset =
     (if reqDone \<or> pdone p then StreamClose else stream_wait_loop fault reqDone p currentOffset)"

text \<open>A \<open>cond.Broadcast\<close> resumes a waiting goroutine inside its wait loop, not at the top.\<close>

definition getStream_wake :: "faults \<Rightarrow> bool \<Rightarrow> partition \<Rightarrow> u64 \<Rightarrow> stream_action" where
  "getStream_wake fault reqDone p currentOffset = stream_wait_loop fault reqDone p currentOffset"

definition GetLastOffset :: "partition \<Rightarrow> u64" where "GetLastOffset p = nextOffset p - 1"
definition GetStartOffset :: "partition \<Rightarrow> u64" where "GetStartOffset p = baseOffset p"
definition GetNextOffset :: "partition \<Rightarrow> u64" where "GetNextOffset p = nextOffset p"
definition GetReplicationFactor :: "partition \<Rightarrow> int" where "GetReplicationFactor p = inSyncQuota p"
definition GetSyncState :: "partition \<Rightarrow> SyncState" where "GetSyncState p = syncState p"
definition GetReplicas :: "partition \<Rightarrow> replica list" where "GetReplicas p = replicas p"

function ReadBatch_loop ::
  "faults \<Rightarrow> int \<Rightarrow> partition \<Rightarrow> u64 \<Rightarrow> message list \<Rightarrow> message list \<times> go_error option" where
  "ReadBatch_loop fault maxMessages p current result =
     (if current < nextOffset p \<and> int (length result) < maxMessages then
        case findSegment current p of
          None \<Rightarrow> (result, None)
        | Some i \<Rightarrow>
            (case seg_Read_at fault current i p of
               Inl e \<Rightarrow> (result, Some e)
             | Inr msg \<Rightarrow> ReadBatch_loop fault maxMessages p (current + 1) (result @ [msg]))
      else (result, None))"
  by pat_completeness auto

termination ReadBatch_loop
  by (relation "measure (\<lambda>(fault, maxMessages, p, current, result). unat (nextOffset p) - unat current)")
    (auto intro: word_less_next_measure)

declare ReadBatch_loop.simps [simp del]

definition ReadBatch ::
  "faults \<Rightarrow> u64 \<Rightarrow> int \<Rightarrow> partition \<Rightarrow> message list \<times> u64 \<times> go_error option" where
  "ReadBatch fault fromOffset maxMessages p =
     (let n = (if maxMessages \<le> 0 then 500 else maxMessages);
          (result, err) = ReadBatch_loop fault n p fromOffset []
      in (result, nextOffset p, err))"

section \<open>Replicas\<close>

definition SetReplicas :: "replica list \<Rightarrow> partition \<Rightarrow> partition" where
  "SetReplicas rs p = p\<lparr>replicas := rs\<rparr>"

definition AddReplica :: "replica \<Rightarrow> partition \<Rightarrow> bool \<times> partition" where
  "AddReplica r p =
     (if \<exists>x \<in> set (replicas p). Id x = Id r then (False, p)
      else (True, p\<lparr>replicas := replicas p @ [r]\<rparr>))"

fun set_first_inSync :: "int \<Rightarrow> bool \<Rightarrow> replica list \<Rightarrow> replica list" where
  "set_first_inSync replicaID inSync [] = []"
| "set_first_inSync replicaID inSync (r # rs) =
     (if Id r = replicaID then r\<lparr>InSync := inSync\<rparr> # rs
      else r # set_first_inSync replicaID inSync rs)"

definition SetReplicaInSync :: "int \<Rightarrow> bool \<Rightarrow> partition \<Rightarrow> partition" where
  "SetReplicaInSync replicaID inSync p = p\<lparr>replicas := set_first_inSync replicaID inSync (replicas p)\<rparr>"

section \<open>Retention and shutdown\<close>

record clean_io =
  statTime :: "string \<Rightarrow> int option"  \<comment> \<open>modification time, or the stat fails\<close>
  removeOk :: "string \<Rightarrow> bool"

fun clean_loop :: "clean_io \<Rightarrow> int \<Rightarrow> nat list \<Rightarrow> partition \<Rightarrow> nat list \<Rightarrow> partition \<times> nat list" where
  "clean_loop io cutoffTime [] p remaining = (p, remaining)"
| "clean_loop io cutoffTime (i # is) p remaining =
     (let s = segs p ! i
      in case (if fileOpen s then statTime io (Path s) else None) of
        None \<Rightarrow> clean_loop io cutoffTime is p (remaining @ [i])
      | Some t \<Rightarrow>
          if t < cutoffTime then
            let p' = p\<lparr>segs := (segs p)[i := seg_Close s]\<rparr>
            in if \<not> removeOk io (Path s) \<or> map_of (files p) (Path s) = None
               then clean_loop io cutoffTime is p' (remaining @ [i])
               else clean_loop io cutoffTime is (p'\<lparr>files := AList.delete (Path s) (files p')\<rparr>) remaining
          else clean_loop io cutoffTime is p (remaining @ [i]))"

definition CleanOldMessages :: "clean_io \<Rightarrow> int \<Rightarrow> int \<Rightarrow> partition \<Rightarrow> go_error option \<times> partition" where
  "CleanOldMessages io now ttl' p =
     (let cutoffTime = now - ttl';
          (p1, remainingClosed) = clean_loop io cutoffTime (closedSegments p) p [];
          p2 = p1\<lparr>closedSegments := remainingClosed\<rparr>
      in case remainingClosed of
           c # _ \<Rightarrow> (None, p2\<lparr>baseOffset := BaseOffset (segs p2 ! c)\<rparr>)
         | [] \<Rightarrow> (case activeSegment p2 of
               None \<Rightarrow> (Some EPanic, p2)
             | Some a \<Rightarrow> (None, p2\<lparr>baseOffset := BaseOffset (segs p2 ! a)\<rparr>)))"

definition CloseAllSegments :: "partition \<Rightarrow> go_error option \<times> partition" where
  "CloseAllSegments p =
     (case activeSegment p of
        None \<Rightarrow> (Some EPanic, p)
      | Some a \<Rightarrow>
          (None, p\<lparr>segs := fold (\<lambda>i ss. ss[i := seg_Close (ss ! i)]) (closedSegments p)
                     ((segs p)[a := seg_Close (segs p ! a)])\<rparr>))"

text \<open>The deferred assignment marks the partition deleted on every return, a panic included.\<close>

definition StopAndRemove :: "bool \<Rightarrow> bool \<Rightarrow> partition \<Rightarrow> go_error option \<times> partition" where
  "StopAndRemove removeAllOk force p =
     (case CloseAllSegments (p\<lparr>pdone := True\<rparr>) of
        (Some e, p1) \<Rightarrow> (Some e, p1\<lparr>state := PartitionDeleted\<rparr>)
      | (None, p1) \<Rightarrow>
          if force then
            if \<not> removeAllOk then (Some EIO, p1\<lparr>state := PartitionDeleted\<rparr>)
            else (None, p1\<lparr>files := [], state := PartitionDeleted\<rparr>)
          else (None, p1\<lparr>state := PartitionDeleted\<rparr>))"

end
