(* ===== verification/PartitionLog.thy ===== *)
theory PartitionLog
  imports Partition
begin

text \<open>
  What a partition promises: its open segments, taken in order, are one log with consecutive
  offsets. This theory states that abstraction (\<open>part_rep\<close>), shows that every operation of
  \<open>partition_proccessor.go\<close> implements the corresponding operation on the log, that a restart
  rebuilds it from the directory, and that the partition provides the \<open>append_log\<close> interface its
  clients (replication, catch-up) use.
\<close>

section \<open>File names of segments\<close>

lemma unat_digits: "unat (b :: u64) < 10 ^ 20"
  using unsigned_less [of b, where ?'a = nat] by simp

definition name_digits :: "u64 \<Rightarrow> string" where
  "name_digits b = pad0 20 (dec (unat b))"

lemma name_digits:
  "length (name_digits b) = 20" "\<forall>c \<in> set (name_digits b). is_digit c" "dec_val (name_digits b) = unat b"
  using length_dec [OF unat_digits, of b] pad0_digits [OF dec_digits, of 20 "unat b"]
  by (simp_all add: name_digits_def length_pad0)

lemma fileName_digits: "fileName b = name_digits b @ ''.log''"
  by (simp add: fileName_def name_digits_def)

lemma fileName_inject [simp]: "fileName b = fileName c \<longleftrightarrow> b = c"
  by (metis append_same_eq fileName_digits name_digits(3) word_unat_eq_iff)

lemma append_same_less: "length s = length t \<Longrightarrow> s @ u < t @ u \<longleftrightarrow> s < (t :: string)"
  by (induction s t rule: list_induct2) auto

lemma fileName_less: "fileName b < fileName c \<longleftrightarrow> b < c"
  by (simp add: fileName_digits append_same_less name_digits digits_order word_less_nat_alt)

lemma has_log_suffix_fileName [simp]: "has_log_suffix (fileName b)"
  by (simp add: has_log_suffix_def fileName_digits name_digits)

lemma scan_fileName [simp]: "scan_fileName (fileName b) = Some b"
proof -
  note d = name_digits [of b]
  obtain c cs where c: "name_digits b = c # cs" using d(1) by (cases "name_digits b") auto
  then have "\<not> is_blank c" using d(2) by (auto simp: is_blank_def is_digit_def)
  then have dw: "dropWhile is_blank (fileName b) = fileName b" by (simp add: fileName_digits c)
  have tk: "take 20 (fileName b) = name_digits b" by (simp add: fileName_digits d(1))
  have tw: "takeWhile is_digit (name_digits b) = name_digits b"
    using d(2) by (simp add: takeWhile_eq_all_conv)
  have dr: "drop (length (name_digits b)) (fileName b) = ''.log''" by (simp add: fileName_digits)
  have ne: "name_digits b \<noteq> []" by (simp add: c)
  show ?thesis
    using unsigned_less [of b, where ?'a = nat] ne
    by (simp add: scan_fileName_def dw tk tw dr d(3) Let_def del: length_greater_0_conv)
qed

section \<open>A chain of segments\<close>

abbreviation msgs :: "(nat \<times> message list) list \<Rightarrow> message list" where
  "msgs xs \<equiv> concat (map snd xs)"

definition seg_holds :: "segment list \<Rightarrow> dir \<Rightarrow> u64 \<Rightarrow> nat \<Rightarrow> message list \<Rightarrow> bool" where
  "seg_holds ss d b i ms \<longleftrightarrow> i < length ss \<and> Path (ss ! i) = fileName b
     \<and> seg_rep (dir_get d (fileName b), ss ! i) b ms"

fun chain :: "segment list \<Rightarrow> dir \<Rightarrow> u64 \<Rightarrow> (nat \<times> message list) list \<Rightarrow> bool" where
  "chain ss d b [] \<longleftrightarrow> True"
| "chain ss d b ((i, ms) # xs) \<longleftrightarrow> seg_holds ss d b i ms \<and> chain ss d (b + of_nat (length ms)) xs"

fun bases :: "u64 \<Rightarrow> (nat \<times> message list) list \<Rightarrow> u64 list" where
  "bases b [] = []"
| "bases b ((i, ms) # xs) = b # bases (b + of_nat (length ms)) xs"

lemma seg_holdsD:
  assumes "seg_holds ss d b i ms"
  shows "i < length ss" "Path (ss ! i) = fileName b" "seg_rep (dir_get d (fileName b), ss ! i) b ms"
    "BaseOffset (ss ! i) = b" "NextOffset (ss ! i) = b + of_nat (length ms)" "log_from b ms"
    "CurrentSize (ss ! i) = length (log_image ms)" "fileOpen (ss ! i)"
  using assms by (simp_all add: seg_holds_def seg_rep_def)

lemma chain_append:
  "chain ss d b (xs @ ys) \<longleftrightarrow> chain ss d b xs \<and> chain ss d (b + of_nat (length (msgs xs))) ys"
  by (induction xs arbitrary: b) (auto simp: add.assoc)

lemma bases_append: "bases b (xs @ ys) = bases b xs @ bases (b + of_nat (length (msgs xs))) ys"
  by (induction xs arbitrary: b) (auto simp: add.assoc)

lemma length_bases [simp]: "length (bases b xs) = length xs"
  by (induction xs arbitrary: b) auto

lemma chain_indices: "chain ss d b xs \<Longrightarrow> i \<in> fst ` set xs \<Longrightarrow> i < length ss"
  by (induction xs arbitrary: b) (auto dest: seg_holdsD(1), force)

text \<open>The bases of non-empty segments are in order and below the end of the chain.\<close>

lemma bases_range:
  "unat b + length (msgs xs) < 2 ^ 64 \<Longrightarrow> \<forall>x \<in> set xs. snd x \<noteq> [] \<Longrightarrow> c \<in> set (bases b xs) \<Longrightarrow>
   unat b \<le> unat c \<and> unat c < unat b + length (msgs xs)"
proof (induction xs arbitrary: b)
  case (Cons x xs)
  obtain i ms where x: "x = (i, ms)" by (cases x)
  have "unat (b + of_nat (length ms)) = unat b + length ms"
    using Cons.prems(1) x by (intro unat_add_of_nat) simp
  with Cons.prems Cons.IH [of "b + of_nat (length ms)"] x show ?case by auto
qed simp

lemma bases_sorted:
  "unat b + length (msgs xs) < 2 ^ 64 \<Longrightarrow> \<forall>x \<in> set (butlast xs). snd x \<noteq> [] \<Longrightarrow> sorted_wrt (<) (bases b xs)"
proof (induction xs arbitrary: b)
  case (Cons x xs)
  obtain i ms where x: "x = (i, ms)" by (cases x)
  show ?case
  proof (cases "xs = []")
    case False
    have n: "unat (b + of_nat (length ms)) = unat b + length ms"
      using Cons.prems(1) x by (intro unat_add_of_nat) simp
    have ms: "ms \<noteq> []" using Cons.prems(2) x False by simp
    have ge: "unat b + length ms \<le> unat c" if "c \<in> set (bases (b + of_nat (length ms)) xs)" for c
    proof -
      obtain ys y where ys: "xs = ys @ [y]" using False by (metis append_butlast_last_id)
      have "\<forall>x \<in> set ys. snd x \<noteq> []" using Cons.prems(2) ys by (simp add: butlast_append)
      moreover have len: "unat (b + of_nat (length ms)) + length (msgs ys) < 2 ^ 64"
        using Cons.prems(1) x ys n by simp
      moreover have "unat (b + of_nat (length ms) + of_nat (length (msgs ys)))
          = unat (b + of_nat (length ms)) + length (msgs ys)"
        by (rule unat_add_of_nat [OF len])
      ultimately show ?thesis
        using that ys n bases_range [of "b + of_nat (length ms)" ys c]
        by (cases y) (auto simp: bases_append)
    qed
    have "b < c" if "c \<in> set (bases (b + of_nat (length ms)) xs)" for c
      using ge [OF that] ms by (cases ms) (auto simp: word_less_nat_alt)
    moreover have "sorted_wrt (<) (bases (b + of_nat (length ms)) xs)"
      using Cons.IH [of "b + of_nat (length ms)"] Cons.prems x n False by simp
    ultimately show ?thesis using x by simp
  qed (simp add: x)
qed simp

text \<open>A chain depends only on its own segments and files.\<close>

lemma chain_frame:
  assumes "chain ss d b xs"
    and "\<And>i. i \<in> fst ` set xs \<Longrightarrow> i < length ss' \<and> ss' ! i = ss ! i"
    and "\<And>c. c \<in> set (bases b xs) \<Longrightarrow> dir_get d' (fileName c) = dir_get d (fileName c)"
  shows "chain ss' d' b xs"
  using assms by (induction xs arbitrary: b) (auto simp: seg_holds_def)

subsection \<open>Finding the segment of an offset\<close>

lemma log_at_append:
  assumes "log_from b (ms @ ns)"
  shows "log_at b (ms @ ns) off =
    (if unat off < unat b + length ms then log_at b ms off else log_at (b + of_nat (length ms)) ns off)"
proof -
  have "unat (b + of_nat (length ms)) = unat b + length ms"
    using log_from_bound [OF assms] by (intro unat_add_of_nat) simp
  then show ?thesis by (auto simp: log_at_def nth_append)
qed

abbreviation seg_covers :: "segment list \<Rightarrow> u64 \<Rightarrow> nat \<Rightarrow> bool" where
  "seg_covers ss off i \<equiv> BaseOffset (ss ! i) \<le> off \<and> off < NextOffset (ss ! i)"

lemma seg_covers_iff:
  assumes "seg_holds ss d b i ms"
  shows "seg_covers ss off i \<longleftrightarrow> log_at b ms off \<noteq> None"
  using log_from_next_unat [OF seg_holdsD(6) [OF assms]] seg_holdsD(4,5) [OF assms]
  by (auto simp: log_at_def word_le_nat_alt word_less_nat_alt)

lemma chain_find:
  assumes "chain ss d b xs" and "log_from b (msgs xs)"
  shows "case List.find (seg_covers ss off) (map fst xs) of
      None \<Rightarrow> log_at b (msgs xs) off = None
    | Some i \<Rightarrow> \<exists>c ms. seg_holds ss d c i ms \<and> log_at c ms off \<noteq> None \<and> log_at b (msgs xs) off = log_at c ms off"
  using assms
proof (induction xs arbitrary: b)
  case Nil
  then show ?case by (simp add: log_at_def)
next
  case (Cons x xs)
  obtain i ms where x: "x = (i, ms)" by (cases x)
  have h: "seg_holds ss d b i ms" and c: "chain ss d (b + of_nat (length ms)) xs"
    using Cons.prems(1) x by auto
  have l: "log_from b (ms @ msgs xs)" using Cons.prems(2) x by simp
  then have l2: "log_from (b + of_nat (length ms)) (msgs xs)" by (simp add: log_from_append)
  show ?case
  proof (cases "seg_covers ss off i")
    case True
    then have s: "log_at b ms off \<noteq> None" using seg_covers_iff [OF h] by simp
    then have "unat off < unat b + length ms" by (auto simp: log_at_def split: if_splits)
    then have "log_at b (msgs (x # xs)) off = log_at b ms off"
      using log_at_append [OF l, of off] x by simp
    with True s h x show ?thesis by (auto simp del: concat.simps)
  next
    case False
    then have s: "log_at b ms off = None" using seg_covers_iff [OF h] by simp
    have tl: "log_at (b + of_nat (length ms)) (msgs xs) off = None" if "unat off < unat b + length ms"
      using that log_from_next_unat [OF seg_holdsD(6) [OF h]] by (simp add: log_at_def)
    have "log_at b (msgs (x # xs)) off = log_at (b + of_nat (length ms)) (msgs xs) off"
      using log_at_append [OF l, of off] s tl x by auto
    moreover have "List.find (seg_covers ss off) (map fst (x # xs)) = List.find (seg_covers ss off) (map fst xs)"
      using False x by auto
    ultimately show ?thesis using Cons.IH [OF c l2] by (simp only: )
  qed
qed

section \<open>A partition represents a log\<close>

definition log_names :: "dir \<Rightarrow> string set" where
  "log_names d = {n. n \<in> fst ` set d \<and> has_log_suffix n}"

definition part_chain :: "partition \<Rightarrow> u64 \<Rightarrow> (nat \<times> message list) list \<Rightarrow> nat \<Rightarrow> message list \<Rightarrow> bool" where
  "part_chain p b xs a ams \<longleftrightarrow>
     activeSegment p = Some a \<and> closedSegments p = map fst xs \<and> distinct (map fst xs @ [a])
     \<and> chain (segs p) (files p) b (xs @ [(a, ams)]) \<and> (\<forall>x \<in> set xs. snd x \<noteq> [])
     \<and> distinct (map fst (files p)) \<and> log_names (files p) = fileName ` set (bases b (xs @ [(a, ams)]))"

definition part_ok :: "partition \<Rightarrow> u64 \<Rightarrow> message list \<Rightarrow> bool" where
  "part_ok p b ms \<longleftrightarrow> log_from b ms \<and> baseOffset p = b \<and> nextOffset p = b + of_nat (length ms)
     \<and> 0 < maxSegmentSize p \<and> state p = PartitionActive"

definition part_rep :: "partition \<Rightarrow> u64 \<Rightarrow> message list \<Rightarrow> bool" where
  "part_rep p b ms \<longleftrightarrow> part_ok p b ms \<and> (\<exists>xs a ams. part_chain p b xs a ams \<and> ms = msgs xs @ ams)"

lemma part_okD:
  assumes "part_ok p b ms"
  shows "log_from b ms" "baseOffset p = b" "nextOffset p = b + of_nat (length ms)"
    "0 < maxSegmentSize p" "state p = PartitionActive"
  using assms by (simp_all add: part_ok_def)

lemma part_chainD:
  assumes "part_chain p b xs a ams"
  shows "activeSegment p = Some a" "closedSegments p = map fst xs" "distinct (map fst xs @ [a])"
    "chain (segs p) (files p) b xs" "seg_holds (segs p) (files p) (b + of_nat (length (msgs xs))) a ams"
    "\<forall>x \<in> set xs. snd x \<noteq> []" "distinct (map fst (files p))"
    "log_names (files p) = fileName ` set (bases b (xs @ [(a, ams)]))"
    "chain (segs p) (files p) b (xs @ [(a, ams)])"
  using assms by (simp_all add: part_chain_def chain_append)

lemma part_repE:
  assumes "part_rep p b ms"
  obtains xs a ams where "part_ok p b (msgs xs @ ams)" "part_chain p b xs a ams" "ms = msgs xs @ ams"
  using assms by (auto simp: part_rep_def)

lemma part_rep_okD: "part_rep p b ms \<Longrightarrow> part_ok p b ms"
  by (simp add: part_rep_def)

lemma part_repI: "part_ok p b (msgs xs @ ams) \<Longrightarrow> part_chain p b xs a ams \<Longrightarrow> part_rep p b (msgs xs @ ams)"
  by (auto simp: part_rep_def)

lemma part_chain_end:
  "part_chain p b xs a ams \<Longrightarrow> log_from b (msgs xs @ ams) \<Longrightarrow>
   unat (b + of_nat (length (msgs xs))) = unat b + length (msgs xs)"
  by (rule unat_add_of_nat) (use log_from_bound [of b "msgs xs @ ams"] in simp)

lemma bases_part_sorted:
  assumes "part_chain p b xs a ams" and "log_from b (msgs xs @ ams)"
  shows "sorted_wrt (<) (bases b (xs @ [(a, ams)]))"
  using bases_sorted [of b "xs @ [(a, ams)]"] part_chainD(6) [OF assms(1)] log_from_bound [OF assms(2)]
  by simp

lemma active_base_fresh:
  assumes "part_chain p b xs a ams" and "log_from b (msgs xs @ ams)" and "c \<in> set (bases b xs)"
  shows "c < b + of_nat (length (msgs xs))"
  using bases_part_sorted [OF assms(1,2)] assms(3)
  by (simp add: bases_append sorted_wrt_append)

section \<open>Reading\<close>

definition part_read :: "partition \<Rightarrow> u64 \<Rightarrow> message option" where
  "part_read p off =
     (case findSegment off p of None \<Rightarrow> None
      | Some i \<Rightarrow> (case seg_Read_at no_faults off i p of Inl e \<Rightarrow> None | Inr m \<Rightarrow> Some m))"

lemma find_snoc: "List.find P (xs @ [x]) = (case List.find P xs of Some y \<Rightarrow> Some y | None \<Rightarrow> if P x then Some x else None)"
  by (induction xs) auto

lemma findSegment_chain:
  "part_chain p b xs a ams \<Longrightarrow>
   findSegment off p = List.find (seg_covers (segs p) off) (map fst (xs @ [(a, ams)]))"
  unfolding map_append list.map fst_conv find_snoc
  by (simp add: findSegment_def part_chain_def split: option.splits)

lemma seg_Read_at_holds:
  assumes "seg_holds (segs p) (files p) c i ms" and "log_at c ms off = Some m"
  shows "seg_Read_at no_faults off i p = Inr m"
proof -
  obtain k where k: "k < length ms" "off = c + of_nat k" "m = ms ! k"
    using log_at_Some [OF assms(2)] by blast
  then show ?thesis
    using Read_nth [OF seg_holdsD(3) [OF assms(1)] k(1)] seg_holdsD(2) [OF assms(1)]
    by (simp add: seg_Read_at_def Let_def no_faults_def)
qed

lemma part_lookup:
  assumes "part_rep p b ms"
  shows "case log_at b ms off of
      None \<Rightarrow> findSegment off p = None
    | Some m \<Rightarrow> \<exists>i. findSegment off p = Some i \<and> seg_Read_at no_faults off i p = Inr m"
proof -
  obtain xs a ams where r: "part_ok p b (msgs xs @ ams)" "part_chain p b xs a ams" "ms = msgs xs @ ams"
    using part_repE [OF assms] .
  have l: "log_from b (msgs (xs @ [(a, ams)]))" using part_okD(1) [OF r(1)] by simp
  have c: "chain (segs p) (files p) b (xs @ [(a, ams)])" using part_chainD(9) [OF r(2)] .
  have ms: "msgs (xs @ [(a, ams)]) = ms" using r(3) by simp
  show ?thesis
    using chain_find [OF c l, of off] seg_Read_at_holds [of p _ _ _ off]
    unfolding findSegment_chain [OF r(2), of off, symmetric] ms
    by (fastforce split: option.splits)
qed

lemma part_read_log_at: "part_rep p b ms \<Longrightarrow> part_read p off = log_at b ms off"
  using part_lookup [of p b ms off] by (auto simp: part_read_def split: option.splits)

lemma batch_step:
  assumes "part_rep p b ms" "k < length ms"
  shows "\<exists>i. findSegment (b + of_nat k) p = Some i \<and> seg_Read_at no_faults (b + of_nat k) i p = Inr (ms ! k)"
  using part_lookup [OF assms(1), of "b + of_nat k"]
    log_at_nth [OF part_okD(1) [OF part_rep_okD [OF assms(1)]] assms(2)] by simp

lemma batch_cond:
  assumes "part_rep p b ms" "k \<le> length ms"
  shows "b + of_nat k < nextOffset p \<longleftrightarrow> k < length ms"
proof -
  note ok = part_okD [OF part_rep_okD [OF assms(1)]]
  have "unat (b + of_nat k) = unat b + k" "unat (nextOffset p) = unat b + length ms"
    using unat_offset_less [OF log_from_bound [OF ok(1)] assms(2)] log_from_next_unat [OF ok(1)] ok(3) by simp_all
  then show ?thesis by (simp add: word_less_nat_alt)
qed

lemma ReadBatch_loop_rep:
  assumes "part_rep p b ms" "k \<le> length ms" "int (length acc) \<le> n"
  shows "ReadBatch_loop no_faults n p (b + of_nat k) acc = (acc @ take (nat n - length acc) (drop k ms), None)"
  using assms
proof (induction "length ms - k" arbitrary: k acc)
  case 0
  then have "k = length ms" by simp
  with 0 show ?case by (subst ReadBatch_loop.simps) (simp add: batch_cond)
next
  case (Suc d)
  then have kl: "k < length ms" by simp
  obtain i where i: "findSegment (b + of_nat k) p = Some i" "seg_Read_at no_faults (b + of_nat k) i p = Inr (ms ! k)"
    using batch_step [OF Suc.prems(1) kl] by blast
  have c: "b + of_nat k < nextOffset p" using batch_cond [OF Suc.prems(1)] kl by simp
  show ?case
  proof (cases "int (length acc) < n")
    case False
    with Suc.prems show ?thesis by (subst ReadBatch_loop.simps) simp
  next
    case True
    have "ReadBatch_loop no_faults n p (b + of_nat k) acc
        = ReadBatch_loop no_faults n p (b + of_nat (Suc k)) (acc @ [ms ! k])"
      using c True i by (subst ReadBatch_loop.simps) (simp add: add.commute add.left_commute)
    also have "\<dots> = ((acc @ [ms ! k]) @ take (nat n - length (acc @ [ms ! k])) (drop (Suc k) ms), None)"
      using Suc.hyps(2) Suc.prems True kl by (intro Suc.hyps(1)) auto
    also have "(acc @ [ms ! k]) @ take (nat n - length (acc @ [ms ! k])) (drop (Suc k) ms)
        = acc @ take (nat n - length acc) (drop k ms)"
    proof -
      obtain j where j: "nat n - length acc = Suc j" using True by (cases "nat n - length acc") auto
      then have "nat n - length (acc @ [ms ! k]) = j" by simp
      moreover have "drop k ms = ms ! k # drop (Suc k) ms" using kl by (simp add: Cons_nth_drop_Suc)
      ultimately show ?thesis using j by simp
    qed
    finally show ?thesis .
  qed
qed

section \<open>Appending\<close>

lemma dir_get_update [simp]: "dir_get (AList.update n f d) k = (if k = n then f else dir_get d k)"
  by (simp add: dir_get_def update_conv')

lemma log_names_update [simp]:
  "log_names (AList.update n f d) = log_names d \<union> {k. k = n \<and> has_log_suffix n}"
  by (auto simp: log_names_def dom_update)

lemma part_chain_replace:
  assumes "part_chain p b xs a ams" and "log_from b (msgs xs @ ams)"
    and "seg_rep (f', s') (b + of_nat (length (msgs xs))) ams'" and "Path s' = fileName (b + of_nat (length (msgs xs)))"
    and "segs p' = (segs p)[a := s']" and "files p' = AList.update (Path s') f' (files p)"
    and "activeSegment p' = activeSegment p" and "closedSegments p' = closedSegments p"
  shows "part_chain p' b xs a ams'"
proof -
  note r = part_chainD [OF assms(1)]
  have "chain (segs p') (files p') b xs"
  proof (rule chain_frame [OF r(4)])
    fix i assume i: "i \<in> fst ` set xs"
    then have "i \<noteq> a" using r(3) by auto
    with i show "i < length (segs p') \<and> segs p' ! i = segs p ! i"
      using chain_indices [OF r(4)] assms(5) by auto
  next
    fix c assume "c \<in> set (bases b xs)"
    then have "c \<noteq> b + of_nat (length (msgs xs))"
      using active_base_fresh [OF assms(1,2)] by blast
    then show "dir_get (files p') (fileName c) = dir_get (files p) (fileName c)"
      by (simp add: assms(4,6))
  qed
  moreover have "seg_holds (segs p') (files p') (b + of_nat (length (msgs xs))) a ams'"
    using assms(3-6) seg_holdsD(1) [OF r(5)] by (simp add: seg_holds_def)
  ultimately show ?thesis
    using r assms(4-8) by (auto simp: part_chain_def chain_append bases_append distinct_update)
qed

lemma append_active_rep:
  assumes "part_ok p b (msgs xs @ ams)" and "part_chain p b xs a ams"
    and "log_from b (msgs xs @ ams @ [m])"
  shows "\<exists>p'. append_active good_append (Offset m) (Timestamp m) (Payload m) a p = (None, p')
     \<and> part_ok p' b (msgs xs @ ams @ [m]) \<and> part_chain p' b xs a (ams @ [m])
     \<and> p' = p\<lparr>segs := segs p', files := files p', nextOffset := nextOffset p + 1\<rparr>"
proof -
  note ok = part_okD [OF assms(1)] and r = part_chainD [OF assms(2)]
  let ?e = "b + of_nat (length (msgs xs))"
  note h = seg_holdsD [OF r(5)]
  have le: "log_from ?e (ams @ [m])" using assms(3) by (simp add: log_from_append)
  then have m: "payload_ok (Payload m)" by (simp add: log_from_snoc)
  obtain f' s' where ap: "Append good_append (Offset m) (Timestamp m) (Payload m)
      (dir_get (files p) (fileName ?e), segs p ! a) = (Inr (20 + length (Payload m)), f', s')"
    "Path s' = fileName ?e"
    using Append_good [OF m h(8)] h(2) by simp
  have rep': "seg_rep (f', s') ?e (ams @ [m])"
    using Append_rep [OF h(3) le] ap(1) by simp
  define p' where "p' = p\<lparr>segs := (segs p)[a := s'], files := AList.update (fileName ?e) f' (files p),
      nextOffset := nextOffset p + 1\<rparr>"
  have "part_chain p' b xs a (ams @ [m])"
    by (rule part_chain_replace [OF assms(2) ok(1) rep' ap(2)]) (simp_all add: p'_def ap(2))
  moreover have "append_active good_append (Offset m) (Timestamp m) (Payload m) a p = (None, p')"
    by (simp add: append_active_def Let_def h(2) ap p'_def)
  moreover have "part_ok p' b (msgs xs @ ams @ [m])"
    using ok assms(3) by (simp add: part_ok_def p'_def algebra_simps)
  ultimately show ?thesis by (auto simp: p'_def)
qed

lemma NewSegment_fresh:
  "fileName c \<notin> log_names d \<Longrightarrow>
   \<exists>s. NewSegment good_open c d = (Inr s, AList.update (fileName c) [] d) \<and> Path s = fileName c \<and> seg_rep ([], s) c []"
proof -
  assume "fileName c \<notin> log_names d"
  then have "dir_get d (fileName c) = []"
    by (auto simp: log_names_def dir_get_def split: option.splits dest: map_of_SomeD intro: rev_image_eqI)
  then show ?thesis by (simp add: NewSegment_def good_open_def Let_def seg_rep_def)
qed

lemma rotate_rep:
  assumes "part_ok p b (msgs xs @ ams)" and "part_chain p b xs a ams" and "ams \<noteq> []"
  shows "\<exists>p'. rotate good_open (nextOffset p) a p = (None, p') \<and> activeSegment p' = Some (length (segs p))
     \<and> part_ok p' b (msgs (xs @ [(a, ams)]) @ []) \<and> part_chain p' b (xs @ [(a, ams)]) (length (segs p)) []
     \<and> p' = p\<lparr>segs := segs p', files := files p', activeSegment := activeSegment p',
            closedSegments := closedSegments p'\<rparr>"
proof -
  note ok = part_okD [OF assms(1)] and r = part_chainD [OF assms(2)]
  let ?n = "nextOffset p" and ?ys = "xs @ [(a, ams)]"
  have n: "?n = b + of_nat (length (msgs ?ys))" using ok(3) by simp
  have lt: "c < ?n" if "c \<in> set (bases b ?ys)" for c
  proof -
    have "unat b + length (msgs ?ys) < 2 ^ 64" using log_from_bound [OF ok(1)] by simp
    moreover have "\<forall>x \<in> set ?ys. snd x \<noteq> []" using r(6) assms(3) by auto
    ultimately have "unat c < unat b + length (msgs ?ys)" using bases_range that by blast
    moreover have "unat ?n = unat b + length (msgs ?ys)"
      using log_from_next_unat [OF ok(1)] ok(3) by simp
    ultimately show ?thesis by (simp add: word_less_nat_alt)
  qed
  have fresh: "fileName ?n \<notin> log_names (files p)" using r(8) lt [of ?n] by auto
  obtain s where s: "NewSegment good_open ?n (files p) = (Inr s, AList.update (fileName ?n) [] (files p))"
    "Path s = fileName ?n" "seg_rep ([], s) ?n []"
    using NewSegment_fresh [OF fresh] by blast
  define p' where "p' = p\<lparr>segs := segs p @ [s], files := AList.update (fileName ?n) [] (files p),
    activeSegment := Some (length (segs p)), closedSegments := closedSegments p @ [a]\<rparr>"
  have idx: "i < length (segs p)" if "i \<in> fst ` set ?ys" for i
    using chain_indices [OF r(9) that] .
  have "chain (segs p') (files p') b ?ys"
  proof (rule chain_frame [OF r(9)])
    fix i assume "i \<in> fst ` set ?ys"
    then have "i < length (segs p)" by (rule idx)
    then show "i < length (segs p') \<and> segs p' ! i = segs p ! i" by (simp add: p'_def nth_append)
  next
    fix c assume "c \<in> set (bases b ?ys)"
    then have "c \<noteq> ?n" using lt by blast
    then show "dir_get (files p') (fileName c) = dir_get (files p) (fileName c)" by (simp add: p'_def)
  qed
  moreover have "seg_holds (segs p') (files p') ?n (length (segs p)) []"
    using s by (simp add: seg_holds_def p'_def)
  ultimately have "part_chain p' b ?ys (length (segs p)) []"
    using r assms(3) idx n unfolding part_chain_def
    by (auto simp: p'_def chain_append bases_append distinct_update add.assoc)
  moreover have "part_ok p' b (msgs ?ys @ [])"
    using ok by (simp add: part_ok_def p'_def)
  moreover have "rotate good_open ?n a p = (None, p')"
    by (simp add: rotate_def s(1) p'_def)
  ultimately show ?thesis
    by (intro exI [of _ p']) (simp add: p'_def)
qed

definition cuttable :: "partition \<Rightarrow> bool" where
  "cuttable p \<longleftrightarrow> (case activeSegment p of None \<Rightarrow> False
     | Some a \<Rightarrow> BaseOffset (segs p ! a) \<noteq> NextOffset (segs p ! a))"
  \<comment> \<open>the active segment holds a record\<close>

lemma cuttable_chain:
  assumes "part_chain p b xs a ams"
  shows "cuttable p \<longleftrightarrow> ams \<noteq> []"
proof -
  note h = seg_holdsD [OF part_chainD(5) [OF assms]]
  have "b + of_nat (length (msgs xs)) + of_nat (length ams) = b + of_nat (length (msgs xs)) + of_nat 0
      \<longleftrightarrow> length ams = 0"
    using log_from_bound [OF h(6)] by (intro add_of_nat_inject) auto
  then show ?thesis using h(4,5) part_chainD(1) [OF assms] by (auto simp: cuttable_def)
qed

lemma appendLocked_rep:
  assumes "part_rep p b ms" and "log_from b (ms @ [m])"
  shows "\<exists>p'. appendLocked good_io (Offset m) (Timestamp m) (Payload m) p = (None, p')
     \<and> part_rep p' b (ms @ [m]) \<and> cuttable p' \<and> replicas p' = replicas p \<and> syncState p' = syncState p
     \<and> maxSegmentSize p' = maxSegmentSize p"
proof -
  obtain xs a ams where r: "part_ok p b (msgs xs @ ams)" "part_chain p b xs a ams" "ms = msgs xs @ ams"
    using part_repE [OF assms(1)] .
  note h = seg_holdsD [OF part_chainD(5) [OF r(2)]]
  have off: "Offset m = nextOffset p"
    using assms(2) part_okD(3) [OF r(1)] unfolding r(3) [symmetric] by (simp add: log_from_snoc)
  show ?thesis
  proof (cases "maxSegmentSize p \<le> CurrentSize (segs p ! a)")
    case False
    have l: "log_from b (msgs xs @ ams @ [m])" using assms(2) r(3) by simp
    obtain p' where p': "append_active good_append (Offset m) (Timestamp m) (Payload m) a p = (None, p')"
      "part_ok p' b (msgs xs @ ams @ [m])" "part_chain p' b xs a (ams @ [m])"
      "p' = p\<lparr>segs := segs p', files := files p', nextOffset := nextOffset p + 1\<rparr>"
      using append_active_rep [OF r(1,2) l] by blast
    have "part_rep p' b (ms @ [m])" using part_repI [of p' b xs "ams @ [m]"] p' r(3) by simp
    moreover have "replicas p' = replicas p \<and> syncState p' = syncState p \<and> maxSegmentSize p' = maxSegmentSize p"
      by (subst p'(4), subst p'(4), subst p'(4)) simp
    moreover have "appendLocked good_io (Offset m) (Timestamp m) (Payload m) p = (None, p')"
      using False p'(1) part_chainD(1) [OF r(2)] by (simp add: appendLocked_def good_io_def)
    ultimately show ?thesis using cuttable_chain [OF p'(3)] by simp
  next
    case True
    have ne: "ams \<noteq> []" using True part_okD(4) [OF r(1)] h(7) by auto
    let ?ys = "xs @ [(a, ams)]"
    obtain q where q: "rotate good_open (nextOffset p) a p = (None, q)" "activeSegment q = Some (length (segs p))"
      "part_ok q b (msgs ?ys @ [])" "part_chain q b ?ys (length (segs p)) []"
      "q = p\<lparr>segs := segs q, files := files q, activeSegment := activeSegment q, closedSegments := closedSegments q\<rparr>"
      using rotate_rep [OF r(1,2) ne] by blast
    have l: "log_from b (msgs ?ys @ [] @ [m])" using assms(2) r(3) by simp
    obtain p' where p': "append_active good_append (Offset m) (Timestamp m) (Payload m) (length (segs p)) q = (None, p')"
      "part_ok p' b (msgs ?ys @ [] @ [m])" "part_chain p' b ?ys (length (segs p)) ([] @ [m])"
      "p' = q\<lparr>segs := segs p', files := files p', nextOffset := nextOffset q + 1\<rparr>"
      using append_active_rep [OF q(3,4) l] by blast
    have "part_rep p' b (ms @ [m])" using part_repI [of p' b ?ys "[] @ [m]"] p' r(3) by simp
    moreover have "replicas q = replicas p \<and> syncState q = syncState p \<and> maxSegmentSize q = maxSegmentSize p"
      by (subst q(5), subst q(5), subst q(5)) simp
    moreover from this have "replicas p' = replicas p \<and> syncState p' = syncState p \<and> maxSegmentSize p' = maxSegmentSize p"
      by (subst p'(4), subst p'(4), subst p'(4)) simp
    moreover have "appendLocked good_io (Offset m) (Timestamp m) (Payload m) p = (None, p')"
      using True q(1,2) p'(1) part_chainD(1) [OF r(2)] off by (simp add: appendLocked_def good_io_def)
    ultimately show ?thesis using cuttable_chain [OF p'(3)] by simp
  qed
qed

section \<open>Rolling back\<close>

lemma next_minus_one:
  assumes "part_rep p b ms" and "ms \<noteq> []"
  shows "nextOffset p - 1 = b + of_nat (length ms - 1)" and "nextOffset p - 1 < nextOffset p"
    and "unat (nextOffset p - 1) = unat b + (length ms - 1)"
proof -
  note ok = part_okD [OF part_rep_okD [OF assms(1)]]
  show e: "nextOffset p - 1 = b + of_nat (length ms - 1)"
    using ok(3) assms(2) by (cases ms) simp_all
  then show u: "unat (nextOffset p - 1) = unat b + (length ms - 1)"
    using unat_offset_less [OF log_from_bound [OF ok(1)], of "length ms - 1"] by simp
  have "unat (nextOffset p) = unat b + length ms" using log_from_next_unat [OF ok(1)] ok(3) by simp
  with u assms(2) show "nextOffset p - 1 < nextOffset p"
    by (cases ms) (simp_all add: word_less_nat_alt)
qed

lemma InvalidateOffset_rep:
  assumes "part_rep p b ms" and "ms \<noteq> []" and "cuttable p"
  shows "\<exists>p'. InvalidateOffset good_trunc (nextOffset p - 1) p = (None, p') \<and> part_rep p' b (butlast ms)
     \<and> p' = p\<lparr>segs := segs p', files := files p', nextOffset := nextOffset p - 1\<rparr>"
proof -
  obtain xs a ams where r: "part_ok p b (msgs xs @ ams)" "part_chain p b xs a ams" "ms = msgs xs @ ams"
    using part_repE [OF assms(1)] .
  note ok = part_okD [OF r(1)]
  note h = seg_holdsD [OF part_chainD(5) [OF r(2)]]
  note n1 = next_minus_one [OF assms(1,2)]
  let ?e = "b + of_nat (length (msgs xs))" and ?t = "nextOffset p - 1"
  have ne: "ams \<noteq> []" using cuttable_chain [OF r(2)] assms(3) by simp
  have t: "?t = ?e + of_nat (length ams - 1)"
    using ok(3) ne by (cases ams) simp_all
  have "unat ?e \<le> unat ?t"
    using n1(3) r(3) ne part_chain_end [OF r(2) ok(1)] by (cases ams) simp_all
  then have nb: "\<not> ?t < BaseOffset (segs p ! a)" using h(4) by (simp add: word_less_nat_alt)
  obtain f' s' where tr: "TruncateFrom good_trunc ?t (dir_get (files p) (fileName ?e), segs p ! a) = (None, f', s')"
    "seg_rep (f', s') ?e (butlast ams)"
    using TruncateFrom_rep [OF h(3), of "length ams - 1"] unfolding t [symmetric]
    by (metis butlast_conv_take diff_le_self prod.collapse)
  have ps: "Path s' = fileName ?e"
    using tr(1) h(2) by (auto simp: TruncateFrom_def good_trunc_def Let_def split: if_splits option.splits)
  define p' where "p' = p\<lparr>segs := (segs p)[a := s'], files := AList.update (fileName ?e) f' (files p),
    nextOffset := ?t\<rparr>"
  have pc: "part_chain p' b xs a (butlast ams)"
    by (rule part_chain_replace [OF r(2) ok(1) tr(2) ps]) (simp_all add: p'_def ps)
  have bl: "butlast ms = msgs xs @ butlast ams" using r(3) ne by (simp add: butlast_append)
  have "part_ok p' b (msgs xs @ butlast ams)"
    using ok(4,5,2) log_from_butlast [OF ok(1)] n1(1) r(3) ne
    by (simp add: part_ok_def p'_def butlast_append t add.assoc)
  then have "part_rep p' b (butlast ms)" using part_repI pc bl by metis
  moreover have "InvalidateOffset good_trunc ?t p = (None, p')"
    using ok(5) n1(2) part_chainD(1) [OF r(2)] nb tr(1) h(2)
    by (simp add: InvalidateOffset_def Let_def p'_def)
  ultimately show ?thesis by (intro exI [of _ p']) (simp add: p'_def)
qed

lemma InvalidateOffset_closed:
  assumes "part_rep p b ms" and "ms \<noteq> []" and "\<not> cuttable p"
  shows "InvalidateOffset io (nextOffset p - 1) p = (Some (EInClosedSegment (nextOffset p - 1)), p)"
proof -
  obtain xs a ams where r: "part_ok p b (msgs xs @ ams)" "part_chain p b xs a ams" "ms = msgs xs @ ams"
    using part_repE [OF assms(1)] .
  note n1 = next_minus_one [OF assms(1,2)]
  have am: "ams = []" using cuttable_chain [OF r(2)] assms(3) by simp
  have "nextOffset p = BaseOffset (segs p ! a)"
    using part_okD(3) [OF r(1)] seg_holdsD(4) [OF part_chainD(5) [OF r(2)]] am by simp
  then show ?thesis
    using n1(2) part_okD(5) [OF r(1)] part_chainD(1) [OF r(2)]
    by (simp add: InvalidateOffset_def Let_def)
qed

section \<open>The partition provides the log interface\<close>

definition part_append :: "message \<Rightarrow> partition \<Rightarrow> partition" where
  "part_append m p = snd (AppendEntry good_io (Offset m) (Timestamp m) (Payload m) p)"

definition part_cut :: "u64 \<Rightarrow> partition \<Rightarrow> partition" where
  "part_cut off p = snd (InvalidateOffset good_trunc off p)"

lemma AppendEntry_rep:
  assumes "part_rep p b ms" and "log_from b (ms @ [m])"
  shows "\<exists>p'. AppendEntry good_io (Offset m) (Timestamp m) (Payload m) p = ((Offset m, None), p')
     \<and> part_rep p' b (ms @ [m]) \<and> cuttable p' \<and> replicas p' = replicas p \<and> syncState p' = syncState p
     \<and> maxSegmentSize p' = maxSegmentSize p"
proof -
  note ok = part_okD [OF part_rep_okD [OF assms(1)]]
  have "Offset m = nextOffset p" using assms(2) ok(3) by (simp add: log_from_snoc)
  then show ?thesis
    using appendLocked_rep [OF assms] ok(5) by (auto simp: AppendEntry_def)
qed

interpretation part: append_log part_rep part_append part_read part_cut nextOffset cuttable
proof unfold_locales
  fix p b ms and m :: message and off
  show "part_rep p b ms \<Longrightarrow> log_from b ms" "part_rep p b ms \<Longrightarrow> nextOffset p = b + of_nat (length ms)"
    by (auto dest: part_rep_okD part_okD)
  show "part_rep p b ms \<Longrightarrow> part_read p off = log_at b ms off" by (rule part_read_log_at)
  show "part_rep p b ms \<Longrightarrow> log_from b (ms @ [m]) \<Longrightarrow> part_rep (part_append m p) b (ms @ [m])"
    "part_rep p b ms \<Longrightarrow> log_from b (ms @ [m]) \<Longrightarrow> cuttable (part_append m p)"
    using AppendEntry_rep [of p b ms m] by (auto simp: part_append_def)
  show "part_rep p b ms \<Longrightarrow> ms \<noteq> [] \<Longrightarrow> cuttable p \<Longrightarrow> part_rep (part_cut (nextOffset p - 1) p) b (butlast ms)"
    using InvalidateOffset_rep [of p b ms] by (auto simp: part_cut_def)
qed

section \<open>A new partition\<close>

definition good_recover :: recover_io where
  "good_recover = \<lparr>mkdirOk = True, readDirOk = True, segOpen = (\<lambda>_. good_open)\<rparr>"

lemma NewPartitionProcessor_empty:
  assumes "log_names d = {}" and "distinct (map fst d)"
  shows "part_rep (NewPartitionProcessor good_recover dn i t off ttl' r d) off []"
    and "syncState (NewPartitionProcessor good_recover dn i t off ttl' r d) = StateReplicating"
    and "nextOffset (NewPartitionProcessor good_recover dn i t off ttl' r d) = off"
    and "replicas (NewPartitionProcessor good_recover dn i t off ttl' r d) = r"
proof -
  have "filter has_log_suffix (map fst d) = []"
    using assms(1) by (auto simp: log_names_def filter_empty_conv)
  then have none: "sort (filter has_log_suffix (map fst d)) = []" by simp
  obtain s where s: "NewSegment good_open off d = (Inr s, AList.update (fileName off) [] d)"
    "Path s = fileName off" "seg_rep ([], s) off []"
    using NewSegment_fresh [of off d] assms(1) by blast
  define p where "p = NewPartitionProcessor good_recover dn i t off ttl' r d"
  have p: "p = \<lparr>id_p = i, topicName = t, segs = [s], activeSegment = Some 0, closedSegments = [],
      baseOffset = off, nextOffset = off, ttl = ttl', maxSegmentSize = 10 * 1024 * 1024,
      inSyncQuota = 0, replicas = r, syncState = StateReplicating, state = PartitionActive,
      pdone = dn, files = AList.update (fileName off) [] d\<rparr>"
    using s seg_repD(4) [OF s(3)]
    by (simp add: p_def NewPartitionProcessor_def recoverSegments_def good_recover_def none Let_def)
  have "part_ok p off (msgs [] @ [])" by (simp add: part_ok_def p)
  moreover have "part_chain p off [] 0 []"
    using assms s by (simp add: part_chain_def p seg_holds_def distinct_update)
  ultimately show "part_rep (NewPartitionProcessor good_recover dn i t off ttl' r d) off []"
    using part_repI p_def by fastforce
  show "syncState (NewPartitionProcessor good_recover dn i t off ttl' r d) = StateReplicating"
    "nextOffset (NewPartitionProcessor good_recover dn i t off ttl' r d) = off"
    "replicas (NewPartitionProcessor good_recover dn i t off ttl' r d) = r"
    unfolding p_def [symmetric] by (simp_all add: p)
qed

definition fresh_partition :: "u64 \<Rightarrow> partition" where
  "fresh_partition off = NewPartitionProcessor good_recover False 0 ''orders'' off 0 [] []"

lemma fresh_partition_rep: "part_rep (fresh_partition off) off []"
  and fresh_partition_next: "nextOffset (fresh_partition off) = off"
  and fresh_partition_sync: "syncState (fresh_partition off) = StateReplicating"
  unfolding fresh_partition_def
  by (rule NewPartitionProcessor_empty; simp add: log_names_def)+

section \<open>Properties of writing, rolling back and reading\<close>

text \<open>\<open>AppendEntry\<close> on a partition that represents a log. An offset below the next one is
  acknowledged without any effect, an offset beyond it is refused with the expected offset and
  without effect, and the next offset is appended: the call succeeds, whether or not it rotates to a
  new segment file, the partition then represents the log with the new record at its end, and reads
  change at that one offset only.\<close>

theorem partition_append_entry:
  assumes "part_rep p b ms" and "payload_ok payload" and "unat b + length ms + 1 < 2 ^ 64"
  shows "(off < nextOffset p \<longrightarrow> AppendEntry io off ts payload p = ((off, None), p))
     \<and> (nextOffset p < off \<longrightarrow> AppendEntry io off ts payload p
            = ((nextOffset p, Some (ENonContiguous off (nextOffset p))), p))
     \<and> (\<exists>p'. AppendEntry good_io (nextOffset p) ts payload p = ((nextOffset p, None), p')
            \<and> part_rep p' b (ms @ [\<lparr>Offset = nextOffset p, Timestamp = ts, Payload = payload\<rparr>])
            \<and> part_read p' = (part_read p)(nextOffset p \<mapsto>
                 \<lparr>Offset = nextOffset p, Timestamp = ts, Payload = payload\<rparr>))"
proof -
  let ?m = "\<lparr>Offset = nextOffset p, Timestamp = ts, Payload = payload\<rparr>"
  note ok = part_okD [OF part_rep_okD [OF assms(1)]]
  have l: "log_from b (ms @ [?m])" using ok(1,3) assms(2,3) by (simp add: log_from_snoc)
  obtain p' where p': "AppendEntry good_io (nextOffset p) ts payload p = ((nextOffset p, None), p')"
    "part_rep p' b (ms @ [?m])"
    using AppendEntry_rep [OF assms(1) l] by auto
  have "part_read p' = (part_read p)(nextOffset p \<mapsto> ?m)"
    using part.read_after_append [OF assms(1) l] p'(1) by (simp add: part_append_def)
  with p' ok(5) show ?thesis by (auto simp: AppendEntry_def)
qed

theorem partition_append_entry_witness:
  "\<exists>p'. AppendEntry good_io 4 17 [1, 2] (fresh_partition 4) = ((4, None), p')
     \<and> part_read p' 4 = Some \<lparr>Offset = 4, Timestamp = 17, Payload = [1, 2]\<rparr>"
proof -
  obtain p' where "AppendEntry good_io 4 17 [1, 2] (fresh_partition 4) = ((4, None), p')"
    "part_read p' = (part_read (fresh_partition 4))(4 \<mapsto> \<lparr>Offset = 4, Timestamp = 17, Payload = [1, 2]\<rparr>)"
    using partition_append_entry [OF fresh_partition_rep [of 4], of "[1, 2]" _ _ 17]
    by (auto simp: fresh_partition_next payload_ok_def)
  then show ?thesis by auto
qed

text \<open>Rolling back the record just appended. After \<open>AppendEntry\<close> at the next offset,
  \<open>InvalidateOffset\<close> of that offset succeeds and restores the log: the same messages, next offset and
  reads as before the append, also when the append had rotated to a new segment. Repeating the
  rollback does nothing, as a retried command from the leader requires.\<close>

theorem partition_rollback:
  assumes "part_rep p b ms" and "payload_ok payload" and "unat b + length ms + 1 < 2 ^ 64"
    and "AppendEntry good_io (nextOffset p) ts payload p = (r, p1)"
    and "InvalidateOffset good_trunc (nextOffset p) p1 = (e, p2)"
  shows "e = None \<and> part_rep p2 b ms \<and> nextOffset p2 = nextOffset p \<and> part_read p2 = part_read p
     \<and> InvalidateOffset good_trunc (nextOffset p) p2 = (None, p2)"
proof -
  let ?m = "\<lparr>Offset = nextOffset p, Timestamp = ts, Payload = payload\<rparr>"
  note ok = part_okD [OF part_rep_okD [OF assms(1)]]
  have l: "log_from b (ms @ [?m])" using ok(1,3) assms(2,3) by (simp add: log_from_snoc)
  have p1: "part_append ?m p = p1" using assms(4) by (simp add: part_append_def)
  then have p2: "part_cut (nextOffset p) (part_append ?m p) = p2" using assms(5) by (simp add: part_cut_def)
  have rep2: "part_rep p2 b ms" using part.rollback [OF assms(1) l] p2 by simp
  have n2: "nextOffset p2 = nextOffset p" using part.rep_nxt [OF rep2] ok(3) by simp
  have "part_read p2 = part_read p" using part.rollback_reads [OF assms(1) l] p2 by simp
  moreover have "e = None"
  proof -
    have "nextOffset p1 - 1 = nextOffset p"
      using part.nxt_after_append [OF assms(1) l] p1 by simp
    then show ?thesis
      using InvalidateOffset_rep [of p1 b "ms @ [?m]"] part.rep_app [OF assms(1) l]
        part.app_cuttable [OF assms(1) l] p1 assms(5) by auto
  qed
  moreover have "InvalidateOffset good_trunc (nextOffset p) p2 = (None, p2)"
    using part_okD(5) [OF part_rep_okD [OF rep2]] n2 by (simp add: InvalidateOffset_def)
  ultimately show ?thesis using rep2 n2 by blast
qed

theorem partition_rollback_witness:
  "\<exists>r p1 p2. AppendEntry good_io 4 17 [1, 2] (fresh_partition 4) = (r, p1)
     \<and> InvalidateOffset good_trunc 4 p1 = (None, p2) \<and> nextOffset p2 = 4"
proof -
  obtain r p1 where a: "AppendEntry good_io 4 17 [1, 2] (fresh_partition 4) = (r, p1)" by (metis prod.collapse)
  obtain e p2 where i: "InvalidateOffset good_trunc 4 p1 = (e, p2)" by (metis prod.collapse)
  show ?thesis
    using partition_rollback [OF fresh_partition_rep [of 4], of "[1, 2]" 17 r p1 e p2] a i
    by (auto simp: fresh_partition_next payload_ok_def)
qed

lemma partition_read_batch_rep:
  assumes "part_rep p b ms" and "k \<le> length ms"
  shows "ReadBatch no_faults (b + of_nat k) n p
     = (take (if n \<le> 0 then 500 else nat n) (drop k ms), b + of_nat (length ms), None)"
proof -
  have "ReadBatch_loop no_faults (if n \<le> 0 then 500 else n) p (b + of_nat k) []
      = (take (if n \<le> 0 then 500 else nat n) (drop k ms), None)"
    using ReadBatch_loop_rep [OF assms, of "[]" "if n \<le> 0 then 500 else n"] by simp
  then show ?thesis
    using part_okD(3) [OF part_rep_okD [OF assms(1)]]
    by (simp add: ReadBatch_def Let_def)
qed

text \<open>\<open>ReadBatch\<close>, which serves catching-up replicas, returns from any offset of the log the
  next entries in order, across segment boundaries: 500 of them when the caller gives no positive
  limit, otherwise up to the limit, with the next offset as the high watermark and no error.\<close>

theorem partition_read_batch:
  assumes "part_rep p b ms" and "k \<le> length ms"
  shows "ReadBatch no_faults (b + of_nat k) n p
     = (take (if n \<le> 0 then 500 else nat n) (drop k ms), b + of_nat (length ms), None)"
  using assms by (rule partition_read_batch_rep)

theorem partition_read_batch_witness:
  "ReadBatch no_faults (9 + of_nat 0) 0 (fresh_partition 9) = ([], 9 + of_nat 0, None)"
  using partition_read_batch [OF fresh_partition_rep [of 9], of 0 0] by simp

text \<open>The consumer's read: the entries from \<open>startOffset\<close>, at most \<open>maxMessages\<close> of them.\<close>

lemma readFrom_loop_rep:
  assumes "part_rep p b ms" and "k \<le> length ms" and "unat b + e < 2 ^ 64" and "k \<le> e"
    and "isStream \<or> maxMessages \<le> 0 \<or> length acc + (e - k) \<le> nat maxMessages"
  shows "readFrom_loop no_faults maxMessages isStream (b + of_nat e) p (b + of_nat k) acc
     = (acc @ take (e - k) (drop k ms), b + of_nat (min e (length ms)))"
  using assms(2,4,5)
proof (induction "e - k" arbitrary: k acc)
  case 0
  then have "k = e" by simp
  with 0 show ?case by (subst readFrom_loop.simps) (simp add: min_absorb1)
next
  case (Suc d)
  then have ke: "k < e" by simp
  have ub: "unat (b + of_nat e) = unat b + e" "unat (b + of_nat k) = unat b + k"
    using assms(3) unat_offset_less [OF assms(3), of k] ke by (auto intro: unat_add_of_nat)
  have ce: "b + of_nat k < b + of_nat e" using ub ke by (simp add: word_less_nat_alt)
  have cn: "b + of_nat k < nextOffset p \<longleftrightarrow> k < length ms" by (rule batch_cond [OF assms(1) Suc.prems(1)])
  show ?case
  proof (cases "k < length ms")
    case False
    with Suc.prems have "k = length ms" by simp
    with cn ke show ?thesis by (subst readFrom_loop.simps) (simp add: min_absorb2)
  next
    case True
    obtain i where i: "findSegment (b + of_nat k) p = Some i" "seg_Read_at no_faults (b + of_nat k) i p = Inr (ms ! k)"
      using batch_step [OF assms(1) True] by blast
    have go: "\<not> (0 < maxMessages \<and> maxMessages \<le> int (length acc) \<and> \<not> isStream)"
      using Suc.prems(3) ke by auto
    have "readFrom_loop no_faults maxMessages isStream (b + of_nat e) p (b + of_nat k) acc
        = readFrom_loop no_faults maxMessages isStream (b + of_nat e) p (b + of_nat (Suc k)) (acc @ [ms ! k])"
      using ce cn True i by (subst readFrom_loop.simps) (simp only: go if_False, simp add: ac_simps)
    also have "\<dots> = ((acc @ [ms ! k]) @ take (e - Suc k) (drop (Suc k) ms), b + of_nat (min e (length ms)))"
      using Suc.hyps(2) Suc.prems ke True by (intro Suc.hyps(1)) auto
    also have "(acc @ [ms ! k]) @ take (e - Suc k) (drop (Suc k) ms) = acc @ take (e - k) (drop k ms)"
    proof -
      have "e - k = Suc (e - Suc k)" using ke by simp
      moreover have "drop k ms = ms ! k # drop (Suc k) ms" using True by (simp add: Cons_nth_drop_Suc)
      ultimately show ?thesis by simp
    qed
    finally show ?thesis .
  qed
qed

text \<open>A consumer's read from an offset of the log returns the next entries in order, at most
  \<open>maxMessages\<close>; a streaming read returns everything up to the end and the offset at which the live
  stream continues, so that no entry is skipped or repeated between the two; an offset below the base
  is refused as deleted.\<close>

theorem partition_read_from:
  assumes "part_rep p b ms" and "k \<le> length ms" and "0 \<le> n" and "unat b + k + nat n < 2 ^ 64"
  shows "readFrom no_faults (b + of_nat k) n False p p = Inr (take (nat n) (drop k ms), None)
     \<and> readFrom no_faults (b + of_nat k) n True p p = Inr (drop k ms, Some (b + of_nat (length ms)))
     \<and> (off < b \<longrightarrow> readFrom f off n st p p = Inl EDeletedOffset)"
proof -
  note ok = part_okD [OF part_rep_okD [OF assms(1)]]
  have ge: "\<not> b + of_nat k < b"
    using unat_offset_less [OF log_from_bound [OF ok(1)] assms(2)] by (simp add: word_less_nat_alt)
  have "(of_int n :: u64) = of_nat (nat n)"
    using assms(3) by (metis of_int_of_nat_eq int_nat_eq)
  then have "b + of_nat k + of_int n = b + of_nat (k + nat n)" by (simp add: add.assoc)
  then have 1: "readFrom_loop no_faults n False (b + of_nat k + of_int n) p (b + of_nat k) []
      = (take (nat n) (drop k ms), b + of_nat (min (k + nat n) (length ms)))"
    using readFrom_loop_rep [OF assms(1,2), of "k + nat n" False n "[]"] assms(4)
    by (simp add: add.assoc)
  have 2: "readFrom_loop no_faults n True (nextOffset p) p (b + of_nat k) [] = (drop k ms, b + of_nat (length ms))"
    using readFrom_loop_rep [OF assms(1,2) log_from_bound [OF ok(1)] assms(2), of True n "[]"] ok(3) by simp
  show ?thesis
    using ge ok(2) 1 2 by (simp add: readFrom_def Let_def)
qed

theorem partition_read_from_witness:
  "readFrom no_faults (9 + of_nat 0) 5 True (fresh_partition 9) (fresh_partition 9) = Inr ([], Some (9 + of_nat 0))
   \<and> readFrom no_faults 3 5 False (fresh_partition 9) (fresh_partition 9) = Inl EDeletedOffset"
  using partition_read_from [OF fresh_partition_rep [of 9], of 0 5 3 no_faults False] by simp

section \<open>Any sequence of operations\<close>

datatype part_op =
    OpAppendEntry u64 i64 bytes
  | OpTryApplyPush u64 i64 bytes
  | OpPushQueue i64 bytes
  | OpInvalidate u64
  | OpForceInSync
  | OpTryFinalize u64
  | OpSetReplicas "replica list"
  | OpAddReplica replica
  | OpSetReplicaInSync int bool

fun part_step :: "part_op \<Rightarrow> partition \<Rightarrow> partition" where
  "part_step (OpAppendEntry off ts pl) p = snd (AppendEntry good_io off ts pl p)"
| "part_step (OpTryApplyPush off ts pl) p = snd (TryApplyPush good_io off ts pl p)"
| "part_step (OpPushQueue ts pl) p = snd (PushQueue good_io ts pl p)"
| "part_step (OpInvalidate off) p = snd (InvalidateOffset good_trunc off p)"
| "part_step OpForceInSync p = ForceInSync p"
| "part_step (OpTryFinalize hw) p = snd (TryFinalizeInSync hw p)"
| "part_step (OpSetReplicas rs) p = SetReplicas rs p"
| "part_step (OpAddReplica r) p = snd (AddReplica r p)"
| "part_step (OpSetReplicaInSync i s) p = SetReplicaInSync i s p"

fun op_payload :: "part_op \<Rightarrow> bytes option" where
  "op_payload (OpAppendEntry off ts pl) = Some pl"
| "op_payload (OpTryApplyPush off ts pl) = Some pl"
| "op_payload (OpPushQueue ts pl) = Some pl"
| "op_payload _ = None"

definition op_ok :: "part_op \<Rightarrow> partition \<Rightarrow> bool" where
  "op_ok opn p \<longleftrightarrow> (case op_payload opn of None \<Rightarrow> True
     | Some pl \<Rightarrow> payload_ok pl \<and> unat (nextOffset p) + 1 < 2 ^ 64)"

text \<open>What each operation may do to the abstract log of base \<open>b\<close>.\<close>

fun log_outcomes :: "u64 \<Rightarrow> part_op \<Rightarrow> SyncState \<Rightarrow> message list \<Rightarrow> message list set" where
  "log_outcomes b (OpAppendEntry off ts pl) st ms =
     {if off = b + of_nat (length ms) then ms @ [\<lparr>Offset = off, Timestamp = ts, Payload = pl\<rparr>] else ms}"
| "log_outcomes b (OpTryApplyPush off ts pl) st ms =
     {if st = StateInSync \<and> off = b + of_nat (length ms)
      then ms @ [\<lparr>Offset = off, Timestamp = ts, Payload = pl\<rparr>] else ms}"
| "log_outcomes b (OpPushQueue ts pl) st ms =
     {ms @ [\<lparr>Offset = b + of_nat (length ms), Timestamp = ts, Payload = pl\<rparr>]}"
| "log_outcomes b (OpInvalidate off) st ms =
     (if ms \<noteq> [] \<and> off = b + of_nat (length ms - 1) then {butlast ms, ms} else {ms})"
| "log_outcomes b _ st ms = {ms}"

lemma AppendEntry_cases:
  assumes "part_rep p b ms" and "payload_ok pl" and "unat b + length ms + 1 < 2 ^ 64"
  shows "part_rep (snd (AppendEntry good_io off ts pl p)) b
     (if off = b + of_nat (length ms) then ms @ [\<lparr>Offset = off, Timestamp = ts, Payload = pl\<rparr>] else ms)"
proof -
  note ok = part_okD [OF part_rep_okD [OF assms(1)]]
  show ?thesis
  proof (cases "off = nextOffset p")
    case True
    then have "log_from b (ms @ [\<lparr>Offset = off, Timestamp = ts, Payload = pl\<rparr>])"
      using ok(1,3) assms(2,3) by (simp add: log_from_snoc)
    from AppendEntry_rep [OF assms(1) this] True ok(3) show ?thesis by auto
  next
    case False
    with assms(1) ok(3,5) show ?thesis by (simp add: AppendEntry_def)
  qed
qed

lemma part_rep_other:
  assumes "part_rep p b ms"
    and "segs p' = segs p" "files p' = files p" "activeSegment p' = activeSegment p"
    and "closedSegments p' = closedSegments p" "baseOffset p' = baseOffset p"
    and "nextOffset p' = nextOffset p" "maxSegmentSize p' = maxSegmentSize p" "state p' = state p"
  shows "part_rep p' b ms"
  using assms by (simp add: part_rep_def part_ok_def part_chain_def)

lemma TryApplyPush_rep:
  assumes "part_rep p b ms" and "payload_ok pl" and "unat (nextOffset p) + 1 < 2 ^ 64"
  shows "\<exists>ms'. ms' \<in> log_outcomes b (OpTryApplyPush off ts pl) (syncState p) ms
     \<and> part_rep (snd (TryApplyPush good_io off ts pl p)) b ms'
     \<and> (fst (fst (TryApplyPush good_io off ts pl p)) = PushAccepted
          \<longleftrightarrow> syncState p = StateInSync \<and> off = nextOffset p)"
proof -
  note ok = part_okD [OF part_rep_okD [OF assms(1)]]
  show ?thesis
  proof (cases "syncState p = StateInSync \<and> off = nextOffset p")
    case False
    with assms(1) ok(3) show ?thesis by (auto simp: TryApplyPush_def)
  next
    case True
    let ?m = "\<lparr>Offset = off, Timestamp = ts, Payload = pl\<rparr>"
    have "unat (nextOffset p) = unat b + length ms" using log_from_next_unat [OF ok(1)] ok(3) by simp
    then have "log_from b (ms @ [?m])" using ok(1,3) True assms(2,3) by (simp add: log_from_snoc)
    from appendLocked_rep [OF assms(1) this] True ok(3) show ?thesis
      by (auto simp: TryApplyPush_def)
  qed
qed

lemma OpInvalidate_rep:
  assumes "part_rep p b ms"
  shows "\<exists>ms' \<in> log_outcomes b (OpInvalidate off) st ms.
    part_rep (snd (InvalidateOffset good_trunc off p)) b ms'"
proof -
  note ok = part_okD [OF part_rep_okD [OF assms]]
  show ?thesis
  proof (cases "nextOffset p \<le> off \<or> nextOffset p \<noteq> off + 1")
    case True
    with assms ok(5) show ?thesis by (auto simp: InvalidateOffset_def)
  next
    case False
    then have off: "off = nextOffset p - 1" by simp
    show ?thesis
    proof (cases "ms = []")
      case True
      have "snd (InvalidateOffset good_trunc off p) = p"
      proof -
        obtain xs a ams where r: "part_ok p b (msgs xs @ ams)" "part_chain p b xs a ams" "ms = msgs xs @ ams"
          using part_repE [OF assms] .
        have "msgs xs = []" using r(3) True by simp
        then have "BaseOffset (segs p ! a) = nextOffset p"
          using seg_holdsD(4) [OF part_chainD(5) [OF r(2)]] ok(3) True by (simp del: concat_eq_Nil_conv)
        with False ok(5) part_chainD(1) [OF r(2)] show ?thesis
          by (simp add: InvalidateOffset_def Let_def)
      qed
      with assms True show ?thesis by auto
    next
      case ne: False
      have e: "off = b + of_nat (length ms - 1)" using off next_minus_one(1) [OF assms ne] by simp
      show ?thesis
        using InvalidateOffset_rep [OF assms ne] InvalidateOffset_closed [OF assms ne] off e ne assms
        by (cases "cuttable p") auto
    qed
  qed
qed

lemma part_step_log:
  assumes "part_rep p b ms" and "op_ok opn p"
  shows "\<exists>ms' \<in> log_outcomes b opn (syncState p) ms. part_rep (part_step opn p) b ms'"
proof -
  note ok = part_okD [OF part_rep_okD [OF assms(1)]]
  have u: "unat (nextOffset p) = unat b + length ms" using log_from_next_unat [OF ok(1)] ok(3) by simp
  show ?thesis
  proof (cases opn)
    case (OpAppendEntry off ts pl)
    with assms(2) have pl: "payload_ok pl" "unat b + length ms + 1 < 2 ^ 64" using u by (simp_all add: op_ok_def)
    show ?thesis
      using AppendEntry_cases [OF assms(1) pl, of off ts] OpAppendEntry by simp
  next
    case (OpTryApplyPush off ts pl)
    with assms show ?thesis using TryApplyPush_rep [OF assms(1), of pl off ts] by (auto simp: op_ok_def)
  next
    case (OpPushQueue ts pl)
    then have "log_from b (ms @ [\<lparr>Offset = b + of_nat (length ms), Timestamp = ts, Payload = pl\<rparr>])"
      using ok(1) u assms(2) by (simp add: log_from_snoc op_ok_def)
    from appendLocked_rep [OF assms(1) this] OpPushQueue ok(3) show ?thesis
      by (auto simp: PushQueue_def Let_def)
  next
    case (OpInvalidate off)
    then show ?thesis using OpInvalidate_rep [OF assms(1), of off "syncState p"] by simp
  qed (use assms(1) in \<open>auto simp: ForceInSync_def TryFinalizeInSync_def SetReplicas_def AddReplica_def
      SetReplicaInSync_def intro: part_rep_other\<close>)
qed



text \<open>No operation takes a replica out of sync again.\<close>

lemma appendLocked_syncState: "syncState (snd (appendLocked io off ts pl p)) = syncState p"
  by (auto simp: appendLocked_def rotate_def append_active_def Let_def
      split: option.splits prod.splits sum.splits)

lemma part_step_syncState: "syncState p \<le> syncState (part_step opn p)"
proof -
  have [simp]: "StateReplicating \<le> x" "x \<le> StateInSync" for x
    by (cases x; simp add: less_eq_SyncState_def)+
  show ?thesis
    by (cases opn)
      (auto simp: AppendEntry_def TryApplyPush_def PushQueue_def InvalidateOffset_def Let_def ForceInSync_def
        TryFinalizeInSync_def SetReplicas_def AddReplica_def SetReplicaInSync_def
        split: option.splits prod.splits intro: appendLocked_syncState [THEN eq_refl [OF sym]]
        dest: arg_cong [where f = "\<lambda>r. syncState (snd r)"] simp: appendLocked_syncState)
qed

interpretation pm: monotone_machine "\<lambda>p. \<exists>ms. part_rep p b ms" op_ok part_step syncState for b
  by unfold_locales (use part_step_log part_step_syncState in blast)+

text \<open>Any sequence of operations, in any order, on a partition that represents a log leaves a
  partition that represents a log with the same base, so that every batch read serves consecutive
  entries; and the synchronisation state never goes back from in-sync to replicating.\<close>

theorem partition_any_run:
  assumes "part_rep p b ms" and "pm.run_ok ops p"
  shows "(\<exists>ms'. part_rep (fold part_step ops p) b ms'
        \<and> (\<forall>n \<le> length ms'. \<forall>c. ReadBatch no_faults (b + of_nat n) c (fold part_step ops p)
             = (take (if c \<le> 0 then 500 else nat c) (drop n ms'), b + of_nat (length ms'), None)))
     \<and> syncState p \<le> syncState (fold part_step ops p)"
proof -
  have inv: "\<exists>ms. part_rep p b ms" using assms(1) by blast
  obtain ms' where "part_rep (fold part_step ops p) b ms'"
    using pm.run_inv [OF inv assms(2)] by blast
  with partition_read_batch_rep [OF this] pm.run_mono [OF inv assms(2)] show ?thesis by blast
qed

theorem partition_any_run_witness:
  "syncState (fresh_partition 3) \<le> syncState (fold part_step [OpPushQueue 8 [1], OpForceInSync] (fresh_partition 3))"
proof -
  have "pm.run_ok [OpPushQueue 8 [1], OpForceInSync] (fresh_partition 3)"
    by (simp add: op_ok_def fresh_partition_next payload_ok_def)
  from partition_any_run [OF fresh_partition_rep this] show ?thesis by blast
qed

end
