(* ===== verification/PartitionLife.thy ===== *)
theory PartitionLife
  imports PartitionLog
begin

text \<open>
  The life of a partition beyond its log operations: recovery of the whole directory after a
  restart or a crash, retention (\<open>CleanOldMessages\<close>), the consumer stream of \<open>getStream\<close>, and what
  is left after shutdown or a failed start.
\<close>

section \<open>Restart\<close>

text \<open>The files of a run of segments, each possibly ending in an interrupted write.\<close>

fun disk_chain :: "dir \<Rightarrow> u64 \<Rightarrow> (nat \<times> message list) list \<Rightarrow> bool" where
  "disk_chain d b [] \<longleftrightarrow> True"
| "disk_chain d b ((i, ms) # xs) \<longleftrightarrow>
     log_from b ms \<and> (\<exists>t. torn_tail t \<and> dir_get d (fileName b) = log_image ms @ t)
     \<and> disk_chain d (b + of_nat (length ms)) xs"

lemma disk_chain_frame:
  "disk_chain d b xs \<Longrightarrow> (\<And>c. c \<in> set (bases b xs) \<Longrightarrow> dir_get d' (fileName c) = dir_get d (fileName c)) \<Longrightarrow>
   disk_chain d' b xs"
  by (induction xs arbitrary: b) auto

lemma dir_get_cong: "map_of d' n = map_of d n \<Longrightarrow> dir_get d' n = dir_get d n"
  by (simp add: dir_get_def)

lemma NewSegment_dir:
  "NewSegment good_open b d = (Inr s, d') \<Longrightarrow>
   \<exists>f g. d' = AList.update (fileName b) f d \<or> d' = AList.update (fileName b) g (AList.update (fileName b) f d)"
  by (auto simp: NewSegment_def good_open_def Let_def split: if_splits sum.splits)

lemma NewSegment_names:
  "NewSegment good_open b d = (Inr s, d') \<Longrightarrow>
   fst ` set d' = insert (fileName b) (fst ` set d) \<and> (distinct (map fst d) \<longrightarrow> distinct (map fst d'))"
  by (drule NewSegment_dir, elim exE disjE) (simp_all add: dom_update distinct_update)

lemma open_segments_chain:
  assumes "disk_chain (files p) b xs" and "sorted_wrt (<) (bases b xs)"
    and "map fst xs = [length (segs p)..<length (segs p) + length xs]"
    and "distinct (map fst (files p))" and "fileName ` set (bases b xs) \<subseteq> fst ` set (files p)"
  shows "\<exists>p' new. open_segments (\<lambda>_. good_open) (map fileName (bases b xs)) p = (None, p')
     \<and> p' = p\<lparr>segs := segs p @ new, closedSegments := closedSegments p @ map fst xs, files := files p'\<rparr>
     \<and> length new = length xs \<and> chain (segs p') (files p') b xs
     \<and> (\<forall>n. n \<notin> fileName ` set (bases b xs) \<longrightarrow> map_of (files p') n = map_of (files p) n)
     \<and> distinct (map fst (files p')) \<and> fst ` set (files p') = fst ` set (files p)"
  using assms
proof (induction xs arbitrary: b p)
  case Nil
  then show ?case by (intro exI [of _ p] exI [of _ "[]"]) simp
next
  case (Cons x xs)
  obtain i ms where x: "x = (i, ms)" by (cases x)
  let ?e = "b + of_nat (length ms)"
  obtain t where d: "log_from b ms" "torn_tail t" "dir_get (files p) (fileName b) = log_image ms @ t"
    "disk_chain (files p) ?e xs"
    using Cons.prems(1) x by auto
  have above: "b < c" if "c \<in> set (bases ?e xs)" for c using Cons.prems(2) x that by simp
  then have fresh: "b \<notin> set (bases ?e xs)" by blast
  have i: "i = length (segs p)" "map fst xs = [Suc (length (segs p))..<Suc (length (segs p)) + length xs]"
    using Cons.prems(3) x upt_conv_Cons [of "length (segs p)" "length (segs p) + Suc (length xs)"]
    by (simp_all del: upt_Suc)
  obtain s d' where s: "NewSegment good_open b (files p) = (Inr s, d')" "Path s = fileName b"
    "seg_rep (dir_get d' (fileName b), s) b ms" "\<forall>n. n \<noteq> fileName b \<longrightarrow> map_of d' n = map_of (files p) n"
    using NewSegment_recovers [OF d(1-3)] by blast
  have nm: "fst ` set d' = fst ` set (files p)" "distinct (map fst d')"
    using NewSegment_names [OF s(1)] Cons.prems(4,5) x by auto
  define q where "q = p\<lparr>segs := segs p @ [s], closedSegments := closedSegments p @ [i], files := d'\<rparr>"
  have "disk_chain (files q) ?e xs"
  proof (rule disk_chain_frame [OF d(4)])
    fix c assume "c \<in> set (bases ?e xs)"
    with fresh have "fileName c \<noteq> fileName b" by auto
    with s(4) have "map_of (files q) (fileName c) = map_of (files p) (fileName c)" by (simp add: q_def)
    then show "dir_get (files q) (fileName c) = dir_get (files p) (fileName c)" by (rule dir_get_cong)
  qed
  moreover have "sorted_wrt (<) (bases ?e xs)" using Cons.prems(2) x by simp
  moreover have "map fst xs = [length (segs q)..<length (segs q) + length xs]" using i by (simp add: q_def)
  moreover have "distinct (map fst (files q))" "fileName ` set (bases ?e xs) \<subseteq> fst ` set (files q)"
    using nm Cons.prems(5) x by (auto simp: q_def)
  ultimately obtain p' new where p': "open_segments (\<lambda>_. good_open) (map fileName (bases ?e xs)) q = (None, p')"
    "p' = q\<lparr>segs := segs q @ new, closedSegments := closedSegments q @ map fst xs, files := files p'\<rparr>"
    "length new = length xs" "chain (segs p') (files p') ?e xs"
    "\<forall>n. n \<notin> fileName ` set (bases ?e xs) \<longrightarrow> map_of (files p') n = map_of (files q) n"
    "distinct (map fst (files p'))" "fst ` set (files p') = fst ` set (files q)"
    using Cons.IH [of q ?e] by blast
  have sg: "segs p' = segs p @ s # new" by (subst p'(2)) (simp add: q_def)
  have "fileName b \<notin> fileName ` set (bases ?e xs)" using fresh by auto
  with p'(5) have "map_of (files p') (fileName b) = map_of d' (fileName b)" by (simp add: q_def)
  then have "dir_get (files p') (fileName b) = dir_get d' (fileName b)" by (rule dir_get_cong)
  then have "seg_holds (segs p') (files p') b i ms"
    using s(2,3) i(1) sg by (simp add: seg_holds_def nth_append)
  moreover have "p' = p\<lparr>segs := segs p @ s # new, closedSegments := closedSegments p @ map fst (x # xs), files := files p'\<rparr>"
    by (subst p'(2)) (simp add: q_def x)
  moreover have "open_segments (\<lambda>_. good_open) (map fileName (bases b (x # xs))) p = (None, p')"
    using s(1) p'(1) i(1) by (simp add: x q_def)
  moreover have "map_of (files p') n = map_of (files p) n" if "n \<notin> fileName ` set (bases b (x # xs))" for n
    using that p'(5) s(4) x by (auto simp: q_def)
  ultimately show ?case
    using p'(3,4,6,7) nm x by (intro exI [of _ p'] exI [of _ "s # new"]) (simp add: q_def)
qed

lemma sort_log_names:
  assumes "distinct (map fst d)" and "log_names d = fileName ` set (bases b xs)"
    and "sorted_wrt (<) (bases b xs)"
  shows "sort (filter has_log_suffix (map fst d)) = map fileName (bases b xs)"
proof (rule sorted_distinct_set_unique)
  have sw: "sorted_wrt (<) (map fileName (bases b xs))"
    using assms(3) by (simp add: sorted_wrt_map fileName_less)
  then show "sorted (map fileName (bases b xs))" "distinct (map fileName (bases b xs))"
    by (simp_all add: strict_sorted_iff)
  show "set (sort (filter has_log_suffix (map fst d))) = set (map fileName (bases b xs))"
    using assms(2) by (auto simp: log_names_def)
qed (use assms(1) in \<open>simp_all add: distinct_map\<close>)

text \<open>The constructor on a directory that holds the files of a log.\<close>

lemma NewPartitionProcessor_recovers:
  assumes "disk_chain d b (xs @ [(length xs, ams)])" and "map fst xs = [0..<length xs]"
    and "\<forall>x \<in> set xs. snd x \<noteq> []" and "log_from b (msgs xs @ ams)"
    and "distinct (map fst d)" and "log_names d = fileName ` set (bases b (xs @ [(length xs, ams)]))"
  shows "part_rep (NewPartitionProcessor good_recover dn i t off ttl' r d) b (msgs xs @ ams)"
proof -
  let ?ys = "xs @ [(length xs, ams)]"
  define q where "q = \<lparr>id_p = i, topicName = t, segs = [], activeSegment = None, closedSegments = [],
      baseOffset = off, nextOffset = off, ttl = ttl', maxSegmentSize = 10 * 1024 * 1024,
      inSyncQuota = 0, replicas = r, syncState = StateReplicating, state = PartitionActive,
      pdone = dn, files = d\<rparr>"
  have "unat b + length (msgs ?ys) < 2 ^ 64" using log_from_bound [OF assms(4)] by simp
  then have sw: "sorted_wrt (<) (bases b ?ys)" by (rule bases_sorted) (use assms(3) in simp)
  have idx: "map fst ?ys = [length (segs q)..<length (segs q) + length ?ys]"
    using assms(2) by (simp add: q_def)
  have sub: "fileName ` set (bases b ?ys) \<subseteq> fst ` set (files q)"
    unfolding assms(6) [symmetric] by (auto simp: q_def log_names_def)
  obtain p1 new where p1: "open_segments (\<lambda>_. good_open) (map fileName (bases b ?ys)) q = (None, p1)"
    "p1 = q\<lparr>segs := segs q @ new, closedSegments := closedSegments q @ map fst ?ys, files := files p1\<rparr>"
    "chain (segs p1) (files p1) b ?ys" "distinct (map fst (files p1))" "fst ` set (files p1) = fst ` set (files q)"
    using open_segments_chain [of q b ?ys] assms(1,5) sw idx sub by (auto simp: q_def)
  have cl: "closedSegments p1 = map fst xs @ [length xs]" by (subst p1(2)) (simp add: q_def)
  have h: "seg_holds (segs p1) (files p1) (b + of_nat (length (msgs xs))) (length xs) ams"
    and ch: "chain (segs p1) (files p1) b xs"
    using p1(3) by (simp_all add: chain_append)
  define p where "p = p1\<lparr>activeSegment := Some (length xs), closedSegments := map fst xs,
     nextOffset := b + of_nat (length (msgs xs @ ams)), baseOffset := b\<rparr>"
  have b0: "(case map fst xs of c # _ \<Rightarrow> BaseOffset (segs p1 ! c) | [] \<Rightarrow> BaseOffset (segs p1 ! length xs)) = b"
    using ch h by (cases xs) (auto dest: seg_holdsD(4))
  have srt: "sort (filter has_log_suffix (map fst (files q))) = map fileName (bases b ?ys)"
    using sort_log_names [of d b ?ys] assms(5,6) sw by (simp add: q_def)
  have sp: "segOpen good_recover = (\<lambda>_. good_open)" "mkdirOk good_recover" "readDirOk good_recover"
    by (simp_all add: good_recover_def)
  have rs: "recoverSegments good_recover q = (None, p)"
    using b0 cl seg_holdsD(5) [OF h] sp(2,3)
    unfolding recoverSegments_def srt sp(1) p1(1)
    by (cases xs) (simp_all add: Let_def p_def add.assoc)
  have new: "NewPartitionProcessor good_recover dn i t off ttl' r d = p"
    using rs by (simp add: NewPartitionProcessor_def q_def)
  have "maxSegmentSize p1 = 10 * 1024 * 1024" "state p1 = PartitionActive" by (subst p1(2), simp add: q_def)+
  then have "part_ok p b (msgs xs @ ams)" using assms(4) by (simp add: part_ok_def p_def)
  moreover have "part_chain p b xs (length xs) ams"
    using p1(3,4,5) assms(2,3,6) by (simp add: part_chain_def p_def log_names_def q_def)
  ultimately show ?thesis unfolding new by (rule part_repI)
qed

text \<open>
  The directory a crash leaves: the first \<open>n\<close> bytes of the active file reached the disk, the other
  files, which were complete before the rotation, are as they were.
\<close>

definition crash_dir :: "nat \<Rightarrow> partition \<Rightarrow> dir \<Rightarrow> bool" where
  "crash_dir n p d \<longleftrightarrow> distinct (map fst d) \<and>
     (case activeSegment p of None \<Rightarrow> False | Some a \<Rightarrow>
        map_of d (Path (segs p ! a)) = Some (take n (dir_get (files p) (Path (segs p ! a))))
        \<and> (\<forall>f. f \<noteq> Path (segs p ! a) \<longrightarrow> map_of d f = map_of (files p) f))"

definition reindex :: "(nat \<times> message list) list \<Rightarrow> (nat \<times> message list) list" where
  "reindex xs = zip [0..<length xs] (map snd xs)"

lemma reindex: "map snd (reindex xs) = map snd xs" "map fst (reindex xs) = [0..<length xs]"
  "length (reindex xs) = length xs"
  by (simp_all add: reindex_def)

lemma bases_reindex: "map snd ys = map snd xs \<Longrightarrow> bases b ys = bases b xs"
  by (induction ys xs arbitrary: b rule: list_induct2') (auto split: prod.splits)

lemma chain_disk_chain:
  "chain ss d b xs \<Longrightarrow> map snd ys = map snd xs \<Longrightarrow> disk_chain d b ys"
proof (induction ys xs arbitrary: b rule: list_induct2')
  case (4 y ys x xs)
  obtain i ms j where xy: "x = (i, ms)" "y = (j, ms)" using 4(3) by (cases x; cases y) auto
  then have "seg_holds ss d b i ms" "disk_chain d (b + of_nat (length ms)) ys"
    using 4 by auto
  then show ?case
    using xy by (auto simp: seg_holds_def seg_rep_def intro!: exI [of _ "[]"])
qed auto

lemma disk_chain_append:
  "disk_chain d b (xs @ ys) \<longleftrightarrow> disk_chain d b xs \<and> disk_chain d (b + of_nat (length (msgs xs))) ys"
  by (induction xs arbitrary: b) (auto simp: add.assoc)

lemma map_of_names: "(\<And>n. map_of d' n = None \<longleftrightarrow> map_of d n = None) \<Longrightarrow> log_names d' = log_names d"
  by (auto simp: log_names_def map_of_eq_None_iff)

lemma crash_prefix:
  assumes "log_from c ams"
  shows "\<exists>k t. k \<le> length ams \<and> take n (log_image ams) = log_image (take k ams) @ t \<and> torn_tail t
     \<and> (length (log_image ams) \<le> n \<longrightarrow> k = length ams)"
proof (cases "length (log_image ams) \<le> n")
  case True
  then show ?thesis by (intro exI [of _ "length ams"] exI [of _ "[]"]) simp
next
  case False
  then show ?thesis
    using log_image_prefix [of ams n] assms by (fastforce simp: log_from_def)
qed

text \<open>What the crash leaves is a chain of segment files of the same names.\<close>

lemma crash_disk:
  assumes "part_ok p b (msgs xs @ ams)" and pc: "part_chain p b xs a ams" and "crash_dir n p d"
    and "take n (log_image ams) = log_image (take k ams) @ t'" and "torn_tail t'"
  shows "disk_chain d b (reindex xs @ [(length (reindex xs), take k ams)])" and "log_names d = log_names (files p)"
    and "distinct (map fst d)"
proof -
  let ?e = "b + of_nat (length (msgs xs))" and ?kams = "take k ams" and ?ys = "reindex xs"
  note l = part_okD(1) [OF assms(1)] and pd = part_chainD [OF pc]
  note h = seg_holdsD [OF pd(5)]
  have d: "distinct (map fst d)" "map_of d (fileName ?e) = Some (log_image ?kams @ t')"
    "\<And>f. f \<noteq> fileName ?e \<Longrightarrow> map_of d f = map_of (files p) f"
    using assms(3) pd(1) h(2) assms(4) seg_repD(2) [OF h(3)] by (auto simp: crash_dir_def)
  show "distinct (map fst d)" by (rule d(1))
  have ms: "msgs ?ys = msgs xs" by (simp add: reindex)
  have "disk_chain (files p) b ?ys" by (rule chain_disk_chain [OF pd(4)]) (simp add: reindex)
  then have dc: "disk_chain d b ?ys"
  proof (rule disk_chain_frame)
    fix c assume "c \<in> set (bases b ?ys)"
    then have "c < ?e" using active_base_fresh [OF pc l] bases_reindex [OF reindex(1), of b xs] by simp
    then have "fileName c \<noteq> fileName ?e" by auto
    then show "dir_get d (fileName c) = dir_get (files p) (fileName c)" by (intro dir_get_cong d(3))
  qed
  have "log_from b (msgs xs @ ?kams)" using l log_from_take [of b "msgs xs @ ams" "length (msgs xs) + k"] by simp
  then have "log_from ?e ?kams" by (simp add: log_from_append)
  then show "disk_chain d b (?ys @ [(length ?ys, ?kams)])"
    using dc d(2) assms(5) ms by (auto simp: disk_chain_append dir_get_def)
  show "log_names d = log_names (files p)"
  proof (rule map_of_names)
    fix f show "map_of d f = None \<longleftrightarrow> map_of (files p) f = None"
    proof (cases "f = fileName ?e")
      case True
      moreover have "fileName ?e \<in> log_names (files p)" using pd(8) by (simp add: bases_append)
      ultimately show ?thesis using d(2) by (auto simp: log_names_def map_of_eq_None_iff)
    qed (simp add: d(3))
  qed
qed

lemma crash_recovers:
  assumes "part_rep p b ms" and "crash_dir n p d"
  shows "\<exists>k a. k \<le> length ms \<and> activeSegment p = Some a
     \<and> part_rep (NewPartitionProcessor good_recover dn i t off ttl' r d) b (take k ms)
     \<and> unat (BaseOffset (segs p ! a)) \<le> unat b + k
     \<and> (CurrentSize (segs p ! a) \<le> n \<longrightarrow> k = length ms)"
proof -
  obtain xs a ams where r: "part_ok p b (msgs xs @ ams)" "part_chain p b xs a ams" "ms = msgs xs @ ams"
    using part_repE [OF assms(1)] .
  note l = part_okD(1) [OF r(1)] and pc = part_chainD [OF r(2)]
  note h = seg_holdsD [OF pc(5)]
  obtain k t' where k: "k \<le> length ams" "take n (log_image ams) = log_image (take k ams) @ t'" "torn_tail t'"
    "length (log_image ams) \<le> n \<longrightarrow> k = length ams"
    using crash_prefix [OF h(6)] by blast
  let ?kams = "take k ams" and ?ys = "reindex xs"
  note disk = crash_disk [OF r(1,2) assms(2) k(2,3)]
  have ms: "msgs ?ys = msgs xs" by (simp add: reindex)
  have lk: "log_from b (msgs xs @ ?kams)" using l log_from_take [of b "msgs xs @ ams" "length (msgs xs) + k"] by simp
  have bs: "bases b (?ys @ [(length ?ys, ?kams)]) = bases b (xs @ [(a, ams)])"
    by (simp add: bases_append bases_reindex [OF reindex(1)] ms)
  have ne: "\<forall>x \<in> set ?ys. snd x \<noteq> []"
    using pc(6) reindex(1) [of xs] by (metis image_set imageE image_eqI)
  have "part_rep (NewPartitionProcessor good_recover dn i t off ttl' r d) b (msgs ?ys @ ?kams)"
    by (rule NewPartitionProcessor_recovers [OF disk(1) _ ne])
      (use lk ms disk(2,3) pc(8) bs in \<open>simp_all add: reindex\<close>)
  moreover have "msgs ?ys @ ?kams = take (length (msgs xs) + k) ms" using r(3) ms by simp
  moreover have "unat (BaseOffset (segs p ! a)) = unat b + length (msgs xs)"
    using h(4) part_chain_end [OF r(2) l] by simp
  ultimately show ?thesis
    using k(1,4) h(7) pc(1) r(3) by (intro exI [of _ "length (msgs xs) + k"] exI [of _ a]) simp
qed

text \<open>\<open>NewPartitionProcessor\<close> after a crash. On a directory in which every closed segment file is
  whole and the active one holds any byte prefix of its contents, the constructor rebuilds a
  partition that represents a prefix of the log, with the old base offset and whatever start offset
  the caller passes. Only records of the active segment can be missing, and none is when the bytes
  the appends have synced are there: acknowledged records survive, and a clean restart loses nothing.\<close>

theorem partition_restart:
  assumes "part_rep p b ms" and "crash_dir n p d"
  shows "\<exists>k a. k \<le> length ms \<and> activeSegment p = Some a
     \<and> part_rep (NewPartitionProcessor good_recover dn i t off ttl' r d) b (take k ms)
     \<and> unat (BaseOffset (segs p ! a)) \<le> unat b + k
     \<and> (CurrentSize (segs p ! a) \<le> n \<longrightarrow> k = length ms)"
  by (rule crash_recovers [OF assms])

lemma crash_dir_self: "part_rep p b ms \<Longrightarrow> \<exists>n a. activeSegment p = Some a \<and> CurrentSize (segs p ! a) \<le> n \<and> crash_dir n p (files p)"
proof -
  assume "part_rep p b ms"
  then obtain xs a ams where r: "part_ok p b (msgs xs @ ams)" "part_chain p b xs a ams" "ms = msgs xs @ ams"
    using part_repE by blast
  note pc = part_chainD [OF r(2)]
  note h = seg_holdsD [OF pc(5)]
  have "Path (segs p ! a) \<in> log_names (files p)" using pc(8) h(2) by (simp add: bases_append)
  then obtain f where "map_of (files p) (Path (segs p ! a)) = Some f"
    by (cases "map_of (files p) (Path (segs p ! a))") (auto simp: log_names_def map_of_eq_None_iff)
  then have "crash_dir (CurrentSize (segs p ! a) + length f) p (files p)"
    using pc(1,7) by (simp add: crash_dir_def dir_get_def)
  with pc(1) show ?thesis by (intro exI [of _ "CurrentSize (segs p ! a) + length f"] exI [of _ a]) simp
qed

theorem partition_restart_witness:
  "part_rep (NewPartitionProcessor good_recover False 0 ''orders'' 0 0 []
     (files (part_step (OpPushQueue 8 [1]) (fresh_partition 3)))) 3
     [\<lparr>Offset = 3, Timestamp = 8, Payload = [1]\<rparr>]"
proof -
  let ?p = "part_step (OpPushQueue 8 [1]) (fresh_partition 3)"
  have rep: "part_rep ?p 3 [\<lparr>Offset = 3, Timestamp = 8, Payload = [1]\<rparr>]"
    using part_step_log [OF fresh_partition_rep [of 3], of "OpPushQueue 8 [1]"]
    by (simp add: op_ok_def fresh_partition_next payload_ok_def)
  obtain n a where "activeSegment ?p = Some a" "CurrentSize (segs ?p ! a) \<le> n" "crash_dir n ?p (files ?p)"
    using crash_dir_self [OF rep] by blast
  with partition_restart [OF rep, of n "files ?p"] show ?thesis by fastforce
qed

section \<open>Retention\<close>

lemma clean_loop_keeps:
  assumes "\<forall>i \<in> set is. fileOpen (segs p ! i) \<and> (\<exists>t. statTime io (Path (segs p ! i)) = Some t \<and> cutoff \<le> t)"
  shows "clean_loop io cutoff is p rem = (p, rem @ is)"
  using assms
proof (induction "is" arbitrary: rem)
  case (Cons i "is")
  then obtain t where "statTime io (Path (segs p ! i)) = Some t" "cutoff \<le> t" "fileOpen (segs p ! i)" by auto
  with Cons show ?case by (simp add: Let_def)
qed simp

lemma delete_dom: "fst ` set (AList.delete n d) = fst ` set d - {n}"
  by (metis delete_keys set_map set_removeAll)

lemma clean_loop_removes:
  assumes "chain (segs p) (files p) b ys" and "distinct (map fst ys)" and "sorted_wrt (<) (bases b ys)"
    and "\<forall>c \<in> set (bases b ys). \<exists>t. statTime io (fileName c) = Some t \<and> t < cutoff"
    and "\<forall>f. removeOk io f" and "distinct (map fst (files p))"
    and "fileName ` set (bases b ys) \<subseteq> fst ` set (files p)"
  shows "\<exists>p'. clean_loop io cutoff (map fst ys @ is) p rem = clean_loop io cutoff is p' rem
     \<and> p' = p\<lparr>segs := segs p', files := files p'\<rparr> \<and> length (segs p') = length (segs p)
     \<and> (\<forall>i. i \<notin> fst ` set ys \<longrightarrow> segs p' ! i = segs p ! i)
     \<and> (\<forall>n. n \<notin> fileName ` set (bases b ys) \<longrightarrow> map_of (files p') n = map_of (files p) n)
     \<and> fst ` set (files p') = fst ` set (files p) - fileName ` set (bases b ys)
     \<and> distinct (map fst (files p'))"
  using assms
proof (induction ys arbitrary: b p)
  case Nil
  then show ?case by (intro exI [of _ p]) simp
next
  case (Cons y ys)
  obtain i ms where y: "y = (i, ms)" by (cases y)
  let ?e = "b + of_nat (length ms)"
  have h: "seg_holds (segs p) (files p) b i ms" and ch: "chain (segs p) (files p) ?e ys"
    using Cons.prems(1) y by auto
  obtain t where t: "statTime io (fileName b) = Some t" "t < cutoff" using Cons.prems(4) y by auto
  have fresh: "b \<notin> set (bases ?e ys)" using Cons.prems(3) y by auto
  obtain fb where pres: "map_of (files p) (fileName b) = Some fb"
    using Cons.prems(7) y by (cases "map_of (files p) (fileName b)") (auto simp: map_of_eq_None_iff)
  define q where "q = p\<lparr>segs := (segs p)[i := seg_Close (segs p ! i)], files := AList.delete (fileName b) (files p)\<rparr>"
  have step: "clean_loop io cutoff (map fst (y # ys) @ is) p rem = clean_loop io cutoff (map fst ys @ is) q rem"
    using seg_holdsD(2,8) [OF h] t Cons.prems(5) pres by (simp add: y Let_def q_def)
  have "chain (segs q) (files q) ?e ys"
  proof (rule chain_frame [OF ch])
    fix j assume j: "j \<in> fst ` set ys"
    then have "j \<noteq> i" using Cons.prems(2) y by auto
    with j show "j < length (segs q) \<and> segs q ! j = segs p ! j"
      using chain_indices [OF ch] by (simp add: q_def)
  next
    fix c assume "c \<in> set (bases ?e ys)"
    then have "fileName c \<noteq> fileName b" using fresh by auto
    then show "dir_get (files q) (fileName c) = dir_get (files p) (fileName c)"
      by (simp add: q_def dir_get_def delete_conv')
  qed
  moreover have "fst ` set (files q) = fst ` set (files p) - {fileName b}" "distinct (map fst (files q))"
    using Cons.prems(6) delete_dom [of "fileName b" "files p"] by (simp_all add: q_def distinct_delete)
  moreover have "fileName ` set (bases ?e ys) \<subseteq> fst ` set (files q)"
    using Cons.prems(7) fresh y delete_dom [of "fileName b" "files p"] by (auto simp: q_def)
  moreover have "distinct (map fst ys)" "sorted_wrt (<) (bases ?e ys)"
    "\<forall>c \<in> set (bases ?e ys). \<exists>t. statTime io (fileName c) = Some t \<and> t < cutoff"
    using Cons.prems(2-4) y by simp_all
  ultimately obtain p' where p': "clean_loop io cutoff (map fst ys @ is) q rem = clean_loop io cutoff is p' rem"
    "p' = q\<lparr>segs := segs p', files := files p'\<rparr>" "length (segs p') = length (segs q)"
    "\<forall>i. i \<notin> fst ` set ys \<longrightarrow> segs p' ! i = segs q ! i"
    "\<forall>n. n \<notin> fileName ` set (bases ?e ys) \<longrightarrow> map_of (files p') n = map_of (files q) n"
    "fst ` set (files p') = fst ` set (files q) - fileName ` set (bases ?e ys)" "distinct (map fst (files p'))"
    using Cons.IH [of q ?e] Cons.prems(5) by blast
  have "p' = p\<lparr>segs := segs p', files := files p'\<rparr>"
    by (subst p'(2)) (simp add: q_def)
  moreover have "fst ` set (files p') = fst ` set (files p) - fileName ` set (bases b (y # ys))"
    using p'(6) \<open>fst ` set (files q) = fst ` set (files p) - {fileName b}\<close> y by auto
  moreover have "map_of (files p') n = map_of (files p) n" if "n \<notin> fileName ` set (bases b (y # ys))" for n
    using that p'(5) y by (simp add: q_def delete_conv')
  moreover have "segs p' ! j = segs p ! j" if "j \<notin> fst ` set (y # ys)" for j
    using that p'(4) y by (simp add: q_def)
  ultimately show ?case
    using step p'(1,3,7) by (intro exI [of _ p']) (simp add: q_def)
qed

lemma bases_take: "bases b (take j xs) = take j (bases b xs)"
  by (induction xs arbitrary: b j) (auto simp: take_Cons' split: prod.splits)

text \<open>The run of old segments at the front, when modification times follow the offsets.\<close>

lemma old_prefix:
  assumes "sorted_wrt (<) (bases b xs)" and "\<forall>c c' :: u64. c \<le> c' \<longrightarrow> tm c \<le> (tm c' :: int)"
  obtains ys zs where "xs = ys @ zs" "\<forall>c \<in> set (bases b ys). tm c < cutoff"
    "\<forall>c \<in> set (bases (b + of_nat (length (msgs ys))) zs). cutoff \<le> tm c"
proof -
  define j where "j = length (takeWhile (\<lambda>c. tm c < cutoff) (bases b xs))"
  have sp: "bases b xs = bases b (take j xs) @ bases (b + of_nat (length (msgs (take j xs)))) (drop j xs)"
    by (metis append_take_drop_id bases_append)
  have tw: "bases b (take j xs) = takeWhile (\<lambda>c. tm c < cutoff) (bases b xs)"
    unfolding bases_take j_def by (metis takeWhile_eq_take)
  then have dw: "bases (b + of_nat (length (msgs (take j xs)))) (drop j xs)
      = dropWhile (\<lambda>c. tm c < cutoff) (bases b xs)"
    using sp by (metis same_append_eq takeWhile_dropWhile_id)
  have "cutoff \<le> tm c" if c: "c \<in> set (dropWhile (\<lambda>c. tm c < cutoff) (bases b xs))" for c
  proof -
    obtain d ds where ds: "dropWhile (\<lambda>c. tm c < cutoff) (bases b xs) = d # ds"
      using c by (cases "dropWhile (\<lambda>c. tm c < cutoff) (bases b xs)") auto
    then have "\<not> tm d < cutoff" by (simp add: dropWhile_eq_Cons_conv)
    moreover have "sorted_wrt (<) (d # ds)"
      using assms(1) ds sp dw by (metis sorted_wrt_append)
    then have "d \<le> c" using c ds by auto
    ultimately show ?thesis using assms(2) by (meson linorder_not_less order_trans)
  qed
  then show ?thesis
    using that [of "take j xs" "drop j xs"] tw dw by (metis append_take_drop_id set_takeWhileD)
qed

lemma chain_holds:
  "chain ss d e vs \<Longrightarrow> i \<in> fst ` set vs \<Longrightarrow> \<exists>c \<in> set (bases e vs). \<exists>vm. seg_holds ss d c i vm"
proof (induction vs arbitrary: e)
  case (Cons v vs)
  obtain j vm where v: "v = (j, vm)" by (cases v)
  show ?case
  proof (cases "i = j")
    case True
    with Cons.prems(1) v show ?thesis by auto
  next
    case False
    with Cons.prems v Cons.IH [of "e + of_nat (length vm)"] show ?thesis by auto
  qed
qed simp

text \<open>The loop of \<open>CleanOldMessages\<close> removes the old segments at the front and keeps the others.\<close>

lemma clean_loop_chain:
  assumes "part_chain p b (ys @ zs) a ams" and "log_from b (msgs (ys @ zs) @ ams)"
    and "\<forall>c. statTime io (fileName c) = Some (tm c)" and "\<forall>f. removeOk io f"
    and old: "\<forall>c \<in> set (bases b ys). tm c < cutoff"
    and new: "\<forall>c \<in> set (bases (b + of_nat (length (msgs ys))) zs). cutoff \<le> tm c"
  shows "\<exists>q. clean_loop io cutoff (closedSegments p) p [] = (q, map fst zs)
     \<and> q = p\<lparr>segs := segs q, files := files q\<rparr>
     \<and> chain (segs q) (files q) (b + of_nat (length (msgs ys))) (zs @ [(a, ams)])
     \<and> distinct (map fst (files q))
     \<and> log_names (files q) = fileName ` set (bases (b + of_nat (length (msgs ys))) (zs @ [(a, ams)]))"
proof -
  note pc = part_chainD [OF assms(1)]
  let ?b = "b + of_nat (length (msgs ys))" and ?zs = "zs @ [(a, ams)]"
  have sw: "sorted_wrt (<) (bases b ((ys @ zs) @ [(a, ams)]))" by (rule bases_part_sorted [OF assms(1,2)])
  have cy: "chain (segs p) (files p) b ys" and cz: "chain (segs p) (files p) ?b ?zs"
    using pc(9) by (simp_all add: chain_append add.assoc)
  have bb: "bases b ((ys @ zs) @ [(a, ams)]) = bases b ys @ bases ?b ?zs" unfolding append_assoc bases_append ..
  have dis: "c \<notin> set (bases b ys)" if "c \<in> set (bases ?b ?zs)" for c
    using sw that unfolding bb sorted_wrt_append by blast
  have sub: "fileName ` set (bases b ys) \<subseteq> fst ` set (files p)"
    using pc(8) unfolding bb by (auto simp: log_names_def)
  have swy: "sorted_wrt (<) (bases b ys)" using sw unfolding bb sorted_wrt_append by blast
  have dy: "distinct (map fst ys)" using pc(3) by simp
  have st: "\<forall>c \<in> set (bases b ys). \<exists>t. statTime io (fileName c) = Some t \<and> t < cutoff"
    using assms(3) old by simp
  obtain q where q: "clean_loop io cutoff (map fst ys @ map fst zs) p [] = clean_loop io cutoff (map fst zs) q []"
    "q = p\<lparr>segs := segs q, files := files q\<rparr>" "length (segs q) = length (segs p)"
    "\<forall>i. i \<notin> fst ` set ys \<longrightarrow> segs q ! i = segs p ! i"
    "\<forall>n. n \<notin> fileName ` set (bases b ys) \<longrightarrow> map_of (files q) n = map_of (files p) n"
    "fst ` set (files q) = fst ` set (files p) - fileName ` set (bases b ys)" "distinct (map fst (files q))"
    using clean_loop_removes [OF cy dy swy st assms(4) pc(7) sub, of "map fst zs" "[]"] by blast
  have czq: "chain (segs q) (files q) ?b ?zs"
  proof (rule chain_frame [OF cz])
    fix i assume i: "i \<in> fst ` set ?zs"
    then have "i \<notin> fst ` set ys" using pc(3) by auto
    then show "i < length (segs q) \<and> segs q ! i = segs p ! i"
      using q(3,4) chain_indices [OF cz i] by simp
  next
    fix c assume "c \<in> set (bases ?b ?zs)"
    then have "fileName c \<notin> fileName ` set (bases b ys)" using dis by auto
    then show "dir_get (files q) (fileName c) = dir_get (files p) (fileName c)"
      using q(5) by (intro dir_get_cong) blast
  qed
  have "fileOpen (segs q ! i) \<and> (\<exists>t. statTime io (Path (segs q ! i)) = Some t \<and> cutoff \<le> t)"
    if i: "i \<in> fst ` set zs" for i
  proof -
    have "chain (segs q) (files q) ?b zs" using czq by (simp add: chain_append)
    then obtain c vm where c: "c \<in> set (bases ?b zs)" "seg_holds (segs q) (files q) c i vm"
      using chain_holds i by blast
    then show ?thesis using seg_holdsD(2,8) [OF c(2)] assms(3) new by simp
  qed
  then have "clean_loop io cutoff (map fst zs) q [] = (q, map fst zs)"
    using clean_loop_keeps [of "map fst zs" q io cutoff "[]"] by simp
  then have run: "clean_loop io cutoff (closedSegments p) p [] = (q, map fst zs)"
    using q(1) pc(2) by simp
  have lq: "log_names (files q) = log_names (files p) - fileName ` set (bases b ys)"
    unfolding log_names_def q(6) by blast
  have lp: "log_names (files p) = fileName ` set (bases b ys) \<union> fileName ` set (bases ?b ?zs)"
    using pc(8) by (simp only: bb set_append image_Un)
  have disj: "fileName ` set (bases b ys) \<inter> fileName ` set (bases ?b ?zs) = {}"
    using dis by (fastforce simp del: bases.simps)
  have "log_names (files q) = fileName ` set (bases ?b ?zs)"
    unfolding lq lp using disj by blast
  with run q(2,7) czq show ?thesis by blast
qed


definition clean_sample :: clean_io where
  "clean_sample = \<lparr>statTime = (\<lambda>_. Some 7), removeOk = (\<lambda>_. True)\<rparr>"


section \<open>The consumer stream\<close>

text \<open>
  The turns of one stream goroutine, each on the partition as it finds it (the list of states):
  what it sends to the consumer and the offset it has reached.
\<close>

fun stream_run :: "partition list \<Rightarrow> u64 \<Rightarrow> message list \<times> u64" where
  "stream_run [] cur = ([], cur)"
| "stream_run (p # ps) cur =
     (case getStream_turn no_faults False p cur of
        StreamClose \<Rightarrow> ([], cur)
      | StreamWait \<Rightarrow> stream_run ps cur
      | StreamSleep \<Rightarrow> stream_run ps cur
      | StreamSkip c \<Rightarrow> stream_run ps c
      | StreamEmit m c \<Rightarrow> (case stream_run ps c of (ms, c') \<Rightarrow> (m # ms, c')))"

lemma stream_turn_emit:
  assumes "part_rep p b ms" and "k < length ms" and "\<not> pdone p"
  shows "getStream_turn no_faults False p (b + of_nat k) = StreamEmit (ms ! k) (b + of_nat (Suc k))"
proof -
  have "b + of_nat k < nextOffset p" using batch_cond [OF assms(1), of k] assms(2) by simp
  moreover obtain i where "findSegment (b + of_nat k) p = Some i"
    "seg_Read_at no_faults (b + of_nat k) i p = Inr (ms ! k)"
    using batch_step [OF assms(1,2)] by blast
  ultimately show ?thesis
    using assms(3) by (simp add: getStream_turn_def stream_wait_loop_def stream_body_def ac_simps)
qed

lemma stream_turn_wait:
  assumes "part_rep p b ms" and "length ms \<le> k" and "\<not> pdone p" and "unat b + k < 2 ^ 64"
  shows "getStream_turn no_faults False p (b + of_nat k) = StreamWait"
proof -
  note ok = part_okD [OF part_rep_okD [OF assms(1)]]
  have "unat (nextOffset p) = unat b + length ms" using log_from_next_unat [OF ok(1)] ok(3) by simp
  moreover have "unat (b + of_nat k) = unat b + k" by (rule unat_add_of_nat [OF assms(4)])
  ultimately have "nextOffset p \<le> b + of_nat k" using assms(2) by (simp add: word_le_nat_alt)
  with assms(3) show ?thesis by (simp add: getStream_turn_def stream_wait_loop_def)
qed



section \<open>Shutdown and a failed start\<close>

text \<open>Stopping a partition does not end its idle streams. A stream that has read to the end and
  sleeps in \<open>cond.Wait\<close> is woken by the stop, but its wait loop tests only the request's context and
  the offset, so it sleeps again and its channel is never closed; a goroutine at the top of its loop
  would have closed it.\<close>

theorem stopped_partition_stream_sleeps:
  assumes "StopAndRemove removeOk' force p = (r, p')" and "nextOffset p \<le> cur"
  shows "state p' = PartitionDeleted \<and> pdone p' \<and> getStream_wake fault False p' cur = StreamWait
     \<and> getStream_turn fault False p' cur = StreamClose"
  using assms
  by (auto simp: StopAndRemove_def CloseAllSegments_def getStream_wake_def getStream_turn_def
      stream_wait_loop_def split: option.splits if_splits)

theorem stopped_partition_stream_sleeps_witness:
  "getStream_wake no_faults False (snd (StopAndRemove True True (fresh_partition 3))) 3 = StreamWait"
  using stopped_partition_stream_sleeps [of True True "fresh_partition 3" _ _ 3, OF prod.collapse [symmetric]]
  by (simp add: fresh_partition_next)

text \<open>After \<open>StopAndRemove\<close> no operation of the write path changes the partition.\<close>

lemma stopped_partition_refuses:
  assumes "state p = PartitionDeleted"
  shows "AppendEntry io off ts pl p = ((nextOffset p, Some EPartitionStopped), p)"
    and "InvalidateOffset tio off p = (Some EPartitionStopped, p)"
  using assms by (simp_all add: AppendEntry_def InvalidateOffset_def)

text \<open>A start whose directory cannot be created or read. The error is only logged: the partition
  reports itself active with no active segment, and then the first append, the periodic retention
  run and the shutdown each panic on the nil segment.\<close>

theorem failed_recovery_panics:
  assumes "\<not> mkdirOk io \<or> \<not> readDirOk io"
  shows "state (NewPartitionProcessor io dn i t off ttl' r d) = PartitionActive
     \<and> AppendEntry lio off ts pl (NewPartitionProcessor io dn i t off ttl' r d)
        = ((off, Some EPanic), NewPartitionProcessor io dn i t off ttl' r d)
     \<and> fst (CleanOldMessages cio now ttl'' (NewPartitionProcessor io dn i t off ttl' r d)) = Some EPanic
     \<and> fst (StopAndRemove rok force (NewPartitionProcessor io dn i t off ttl' r d)) = Some EPanic"
  using assms
  by (auto simp: NewPartitionProcessor_def recoverSegments_def AppendEntry_def appendLocked_def
      CleanOldMessages_def StopAndRemove_def CloseAllSegments_def Let_def)

theorem failed_recovery_panics_witness:
  "fst (CleanOldMessages clean_sample 9 5
     (NewPartitionProcessor (good_recover\<lparr>mkdirOk := False\<rparr>) False 0 ''orders'' 0 5 [] [])) = Some EPanic"
  using failed_recovery_panics [of "good_recover\<lparr>mkdirOk := False\<rparr>"] by simp

end
