(* ===== verification/Topic.thy ===== *)
theory Topic
  imports PartitionLife
begin

text \<open>
  One topic on one node, \<open>server/broker/topic_proccessor.go\<close>: the map of its local partitions and
  the replicated write \<open>ReplicateAndAppend\<close>.

  \<open>ClusterPeerProvider\<close> is an interface of the source; it is the record \<open>cluster_net\<close>, whose
  remote calls act on a world \<open>'w\<close> (the other nodes) and may fail to return an answer although they
  took effect. The theory \<open>Cluster\<close> supplies the real one, made of the brokers' own handlers. The
  goroutines of one write address different nodes; they are run in the order of the replica list.
  The messages are those of \<open>replication.proto\<close>.
\<close>

section \<open>Messages of the replication service\<close>

record append_request =
  arTerm :: u64
  arLeaderId :: "32 word"
  arTopicName :: string
  arPartitionId :: u32
  arTargetOffset :: u64
  arPayload :: bytes
  arTimestamp :: i64

record append_response =
  Success :: bool
  MatchOffset :: u64
  NotInSync :: bool

record invalidate_request =
  irTerm :: u64
  irLeaderId :: "32 word"
  irTopicName :: string
  irPartitionId :: u32
  irTargetOffset :: u64

datatype invalidate_ack = AckOk | AckErr string

record 'w cluster_net =
  netNodeId :: int
  netEpoch :: i64
  netHasClient :: "int \<Rightarrow> bool"  \<comment> \<open>\<open>GetGrpcClient\<close> returns a client\<close>
  netAppendEntries :: "int \<Rightarrow> append_request \<Rightarrow> 'w \<Rightarrow> append_response option \<times> 'w"
  netInvalidate :: "int \<Rightarrow> invalidate_request \<Rightarrow> 'w \<Rightarrow> invalidate_ack option \<times> 'w"

section \<open>The topic processor\<close>

record topic_partition =
  Id_tp :: int
  Replicas :: "replica list"
  Retention :: int
  StartOffset :: u64

record topic_processor =
  id_t :: nat
  Name :: string
  partitions :: "(int, partition) gomap"
  tdone :: bool

text \<open>The disk as a partition that is created now finds it.\<close>

type_synonym disk_env = "string \<Rightarrow> int \<Rightarrow> recover_io \<times> dir"

definition make_partition :: "disk_env \<Rightarrow> topic_processor \<Rightarrow> topic_partition \<Rightarrow> partition" where
  "make_partition env tp part =
     NewPartitionProcessor (fst (env (Name tp) (Id_tp part))) (tdone tp) (Id_tp part) (Name tp)
       (StartOffset part) (Retention part) (Replicas part) (snd (env (Name tp) (Id_tp part)))"

definition NewTopicProcessor ::
  "disk_env \<Rightarrow> bool \<Rightarrow> nat \<Rightarrow> string \<Rightarrow> topic_partition list \<Rightarrow> topic_processor" where
  "NewTopicProcessor env parentDone i name parts =
     fold (\<lambda>part tp. tp\<lparr>partitions := AList.update (Id_tp part) (make_partition env tp part) (partitions tp)\<rparr>)
       parts \<lparr>id_t = i, Name = name, partitions = [], tdone = parentDone\<rparr>"

definition GetPartition :: "int \<Rightarrow> topic_processor \<Rightarrow> go_error + partition" where
  "GetPartition i tp = (case map_of (partitions tp) i of None \<Rightarrow> Inl ENotFoundPartition | Some p \<Rightarrow> Inr p)"

definition put_partition :: "int \<Rightarrow> partition \<Rightarrow> topic_processor \<Rightarrow> topic_processor" where
  "put_partition i p tp = tp\<lparr>partitions := AList.update i p (partitions tp)\<rparr>"

text \<open>The partition leaves the map before it is stopped; what it leaves on disk is the third result.\<close>

definition DeletePartition ::
  "bool \<Rightarrow> int \<Rightarrow> bool \<Rightarrow> topic_processor \<Rightarrow> go_error option \<times> topic_processor \<times> partition option" where
  "DeletePartition removeAllOk partID forceDelete tp =
     (case map_of (partitions tp) partID of
        None \<Rightarrow> (Some ENotFoundPartition, tp, None)
      | Some p \<Rightarrow>
          (case StopAndRemove removeAllOk forceDelete (p\<lparr>state := PartitionStopping\<rparr>) of
             (e, p') \<Rightarrow> (e, tp\<lparr>partitions := AList.delete partID (partitions tp)\<rparr>, Some p')))"

definition EnsurePartition ::
  "disk_env \<Rightarrow> topic_partition \<Rightarrow> topic_processor \<Rightarrow> (partition \<times> bool) \<times> topic_processor" where
  "EnsurePartition env part tp =
     (case map_of (partitions tp) (Id_tp part) of
        Some p \<Rightarrow> ((p, False), tp)
      | None \<Rightarrow>
          let p = make_partition env tp part
          in ((p, True), put_partition (Id_tp part) p tp))"

definition ListPartitions :: "topic_processor \<Rightarrow> int list" where
  "ListPartitions tp = map fst (partitions tp)"

section \<open>The replicated write\<close>

text \<open>Step 3: the push to every other assigned replica; the replicas called and those that acknowledged.\<close>

fun push_all ::
  "'w cluster_net \<Rightarrow> append_request \<Rightarrow> replica list \<Rightarrow> 'w \<Rightarrow> int list \<times> int list \<times> 'w" where
  "push_all net req [] w = ([], [], w)"
| "push_all net req (r # rs) w =
     (if Id r = netNodeId net then push_all net req rs w
      else if \<not> netHasClient net (Id r) then push_all net req rs w
      else case netAppendEntries net (Id r) req w of
        (res, w1) \<Rightarrow>
          (case push_all net req rs w1 of
             (pushed, acked, w2) \<Rightarrow>
               (Id r # pushed,
                (case res of None \<Rightarrow> acked | Some a \<Rightarrow> if Success a then Id r # acked else acked), w2)))"

fun invalidateReplicas :: "'w cluster_net \<Rightarrow> invalidate_request \<Rightarrow> int list \<Rightarrow> 'w \<Rightarrow> 'w" where
  "invalidateReplicas net req [] w = w"
| "invalidateReplicas net req (t # ts) w =
     invalidateReplicas net req ts (snd (netInvalidate net t req w))"

text \<open>Step 4: the in-sync replicas other than the leader, and those of them that acknowledged.\<close>

definition isr_others :: "int \<Rightarrow> replica list \<Rightarrow> replica list" where
  "isr_others leaderID rs = filter (\<lambda>r. Id r \<noteq> leaderID \<and> InSync r) rs"

definition isrTotal :: "int \<Rightarrow> replica list \<Rightarrow> nat" where
  "isrTotal leaderID rs = 1 + length (isr_others leaderID rs)"

definition isrAcked :: "int \<Rightarrow> int list \<Rightarrow> replica list \<Rightarrow> nat" where
  "isrAcked leaderID acked rs = 1 + length (filter (\<lambda>r. Id r \<in> set acked) (isr_others leaderID rs))"

definition append_req :: "'w cluster_net \<Rightarrow> string \<Rightarrow> int \<Rightarrow> u64 \<Rightarrow> bytes \<Rightarrow> i64 \<Rightarrow> append_request" where
  "append_req net topic partitionID targetOffset payload timestamp =
     \<lparr>arTerm = netEpoch net, arLeaderId = of_int (netNodeId net), arTopicName = topic,
      arPartitionId = of_int partitionID, arTargetOffset = targetOffset, arPayload = payload,
      arTimestamp = timestamp\<rparr>"

definition invalidate_req :: "'w cluster_net \<Rightarrow> string \<Rightarrow> int \<Rightarrow> u64 \<Rightarrow> invalidate_request" where
  "invalidate_req net topic partitionID targetOffset =
     \<lparr>irTerm = netEpoch net, irLeaderId = of_int (netNodeId net), irTopicName = topic,
      irPartitionId = of_int partitionID, irTargetOffset = targetOffset\<rparr>"

text \<open>
  The write in the three stretches that other goroutines can interleave with: reading replicas and
  target offset, replicating, committing on the leader's partition as it is by then.
\<close>

definition produce_prepare :: "int \<Rightarrow> topic_processor \<Rightarrow> go_error + replica list \<times> u64" where
  "produce_prepare partitionID tp =
     (case GetPartition partitionID tp of
        Inl e \<Rightarrow> Inl e
      | Inr p \<Rightarrow> Inr (GetReplicas p, GetNextOffset p))"

definition produce_replicate ::
  "'w cluster_net \<Rightarrow> append_request \<Rightarrow> replica list \<Rightarrow> 'w \<Rightarrow> (go_error + int list) \<times> 'w" where
  "produce_replicate net req rs w =
     (case push_all net req rs w of
        (pushed, acked, w1) \<Rightarrow>
          if isrAcked (netNodeId net) acked rs < isrTotal (netNodeId net) rs
          then (Inl (EQuorumBroken (isrAcked (netNodeId net) acked rs) (isrTotal (netNodeId net) rs)), w1)
          else (Inr pushed, w1))"

definition produce_commit ::
  "'w cluster_net \<Rightarrow> lock_io \<Rightarrow> int \<Rightarrow> u64 \<Rightarrow> i64 \<Rightarrow> bytes \<Rightarrow> int list \<Rightarrow> topic_processor \<Rightarrow> 'w
     \<Rightarrow> (go_error + u64) \<times> topic_processor \<times> 'w" where
  "produce_commit net io partitionID targetOffset timestamp payload pushed tp w =
     (case GetPartition partitionID tp of
        Inl e \<Rightarrow> (Inl e, tp, w)
      | Inr p \<Rightarrow>
          (case AppendEntry io targetOffset timestamp payload p of
             ((finalOffset, None), p') \<Rightarrow> (Inr finalOffset, put_partition partitionID p' tp, w)
           | ((_, Some e), p') \<Rightarrow>
               (Inl (ELeaderCommit e), put_partition partitionID p' tp,
                invalidateReplicas net (invalidate_req net (Name tp) partitionID targetOffset) pushed w)))"

definition ReplicateAndAppend ::
  "'w cluster_net \<Rightarrow> lock_io \<Rightarrow> i64 \<Rightarrow> int \<Rightarrow> bytes \<Rightarrow> topic_processor \<Rightarrow> 'w
     \<Rightarrow> (go_error + u64) \<times> topic_processor \<times> 'w" where
  "ReplicateAndAppend net io now partitionID payload tp w =
     (case produce_prepare partitionID tp of
        Inl e \<Rightarrow> (Inl e, tp, w)
      | Inr (rs, targetOffset) \<Rightarrow>
          (case produce_replicate net (append_req net (Name tp) partitionID targetOffset payload now) rs w of
             (Inl e, w1) \<Rightarrow> (Inl e, tp, w1)
           | (Inr pushed, w1) \<Rightarrow>
               produce_commit net io partitionID targetOffset now payload pushed tp w1))"

end
