(* ===== verification/Pool.thy ===== *)
theory Pool
  imports Topic
begin

text \<open>
  The topics of one node, \<open>server/broker/pool.go\<close>: a map from names to indices into a slice of
  topic processors, a removed topic leaving a nil entry in the slice. Dereferencing a nil processor
  or indexing outside the slice is the value \<open>EPanic\<close>; the invariant \<open>pool_ok\<close> excludes both.
\<close>

section \<open>State and operations\<close>

record pool =
  topicProcessor :: "(string, nat) gomap"
  processors :: "topic_processor option list"
  nextId :: nat
  pooldone :: bool

definition NewProcessorPool :: "bool \<Rightarrow> pool" where
  "NewProcessorPool parentDone = \<lparr>topicProcessor = [], processors = [], nextId = 0, pooldone = parentDone\<rparr>"

definition processor_at :: "pool \<Rightarrow> nat \<Rightarrow> go_error + topic_processor" where
  "processor_at pl i =
     (if i < length (processors pl)
      then (case processors pl ! i of None \<Rightarrow> Inl EPanic | Some tp \<Rightarrow> Inr tp) else Inl EPanic)"

definition EnsureTopic :: "disk_env \<Rightarrow> string \<Rightarrow> topic_partition list \<Rightarrow> pool \<Rightarrow> topic_processor \<times> pool" where
  "EnsureTopic env name parts pl =
     (case (case map_of (topicProcessor pl) name of None \<Rightarrow> Inl ETopicNotExist | Some i \<Rightarrow> processor_at pl i) of
        Inr tp \<Rightarrow> (tp, pl)
      | Inl _ \<Rightarrow>
          let tp = NewTopicProcessor env (pooldone pl) (nextId pl) name parts
          in (tp, pl\<lparr>topicProcessor := AList.update name (nextId pl) (topicProcessor pl),
                     processors := processors pl @ [Some tp], nextId := nextId pl + 1\<rparr>))"

definition GetTopicProcessor :: "string \<Rightarrow> pool \<Rightarrow> go_error + topic_processor" where
  "GetTopicProcessor name pl =
     (case map_of (topicProcessor pl) name of None \<Rightarrow> Inl ETopicNotExist | Some i \<Rightarrow> processor_at pl i)"

definition put_topic :: "string \<Rightarrow> topic_processor \<Rightarrow> pool \<Rightarrow> pool" where
  "put_topic name tp pl =
     (case map_of (topicProcessor pl) name of None \<Rightarrow> pl
      | Some i \<Rightarrow> pl\<lparr>processors := (processors pl)[i := Some tp]\<rparr>)"

definition ListTopics :: "pool \<Rightarrow> string list" where
  "ListTopics pl = map fst (filter (\<lambda>(name, i). i < length (processors pl) \<and> processors pl ! i \<noteq> None)
     (topicProcessor pl))"

text \<open>\<open>processor.Stop()\<close> cancels the topic's context and with it those of its partitions.\<close>

definition stop_topic :: "topic_processor \<Rightarrow> topic_processor" where
  "stop_topic tp = tp\<lparr>tdone := True, partitions := map (\<lambda>(i, p). (i, p\<lparr>pdone := True\<rparr>)) (partitions tp)\<rparr>"

text \<open>
  The loop \<open>for partId := range processor.ListPartitions()\<close> takes the indices of the slice, \<open>0\<close> to
  the number of partitions less one. The result has the processor that was taken out of the pool.
\<close>

definition delete_by_index :: "bool \<Rightarrow> bool \<Rightarrow> nat \<Rightarrow> topic_processor \<Rightarrow> topic_processor" where
  "delete_by_index removeAllOk force n tp =
     fold (\<lambda>i tp. fst (snd (DeletePartition removeAllOk (int i) force tp))) [0..<n] tp"

definition RemoveTopic :: "string \<Rightarrow> pool \<Rightarrow> go_error option \<times> pool \<times> topic_processor option" where
  "RemoveTopic name pl =
     (case GetTopicProcessor name pl of
        Inl e \<Rightarrow> (Some e, pl, None)
      | Inr tp \<Rightarrow>
          let i = the (map_of (topicProcessor pl) name);
              pl' = pl\<lparr>processors := (processors pl)[i := None],
                       topicProcessor := AList.delete name (topicProcessor pl)\<rparr>;
              tp1 = stop_topic tp
          in (None, pl', Some (delete_by_index True False (length (ListPartitions tp1)) tp1)))"

definition SendMessage ::
  "'w cluster_net \<Rightarrow> lock_io \<Rightarrow> i64 \<Rightarrow> string \<Rightarrow> int \<Rightarrow> bytes \<Rightarrow> pool \<Rightarrow> 'w
     \<Rightarrow> go_error option \<times> pool \<times> 'w" where
  "SendMessage net io now topic partitionId message pl w =
     (case GetTopicProcessor topic pl of
        Inl e \<Rightarrow> (Some e, pl, w)
      | Inr tp \<Rightarrow>
          (case ReplicateAndAppend net io now partitionId message tp w of
             (r, tp', w') \<Rightarrow>
               ((case r of Inl e \<Rightarrow> Some e | Inr _ \<Rightarrow> None), put_topic topic tp' pl, w')))"

datatype offset_tag = NoTag | FromBeginning | TillEnd

record offset_spec =
  Value :: u64
  Tag :: offset_tag

definition ReadMessages ::
  "faults \<Rightarrow> string \<Rightarrow> int \<Rightarrow> offset_spec \<Rightarrow> offset_spec \<Rightarrow> pool \<Rightarrow> go_error + message list \<times> u64 option" where
  "ReadMessages fault topic partitionId start till pl =
     sbind (GetTopicProcessor topic pl) (\<lambda>tp.
     sbind (GetPartition partitionId tp) (\<lambda>p.
       let start' = (if Tag start = FromBeginning then GetStartOffset p else Value start);
           till' = (if Tag till = TillEnd then GetLastOffset p else Value till)
       in readFrom fault start' (sint (till' - start')) (Tag till = TillEnd) p p))"

section \<open>The invariant\<close>

text \<open>
  Every name is bound to its own live entry of the slice, which carries that name and a partition
  map with distinct keys; fresh indices are beyond the slice.
\<close>

definition pool_ok :: "pool \<Rightarrow> bool" where
  "pool_ok pl \<longleftrightarrow> nextId pl = length (processors pl) \<and> distinct (map fst (topicProcessor pl))
     \<and> distinct (map snd (topicProcessor pl))
     \<and> (\<forall>(name, i) \<in> set (topicProcessor pl). i < length (processors pl)
          \<and> (\<exists>tp. processors pl ! i = Some tp \<and> Name tp = name \<and> distinct (map fst (partitions tp))))"

lemma pool_okD:
  assumes "pool_ok pl" "map_of (topicProcessor pl) name = Some i"
  shows "i < length (processors pl)"
    "\<exists>tp. processors pl ! i = Some tp \<and> Name tp = name \<and> distinct (map fst (partitions tp))"
  using assms map_of_SomeD [OF assms(2)] by (auto simp: pool_ok_def)

lemma pool_ok_inj:
  "pool_ok pl \<Longrightarrow> map_of (topicProcessor pl) a = Some i \<Longrightarrow> map_of (topicProcessor pl) b = Some i \<Longrightarrow> a = b"
  using pool_okD(2) [of pl a i] pool_okD(2) [of pl b i] by auto

definition get_topic :: "string \<Rightarrow> pool \<Rightarrow> topic_processor option" where
  "get_topic name pl = (case GetTopicProcessor name pl of Inl e \<Rightarrow> None | Inr tp \<Rightarrow> Some tp)"

lemma GetTopicProcessor_some:
  "pool_ok pl \<Longrightarrow> map_of (topicProcessor pl) name = Some i \<Longrightarrow>
   \<exists>tp. GetTopicProcessor name pl = Inr tp \<and> processors pl ! i = Some tp \<and> Name tp = name
      \<and> distinct (map fst (partitions tp))"
  using pool_okD [of pl name i] by (auto simp: GetTopicProcessor_def processor_at_def)

lemma get_topic_conv:
  "pool_ok pl \<Longrightarrow> get_topic name pl = Some tp \<longleftrightarrow>
   (\<exists>i. map_of (topicProcessor pl) name = Some i \<and> processors pl ! i = Some tp)"
  using GetTopicProcessor_some [of pl name]
  by (cases "map_of (topicProcessor pl) name") (auto simp: get_topic_def GetTopicProcessor_def)

lemma GetTopicProcessor_get_topic:
  "pool_ok pl \<Longrightarrow> GetTopicProcessor name pl = (case get_topic name pl of None \<Rightarrow> Inl ETopicNotExist | Some tp \<Rightarrow> Inr tp)"
  using GetTopicProcessor_some [of pl name]
  by (cases "map_of (topicProcessor pl) name") (auto simp: get_topic_def GetTopicProcessor_def)

definition same_topic :: "string \<Rightarrow> topic_processor \<Rightarrow> topic_processor \<Rightarrow> bool" where
  "same_topic name tp tp' \<longleftrightarrow> Name tp' = Name tp \<and> distinct (map fst (partitions tp'))"

interpretation topics: keyed_store pool_ok get_topic put_topic same_topic
proof unfold_locales
  fix pl k j and u v :: topic_processor
  assume ok: "pool_ok pl" and g: "get_topic k pl = Some u" and f: "same_topic k u v"
  then obtain i where i: "map_of (topicProcessor pl) k = Some i" "processors pl ! i = Some u"
    by (auto simp: get_topic_conv)
  have il: "i < length (processors pl)" using pool_okD [OF ok i(1)] by simp
  have n: "Name u = k" using pool_okD(2) [OF ok i(1)] i(2) by auto
  have inj: "name = k" if "(name, i) \<in> set (topicProcessor pl)" for name
  proof -
    have "map_of (topicProcessor pl) name = Some i" using that ok by (simp add: pool_ok_def map_of_is_SomeI)
    then show ?thesis using pool_ok_inj [OF ok _ i(1)] by blast
  qed
  show ok': "pool_ok (put_topic k v pl)"
    unfolding pool_ok_def
  proof (intro conjI ballI)
    fix x assume x: "x \<in> set (topicProcessor (put_topic k v pl))"
    obtain name l where nl: "x = (name, l)" by (cases x)
    with x i have "(name, l) \<in> set (topicProcessor pl)" by (simp add: put_topic_def)
    moreover from this have "l < length (processors pl)"
      "\<exists>tp. processors pl ! l = Some tp \<and> Name tp = name \<and> distinct (map fst (partitions tp))"
      using ok by (auto simp: pool_ok_def)
    ultimately show "case x of (name, l) \<Rightarrow> l < length (processors (put_topic k v pl))
        \<and> (\<exists>tp. processors (put_topic k v pl) ! l = Some tp \<and> Name tp = name \<and> distinct (map fst (partitions tp)))"
      using nl i f n inj il by (cases "l = i") (auto simp: put_topic_def same_topic_def)
  qed (use ok i in \<open>auto simp: pool_ok_def put_topic_def\<close>)
  show "get_topic k (put_topic k v pl) = Some v"
    using i il by (simp add: get_topic_def GetTopicProcessor_def put_topic_def processor_at_def)
  assume "j \<noteq> k"
  then have "map_of (topicProcessor pl) j \<noteq> Some i" using pool_ok_inj [OF ok _ i(1)] by blast
  then show "get_topic j (put_topic k v pl) = get_topic j pl"
    using i by (auto simp: get_topic_def GetTopicProcessor_def put_topic_def processor_at_def split: option.splits)
qed

section \<open>Every operation keeps the invariant\<close>

lemma NewProcessorPool_ok: "pool_ok (NewProcessorPool d)"
  by (simp add: pool_ok_def NewProcessorPool_def)

lemma NewTopicProcessor_ok:
  "Name (NewTopicProcessor env d i name parts) = name
   \<and> distinct (map fst (partitions (NewTopicProcessor env d i name parts)))"
proof -
  have "Name (fold (\<lambda>part tp. tp\<lparr>partitions := AList.update (Id_tp part) (make_partition env tp part) (partitions tp)\<rparr>) parts tp) = Name tp
    \<and> (distinct (map fst (partitions tp)) \<longrightarrow> distinct (map fst (partitions
        (fold (\<lambda>part tp. tp\<lparr>partitions := AList.update (Id_tp part) (make_partition env tp part) (partitions tp)\<rparr>) parts tp))))" for tp
    by (induction parts arbitrary: tp) (simp_all add: distinct_update)
  then show ?thesis by (simp add: NewTopicProcessor_def)
qed

lemma EnsureTopic_new:
  assumes "pool_ok pl" and "map_of (topicProcessor pl) name = None"
    and "EnsureTopic env name parts pl = (tp, pl')"
  shows "pool_ok pl'" and "get_topic name pl' = Some tp" and "j \<noteq> name \<Longrightarrow> get_topic j pl' = get_topic j pl"
proof -
  let ?tp = "NewTopicProcessor env (pooldone pl) (nextId pl) name parts"
  have tp: "tp = ?tp" and pl': "topicProcessor pl' = AList.update name (nextId pl) (topicProcessor pl)"
    "processors pl' = processors pl @ [Some ?tp]" "nextId pl' = nextId pl + 1"
    using assms(2,3) by (auto simp: EnsureTopic_def Let_def)
  have n: "nextId pl = length (processors pl)" using assms(1) by (simp add: pool_ok_def)
  have up: "AList.update name (nextId pl) (topicProcessor pl) = topicProcessor pl @ [(name, nextId pl)]"
    using assms(2) by (simp add: update_new map_of_eq_None_iff)
  show "pool_ok pl'"
    using assms(1,2) NewTopicProcessor_ok [of env "pooldone pl" "nextId pl" name parts]
    unfolding pool_ok_def pl' up
    by (fastforce simp: n nth_append map_of_eq_None_iff)
  show "get_topic name pl' = Some tp"
    by (simp add: get_topic_def GetTopicProcessor_def processor_at_def pl' n tp update_conv')
  assume "j \<noteq> name"
  then show "get_topic j pl' = get_topic j pl"
    using pool_okD(1) [OF assms(1), of j]
    by (auto simp: get_topic_def GetTopicProcessor_def processor_at_def pl' update_conv' nth_append split: option.splits)
qed

lemma EnsureTopic_present:
  "pool_ok pl \<Longrightarrow> get_topic name pl = Some tp \<Longrightarrow> EnsureTopic env name parts pl = (tp, pl)"
  using GetTopicProcessor_get_topic [of pl name]
  by (auto simp: EnsureTopic_def GetTopicProcessor_def split: option.splits)

lemma EnsureTopic_get:
  assumes "pool_ok pl" and "EnsureTopic env name parts pl = (tp, pl')"
  shows "pool_ok pl' \<and> get_topic name pl' = Some tp \<and> (\<forall>j. j \<noteq> name \<longrightarrow> get_topic j pl' = get_topic j pl)"
proof (cases "get_topic name pl")
  case None
  then have "map_of (topicProcessor pl) name = None"
    using GetTopicProcessor_some [OF assms(1), of name]
    by (cases "map_of (topicProcessor pl) name") (auto simp: get_topic_def)
  with EnsureTopic_new [OF assms(1) _ assms(2)] show ?thesis by blast
next
  case (Some u)
  with EnsureTopic_present [OF assms(1) Some] assms show ?thesis by simp
qed

subsection \<open>Removing a topic\<close>

lemma DeletePartition_parts:
  "partitions (fst (snd (DeletePartition ra i force tp)))
     = (if map_of (partitions tp) i = None then partitions tp else AList.delete i (partitions tp))"
  "Name (fst (snd (DeletePartition ra i force tp))) = Name tp"
  by (auto simp: DeletePartition_def split: option.splits prod.splits)

lemma delete_by_index_lookup:
  "map_of (partitions (delete_by_index ra force n tp)) i =
     (if 0 \<le> i \<and> i < int n then None else map_of (partitions tp) i)"
proof (induction n)
  case 0
  then show ?case by (auto simp: delete_by_index_def)
next
  case (Suc n)
  have "delete_by_index ra force (Suc n) tp
      = fst (snd (DeletePartition ra (int n) force (delete_by_index ra force n tp)))"
    by (simp add: delete_by_index_def)
  then show ?case
    using Suc by (auto simp: DeletePartition_parts delete_conv')
qed

lemma RemoveTopic_ok:
  assumes "pool_ok pl" and "RemoveTopic name pl = (e, pl', old)"
  shows "pool_ok pl' \<and> get_topic name pl' = None \<and> (\<forall>j. j \<noteq> name \<longrightarrow> get_topic j pl' = get_topic j pl)"
proof (cases "map_of (topicProcessor pl) name")
  case None
  with assms show ?thesis by (auto simp: RemoveTopic_def get_topic_def GetTopicProcessor_def)
next
  case (Some i)
  obtain tp where tp: "GetTopicProcessor name pl = Inr tp"
    using GetTopicProcessor_some [OF assms(1) Some] by blast
  have pl': "pl' = pl\<lparr>processors := (processors pl)[i := None], topicProcessor := AList.delete name (topicProcessor pl)\<rparr>"
    using assms(2) tp Some by (simp add: RemoveTopic_def Let_def)
  have sub: "set (AList.delete name (topicProcessor pl)) \<subseteq> set (topicProcessor pl)"
    by (simp add: AList.delete_eq)
  have other: "l \<noteq> i" if "(j, l) \<in> set (AList.delete name (topicProcessor pl))" for j l
  proof -
    have "(j, l) \<in> set (topicProcessor pl)" "j \<noteq> name" using that by (auto simp: AList.delete_eq)
    moreover from this have "map_of (topicProcessor pl) j = Some l"
      using assms(1) by (simp add: pool_ok_def map_of_is_SomeI)
    ultimately show ?thesis using pool_ok_inj [OF assms(1) Some] by blast
  qed
  have "pool_ok pl'"
    unfolding pool_ok_def
  proof (intro conjI ballI)
    show "nextId pl' = length (processors pl')" using assms(1) pl' by (simp add: pool_ok_def)
    show "distinct (map fst (topicProcessor pl'))" using assms(1) pl' by (simp add: pool_ok_def distinct_delete)
    show "distinct (map snd (topicProcessor pl'))"
      using assms(1) pl' by (simp add: pool_ok_def AList.delete_eq distinct_map_filter)
    fix x assume x: "x \<in> set (topicProcessor pl')"
    obtain j l where jl: "x = (j, l)" by (cases x)
    have d: "(j, l) \<in> set (AList.delete name (topicProcessor pl))" using x jl pl' by simp
    then have "(j, l) \<in> set (topicProcessor pl)" using sub by blast
    then show "case x of (name, i) \<Rightarrow> i < length (processors pl')
        \<and> (\<exists>tp. processors pl' ! i = Some tp \<and> Name tp = name \<and> distinct (map fst (partitions tp)))"
      using assms(1) other [OF d] jl pl' by (auto simp: pool_ok_def)
  qed
  moreover have "get_topic name pl' = None"
    by (simp add: get_topic_def GetTopicProcessor_def pl' delete_conv')
  moreover have "get_topic j pl' = get_topic j pl" if "j \<noteq> name" for j
  proof -
    have "map_of (topicProcessor pl) j \<noteq> Some i" using pool_ok_inj [OF assms(1) Some] that by blast
    then show ?thesis
      using that by (auto simp: get_topic_def GetTopicProcessor_def processor_at_def pl' delete_conv'
          split: option.splits)
  qed
  ultimately show ?thesis by blast
qed

subsection \<open>The pool as a machine\<close>

datatype pool_op =
    PoolEnsure string "topic_partition list"
  | PoolRemove string
  | PoolEnsurePartition string topic_partition
  | PoolDeletePartition string int bool
  | PoolUpdate string int partition  \<comment> \<open>an operation of a partition left it in this state\<close>

fun on_topic :: "string \<Rightarrow> (topic_processor \<Rightarrow> topic_processor) \<Rightarrow> pool \<Rightarrow> pool" where
  "on_topic name f pl = (case GetTopicProcessor name pl of Inl e \<Rightarrow> pl | Inr tp \<Rightarrow> put_topic name (f tp) pl)"

fun pool_step :: "disk_env \<Rightarrow> pool_op \<Rightarrow> pool \<Rightarrow> pool" where
  "pool_step env (PoolEnsure name parts) pl = snd (EnsureTopic env name parts pl)"
| "pool_step env (PoolRemove name) pl = fst (snd (RemoveTopic name pl))"
| "pool_step env (PoolEnsurePartition name part) pl = on_topic name (\<lambda>tp. snd (EnsurePartition env part tp)) pl"
| "pool_step env (PoolDeletePartition name i force) pl = on_topic name (\<lambda>tp. fst (snd (DeletePartition True i force tp))) pl"
| "pool_step env (PoolUpdate name i p) pl = on_topic name (put_partition i p) pl"

lemma on_topic_ok:
  assumes "pool_ok pl" and "\<And>tp. Name (f tp) = Name tp"
    and "\<And>tp. distinct (map fst (partitions tp)) \<Longrightarrow> distinct (map fst (partitions (f tp)))"
  shows "pool_ok (on_topic name f pl)"
proof (cases "map_of (topicProcessor pl) name")
  case None
  with assms(1) show ?thesis by (simp add: GetTopicProcessor_def)
next
  case (Some i)
  then obtain tp where tp: "GetTopicProcessor name pl = Inr tp" "distinct (map fst (partitions tp))"
    using GetTopicProcessor_some [OF assms(1)] by blast
  then have "get_topic name pl = Some tp" by (simp add: get_topic_def)
  from topics.put_ok [OF assms(1) this] tp assms(2,3) show ?thesis by (simp add: same_topic_def)
qed

lemma pool_step_ok: "pool_ok pl \<Longrightarrow> pool_ok (pool_step env opn pl)"
proof (cases opn)
  case (PoolEnsure name parts)
  moreover assume "pool_ok pl"
  ultimately show ?thesis using EnsureTopic_get [of pl env name parts] by (metis pool_step.simps(1) prod.collapse)
next
  case (PoolRemove name)
  moreover assume "pool_ok pl"
  ultimately show ?thesis using RemoveTopic_ok [of pl name] by (metis pool_step.simps(2) prod.collapse)
qed (auto intro!: on_topic_ok simp del: on_topic.simps
    simp: EnsurePartition_def put_partition_def Let_def distinct_update DeletePartition_parts distinct_delete
    split: option.splits)

interpretation pools: step_machine pool_ok "\<lambda>_ _. True" "pool_step env" for env
  by unfold_locales (rule pool_step_ok)

section \<open>Properties\<close>

text \<open>Whatever sequence of operations a node's pool has gone through (creating and removing topics,
  creating and deleting partitions, partitions changing their state), looking up a topic never meets
  a nil entry or an index outside the slice, and finds the processor of that name or reports that the
  topic does not exist.\<close>

theorem pool_never_panics:
  "case GetTopicProcessor name (fold (pool_step env) ops (NewProcessorPool d)) of
     Inl e \<Rightarrow> e = ETopicNotExist | Inr tp \<Rightarrow> Name tp = name"
proof -
  let ?pl = "fold (pool_step env) ops (NewProcessorPool d)"
  have "pools.run_ok env ops (NewProcessorPool d)" for d
    by (induction ops arbitrary: d rule: rev_induct) (simp_all add: pools.run_ok_append)
  then have ok: "pool_ok ?pl" using pools.run_inv [OF NewProcessorPool_ok] by blast
  show ?thesis
    using GetTopicProcessor_some [OF ok, of name]
    by (cases "map_of (topicProcessor ?pl) name") (auto simp: GetTopicProcessor_def)
qed

text \<open>\<open>RemoveTopic\<close> takes exactly that topic out of the pool, but its clean-up loop ranges over slice
  indices instead of partition ids: it deletes the partitions numbered below the count of local
  partitions and leaves every other one as it was, only with a cancelled context, its state still
  active and its segment files open. A node that hosts just partition 3 stops nothing.\<close>

theorem remove_topic_by_index:
  assumes "pool_ok pl" and "GetTopicProcessor name pl = Inr tp"
  shows "\<exists>pl' old. RemoveTopic name pl = (None, pl', Some old)
     \<and> GetTopicProcessor name pl' = Inl ETopicNotExist
     \<and> (\<forall>other. other \<noteq> name \<longrightarrow> GetTopicProcessor other pl' = GetTopicProcessor other pl)
     \<and> (\<forall>i. map_of (partitions old) i =
          (if 0 \<le> i \<and> i < int (length (partitions tp)) then None
           else map_option (\<lambda>p. p\<lparr>pdone := True\<rparr>) (map_of (partitions tp) i)))"
proof -
  obtain pl' old where r: "RemoveTopic name pl = (None, pl', Some old)"
    "old = delete_by_index True False (length (ListPartitions (stop_topic tp))) (stop_topic tp)"
    using assms(2) by (auto simp: RemoveTopic_def Let_def)
  have ok: "pool_ok pl'" "get_topic name pl' = None" "\<forall>j. j \<noteq> name \<longrightarrow> get_topic j pl' = get_topic j pl"
    using RemoveTopic_ok [OF assms(1) r(1)] by simp_all
  have "map_of (partitions (stop_topic tp)) i = map_option (\<lambda>p. p\<lparr>pdone := True\<rparr>) (map_of (partitions tp) i)" for i
    by (simp add: stop_topic_def map_of_map)
  then have "map_of (partitions old) i = (if 0 \<le> i \<and> i < int (length (partitions tp)) then None
      else map_option (\<lambda>p. p\<lparr>pdone := True\<rparr>) (map_of (partitions tp) i))" for i
    by (auto simp: r(2) delete_by_index_lookup ListPartitions_def) (simp_all add: stop_topic_def)
  then show ?thesis
    using r(1) ok assms(1) by (auto simp: GetTopicProcessor_get_topic)
qed

definition sample_env :: disk_env where "sample_env = (\<lambda>_ _. (good_recover, []))"

definition sample_part :: "int \<Rightarrow> topic_partition" where
  "sample_part i = \<lparr>Id_tp = i, Replicas = [], Retention = 0, StartOffset = 0\<rparr>"

theorem remove_topic_by_index_witness:
  "\<exists>pl' old p. RemoveTopic ''orders'' (snd (EnsureTopic sample_env ''orders'' [sample_part 3] (NewProcessorPool False)))
       = (None, pl', Some old) \<and> map_of (partitions old) 3 = Some p \<and> state p = PartitionActive"
proof -
  let ?r = "EnsureTopic sample_env ''orders'' [sample_part 3] (NewProcessorPool False)"
  define p where "p = make_partition sample_env (\<lparr>id_t = 0, Name = ''orders'', partitions = [], tdone = False\<rparr>) (sample_part 3)"
  have e: "fst ?r = \<lparr>id_t = 0, Name = ''orders'', partitions = [(3, p)], tdone = False\<rparr>"
    by (simp add: EnsureTopic_def NewProcessorPool_def NewTopicProcessor_def Let_def p_def sample_part_def)
  have ok: "pool_ok (snd ?r)" "get_topic ''orders'' (snd ?r) = Some (fst ?r)"
    using EnsureTopic_get [OF NewProcessorPool_ok prod.collapse [symmetric],
        of sample_env "''orders''" "[sample_part 3]" False] by blast+
  then have g: "GetTopicProcessor ''orders'' (snd ?r) = Inr (fst ?r)" by (simp add: GetTopicProcessor_get_topic)
  have "part_rep p 0 []"
    unfolding p_def make_partition_def
    by (simp add: sample_env_def sample_part_def, rule NewPartitionProcessor_empty(1)) (simp_all add: log_names_def)
  then have "state p = PartitionActive" by (auto dest: part_rep_okD part_okD)
  with remove_topic_by_index [OF ok(1) g] e show ?thesis by fastforce
qed

end
