(* ===== verification/Broker.thy ===== *)
theory Broker
  imports Pool
begin

text \<open>
  The broker of one node, \<open>server/broker/broker.go\<close>: request handlers of the data plane, the
  handlers of the replication service, partition leadership and catch-up.

  A \<open>CommandContext\<close> is what the handlers answer through: the list of responses sent, and the error
  \<open>Respond\<close> returns for each, given as a function. Decoding of request bodies is not modelled here:
  handlers take the decoded payload. The gRPC services of \<open>server/grpc/replication_server.go\<close> hand
  the request to these handlers unchanged.
\<close>

section \<open>State\<close>

datatype ClusterRole = NoRole | Controller | Follower | Unroled

record broker =
  bid :: int
  bpool :: pool
  bepoch :: i64
  brole :: ClusterRole
  peers :: "(int, bool) gomap"  \<comment> \<open>registered peers; whether \<open>ReplicationClient\<close> is set\<close>
  partitionLeader :: "(string, int) gomap"
  bdone :: bool

definition NewBroker :: "int \<Rightarrow> bool \<Rightarrow> broker" where
  "NewBroker i nodeDone =
     \<lparr>bid = i, bpool = NewProcessorPool nodeDone, bepoch = 0, brole = NoRole, peers = [],
      partitionLeader = [], bdone = nodeDone\<rparr>"

section \<open>Leadership, roles and peers\<close>

definition partitionLeaderKey :: "string \<Rightarrow> int \<Rightarrow> string" where
  "partitionLeaderKey topic partitionID = topic @ ''/'' @ fmt_int partitionID"

definition SetPartitionLeader :: "string \<Rightarrow> int \<Rightarrow> int \<Rightarrow> broker \<Rightarrow> broker" where
  "SetPartitionLeader topic partitionID leaderNodeID b =
     b\<lparr>partitionLeader := AList.update (partitionLeaderKey topic partitionID) leaderNodeID (partitionLeader b)\<rparr>"

definition DeletePartitionLeader :: "string \<Rightarrow> int \<Rightarrow> broker \<Rightarrow> broker" where
  "DeletePartitionLeader topic partitionID b =
     b\<lparr>partitionLeader := AList.delete (partitionLeaderKey topic partitionID) (partitionLeader b)\<rparr>"

definition GetPartitionLeader :: "string \<Rightarrow> int \<Rightarrow> broker \<Rightarrow> int option" where
  "GetPartitionLeader topic partitionID b = map_of (partitionLeader b) (partitionLeaderKey topic partitionID)"

definition IsPartitionLeader :: "string \<Rightarrow> int \<Rightarrow> broker \<Rightarrow> bool" where
  "IsPartitionLeader topic partitionID b = (GetPartitionLeader topic partitionID b = Some (bid b))"

definition SetEpoch :: "i64 \<Rightarrow> broker \<Rightarrow> broker" where "SetEpoch num b = b\<lparr>bepoch := num\<rparr>"
definition GetEpoch :: "broker \<Rightarrow> i64" where "GetEpoch b = bepoch b"
definition SetNodeId :: "int \<Rightarrow> broker \<Rightarrow> broker" where "SetNodeId node b = b\<lparr>bid := node\<rparr>"
definition GetNodeId :: "broker \<Rightarrow> int" where "GetNodeId b = bid b"
definition ToController :: "broker \<Rightarrow> broker" where "ToController b = b\<lparr>brole := Controller\<rparr>"
definition ToFollower :: "broker \<Rightarrow> broker" where "ToFollower b = b\<lparr>brole := Follower\<rparr>"
definition ReadRole :: "broker \<Rightarrow> ClusterRole" where "ReadRole b = brole b"

definition AddPeers :: "(int \<times> bool) option list \<Rightarrow> broker \<Rightarrow> broker" where
  "AddPeers ps b = fold (\<lambda>p b. case p of None \<Rightarrow> b
     | Some (i, c) \<Rightarrow> b\<lparr>peers := AList.update i c (peers b)\<rparr>) ps b"

definition RemovePeer :: "int \<Rightarrow> broker \<Rightarrow> broker" where
  "RemovePeer i b = b\<lparr>peers := AList.delete i (peers b)\<rparr>"

definition GetGrpcClient :: "int \<Rightarrow> broker \<Rightarrow> bool" where
  "GetGrpcClient peerID b = (map_of (peers b) peerID = Some True)"

section \<open>Access to a local partition\<close>

definition local_partition :: "string \<Rightarrow> int \<Rightarrow> broker \<Rightarrow> go_error + partition" where
  "local_partition topic partitionID b =
     sbind (GetTopicProcessor topic (bpool b)) (GetPartition partitionID)"

definition put_local :: "string \<Rightarrow> int \<Rightarrow> partition \<Rightarrow> broker \<Rightarrow> broker" where
  "put_local topic partitionID p b =
     (case GetTopicProcessor topic (bpool b) of
        Inl e \<Rightarrow> b
      | Inr tp \<Rightarrow> b\<lparr>bpool := put_topic topic (put_partition partitionID p tp) (bpool b)\<rparr>)"

definition IsPartitionInSync :: "string \<Rightarrow> int \<Rightarrow> broker \<Rightarrow> bool" where
  "IsPartitionInSync topic partitionID b =
     (case local_partition topic partitionID b of Inl e \<Rightarrow> False | Inr p \<Rightarrow> GetSyncState p = StateInSync)"

definition FindTopicPartition :: "string \<Rightarrow> int \<Rightarrow> broker \<Rightarrow> bool \<times> bool" where
  "FindTopicPartition topic partId b =
     (case GetTopicProcessor topic (bpool b) of
        Inl e \<Rightarrow> (False, False)
      | Inr tp \<Rightarrow> (case GetPartition partId tp of Inl e \<Rightarrow> (True, False) | Inr p \<Rightarrow> (True, True)))"

definition MarkPartitionReplicaInSync :: "string \<Rightarrow> int \<Rightarrow> int \<Rightarrow> broker \<Rightarrow> broker" where
  "MarkPartitionReplicaInSync topic partitionID replicaID b =
     (case local_partition topic partitionID b of
        Inl e \<Rightarrow> b
      | Inr p \<Rightarrow> put_local topic partitionID (SetReplicaInSync replicaID True p) b)"

definition EnsureLocalPartition ::
  "disk_env \<Rightarrow> string \<Rightarrow> topic_partition \<Rightarrow> broker \<Rightarrow> (partition \<times> bool) \<times> broker" where
  "EnsureLocalPartition env topic part b =
     (case EnsureTopic env topic [] (bpool b) of
        (tp, pl) \<Rightarrow>
          (case EnsurePartition env part tp of
             (r, tp') \<Rightarrow> (r, b\<lparr>bpool := put_topic topic tp' pl\<rparr>)))"

text \<open>The manifest: the records Mongo returns for this node, or its error.\<close>

record local_record =
  recTopic :: string
  recPartitionID :: int
  recRetention :: int

definition LoadLocalPartitions :: "disk_env \<Rightarrow> local_record list option \<Rightarrow> broker \<Rightarrow> go_error option \<times> broker" where
  "LoadLocalPartitions env records b =
     (case records of
        None \<Rightarrow> (Some EIO, b)
      | Some recs \<Rightarrow>
          (None, fold (\<lambda>rec b. snd (EnsureLocalPartition env (recTopic rec)
             \<lparr>Id_tp = recPartitionID rec, Replicas = [], Retention = recRetention rec, StartOffset = 0\<rparr> b)) recs b))"

definition ListLocalPartitionOffsets :: "broker \<Rightarrow> (string \<times> int \<times> u64) list" where
  "ListLocalPartitionOffsets b =
     concat (map (\<lambda>topic. case GetTopicProcessor topic (bpool b) of
         Inl e \<Rightarrow> []
       | Inr tp \<Rightarrow> concat (map (\<lambda>partID. case GetPartition partID tp of
             Inl e \<Rightarrow> [] | Inr p \<Rightarrow> [(topic, partID, GetNextOffset p)]) (ListPartitions tp)))
       (ListTopics (bpool b)))"

section \<open>Deleting a topic or a partition\<close>

record delete_entry =
  TopicName_de :: string
  PartitionId_de :: int
  DelMap :: "(string \<Rightarrow> bool) option"  \<comment> \<open>nil, or a map whose missing keys read false\<close>
  Force :: bool

definition clear_own_leader :: "string \<Rightarrow> int \<Rightarrow> broker \<Rightarrow> broker" where
  "clear_own_leader topic i b =
     (case GetPartitionLeader topic i b of
        None \<Rightarrow> b
      | Some l \<Rightarrow> if GetNodeId b = l then DeletePartitionLeader topic i b else b)"

definition DeleteTopicPartition :: "bool \<Rightarrow> delete_entry \<Rightarrow> broker \<Rightarrow> go_error option \<times> broker" where
  "DeleteTopicPartition removeAllOk entry b =
     (case DelMap entry of
        None \<Rightarrow> (Some EEmptyDeleteMap, b)
      | Some dm \<Rightarrow>
          if dm (TopicName_de entry) then
            (case GetTopicProcessor (TopicName_de entry) (bpool b) of
               Inl e \<Rightarrow> (Some e, b)
             | Inr tp \<Rightarrow>
                 let b1 = fold (\<lambda>i. clear_own_leader (TopicName_de entry) (int i)) [0..<length (ListPartitions tp)] b
                 in case RemoveTopic (TopicName_de entry) (bpool b1) of
                      (e, pl, _) \<Rightarrow> (e, b1\<lparr>bpool := pl\<rparr>))
          else if dm (fmt_int (PartitionId_de entry)) then
            (case GetTopicProcessor (TopicName_de entry) (bpool b) of
               Inl e \<Rightarrow> (Some e, b)
             | Inr tp \<Rightarrow>
                 (case DeletePartition removeAllOk (PartitionId_de entry) (Force entry) tp of
                    (Some e, tp', _) \<Rightarrow> (Some e, b\<lparr>bpool := put_topic (TopicName_de entry) tp' (bpool b)\<rparr>)
                  | (None, tp', _) \<Rightarrow>
                      (Some EEmptyDeleteMap,
                       clear_own_leader (TopicName_de entry) (PartitionId_de entry)
                         (b\<lparr>bpool := put_topic (TopicName_de entry) tp' (bpool b)\<rparr>))))
          else (Some EEmptyDeleteMap, b))"

section \<open>The replication service\<close>

definition ReplicationLogHandler :: "lock_io \<Rightarrow> append_request \<Rightarrow> broker \<Rightarrow> append_response \<times> broker" where
  "ReplicationLogHandler io req b =
     (case local_partition (arTopicName req) (uint (arPartitionId req)) b of
        Inl e \<Rightarrow> (\<lparr>Success = False, MatchOffset = 0, NotInSync = False\<rparr>, b)
      | Inr p \<Rightarrow>
          (case TryApplyPush io (arTargetOffset req) (arTimestamp req) (arPayload req) p of
             ((outcome, matchOffset), p') \<Rightarrow>
               ((case outcome of
                   PushAccepted \<Rightarrow> \<lparr>Success = True, MatchOffset = matchOffset, NotInSync = False\<rparr>
                 | PushRejectedNotInSync \<Rightarrow> \<lparr>Success = False, MatchOffset = matchOffset, NotInSync = True\<rparr>
                 | PushRejectedGap \<Rightarrow> \<lparr>Success = False, MatchOffset = matchOffset, NotInSync = False\<rparr>),
                put_local (arTopicName req) (uint (arPartitionId req)) p' b)))"

text \<open>The message of a negative acknowledgement is reduced to what failed.\<close>

definition InvalidateLogHandler :: "trunc_io \<Rightarrow> invalidate_request \<Rightarrow> broker \<Rightarrow> invalidate_ack \<times> broker" where
  "InvalidateLogHandler io req b =
     (case GetTopicProcessor (irTopicName req) (bpool b) of
        Inl e \<Rightarrow> (AckErr ''topic not found'', b)
      | Inr tp \<Rightarrow>
          (case GetPartition (uint (irPartitionId req)) tp of
             Inl e \<Rightarrow> (AckErr ''partition not found'', b)
           | Inr p \<Rightarrow>
               (case InvalidateOffset io (irTargetOffset req) p of
                  (Some e, p') \<Rightarrow> (AckErr ''invalidate failed'', put_local (irTopicName req) (uint (irPartitionId req)) p' b)
                | (None, p') \<Rightarrow> (AckOk, put_local (irTopicName req) (uint (irPartitionId req)) p' b))))"

record fetch_request =
  frTopicName :: string
  frPartitionId :: u32
  frFromOffset :: u64
  frMaxMessages :: u32

record fetch_response =
  Entries :: "message list"
  HighWatermark :: u64
  Leader :: bool

definition FetchLogHandler :: "faults \<Rightarrow> fetch_request \<Rightarrow> broker \<Rightarrow> fetch_response" where
  "FetchLogHandler fault req b =
     (case local_partition (frTopicName req) (uint (frPartitionId req)) b of
        Inl e \<Rightarrow> \<lparr>Entries = [], HighWatermark = 0, Leader = (brole b = Controller)\<rparr>
      | Inr p \<Rightarrow>
          (case ReadBatch fault (frFromOffset req) (uint (frMaxMessages req)) p of
             (ms, hw, err) \<Rightarrow> \<lparr>Entries = ms, HighWatermark = hw, Leader = (brole b = Controller)\<rparr>))"

section \<open>Catch-up\<close>

text \<open>The entries of one answer, applied in order until one is refused.\<close>

fun apply_entries :: "lock_io \<Rightarrow> message list \<Rightarrow> partition \<Rightarrow> go_error option \<times> partition" where
  "apply_entries io [] p = (None, p)"
| "apply_entries io (m # ms) p =
     (case AppendEntry io (Offset m) (Timestamp m) (Payload m) p of
        ((_, Some e), p') \<Rightarrow> (Some (EApplyFetched (Offset m) e), p')
      | ((_, None), p') \<Rightarrow> apply_entries io ms p')"

text \<open>
  The loop of \<open>CatchUpPartition\<close> after its checks. The \<open>n\<close>-th call of \<open>FetchLog\<close> is answered by
  \<open>fetch n\<close> (\<open>None\<close> is an RPC error) and \<open>cancelled n\<close> says whether the context is done before it.
  The loop need not end, so it runs on fuel: \<open>None\<close> says that it was still running.
\<close>

fun catch_up_loop ::
  "nat \<Rightarrow> lock_io \<Rightarrow> (nat \<Rightarrow> bool) \<Rightarrow> (nat \<Rightarrow> u64 \<Rightarrow> fetch_response option) \<Rightarrow> nat \<Rightarrow> partition
     \<Rightarrow> (go_error option \<times> partition) option" where
  "catch_up_loop 0 io cancelled fetch n p = None"
| "catch_up_loop (Suc fuel) io cancelled fetch n p =
     (if cancelled n then Some (Some ECancelled, p)
      else case fetch n (GetNextOffset p) of
        None \<Rightarrow> Some (Some (EFetchLog EIO), p)
      | Some resp \<Rightarrow>
          (case apply_entries io (Entries resp) p of
             (Some e, p') \<Rightarrow> Some (Some e, p')
           | (None, p') \<Rightarrow>
               (case TryFinalizeInSync (HighWatermark resp) p' of
                  (True, p'') \<Rightarrow> Some (None, p'')
                | (False, p'') \<Rightarrow> catch_up_loop fuel io cancelled fetch (Suc n) p'')))"

definition fetch_req :: "string \<Rightarrow> int \<Rightarrow> u64 \<Rightarrow> fetch_request" where
  "fetch_req topic partitionID fromOffset =
     \<lparr>frTopicName = topic, frPartitionId = of_int partitionID, frFromOffset = fromOffset, frMaxMessages = 500\<rparr>"

definition CatchUpPartition ::
  "nat \<Rightarrow> lock_io \<Rightarrow> (nat \<Rightarrow> bool) \<Rightarrow> (nat \<Rightarrow> fetch_request \<Rightarrow> fetch_response option) \<Rightarrow> string \<Rightarrow> int \<Rightarrow> int
     \<Rightarrow> broker \<Rightarrow> (go_error option \<times> broker) option" where
  "CatchUpPartition fuel io cancelled fetch topic partitionID leaderNodeID b =
     (case local_partition topic partitionID b of
        Inl e \<Rightarrow> Some (Some e, b)
      | Inr p \<Rightarrow>
          if GetSyncState p = StateInSync then Some (None, b)
          else if \<not> GetGrpcClient leaderNodeID b then
            Some (Some (ENoReplicationClient leaderNodeID (ENoConnection leaderNodeID)), b)
          else (case catch_up_loop fuel io cancelled (\<lambda>n off. fetch n (fetch_req topic partitionID off)) 0 p of
              None \<Rightarrow> None
            | Some (e, p') \<Rightarrow> Some (e, put_local topic partitionID p' b)))"

text \<open>
  \<open>RestoreData\<close> stops at the first partition whose catch-up fails. \<open>catch\<close> is \<open>CatchUpPartition\<close>
  applied to everything but topic, partition, leader and broker.
\<close>

fun restore_loop ::
  "(string \<Rightarrow> int \<Rightarrow> int \<Rightarrow> broker \<Rightarrow> (go_error option \<times> broker) option) \<Rightarrow> int \<Rightarrow> (string \<times> int) list
     \<Rightarrow> broker \<Rightarrow> (go_error option \<times> broker) option" where
  "restore_loop catch fallbackLeader [] b = Some (None, b)"
| "restore_loop catch fallbackLeader ((topic, partID) # xs) b =
     (let leaderID = (case GetPartitionLeader topic partID b of
            None \<Rightarrow> fallbackLeader | Some l \<Rightarrow> if l = 0 then fallbackLeader else l)
      in if leaderID = 0 \<or> leaderID = GetNodeId b then restore_loop catch fallbackLeader xs b
         else case catch topic partID leaderID b of
           None \<Rightarrow> None
         | Some (Some e, b') \<Rightarrow> Some (Some e, b')
         | Some (None, b') \<Rightarrow> restore_loop catch fallbackLeader xs b')"

definition local_partitions :: "broker \<Rightarrow> (string \<times> int) list" where
  "local_partitions b =
     concat (map (\<lambda>topic. case GetTopicProcessor topic (bpool b) of
         Inl e \<Rightarrow> [] | Inr tp \<Rightarrow> map (\<lambda>i. (topic, i)) (ListPartitions tp)) (ListTopics (bpool b)))"

definition RestoreData ::
  "(string \<Rightarrow> int \<Rightarrow> int \<Rightarrow> broker \<Rightarrow> (go_error option \<times> broker) option) \<Rightarrow> int \<Rightarrow> broker
     \<Rightarrow> (go_error option \<times> broker) option" where
  "RestoreData catch fallbackLeader b = restore_loop catch fallbackLeader (local_partitions b) b"

section \<open>The data plane\<close>

text \<open>What the handlers send to the client.\<close>

datatype response =
    ProduceAccepted
  | ProduceTopicEmpty
  | ProduceNotLeader string int
  | ConsumeList "message list"
  | ConsumeNotInSync string int
  | TopicMoved

text \<open>\<open>Respond\<close> returns an error or nil for each message; the result lists what was given to it.\<close>

type_synonym responder = "response \<Rightarrow> go_error option"

record produce_payload =
  ppTopicName :: string
  ppPartitionId :: int
  ppKey :: string
  ppMsg :: bytes

datatype start_position = NoStart | AtStartOffset u64 | AtBeginning bool
datatype fin_position = NoFin | AtFinOffset u64 | AtEnd bool

record consume_payload =
  cpTopicName :: string
  cpPartitionID :: int
  cpStart :: start_position
  cpFin :: fin_position

definition producerHandler ::
  "'w cluster_net \<Rightarrow> lock_io \<Rightarrow> i64 \<Rightarrow> responder \<Rightarrow> produce_payload \<Rightarrow> broker \<Rightarrow> 'w
     \<Rightarrow> (go_error option \<times> response list) \<times> broker \<times> 'w" where
  "producerHandler net io now respond body b w =
     (if ppTopicName body = [] then ((respond ProduceTopicEmpty, [ProduceTopicEmpty]), b, w)
      else if \<not> IsPartitionLeader (ppTopicName body) (ppPartitionId body) b then
        (let r = ProduceNotLeader (ppTopicName body) (ppPartitionId body) in ((respond r, [r]), b, w))
      else case SendMessage net io now (ppTopicName body) (ppPartitionId body) (ppMsg body) (bpool b) w of
        (Some e, pl, w') \<Rightarrow> ((Some e, []), b\<lparr>bpool := pl\<rparr>, w')
      | (None, pl, w') \<Rightarrow> ((respond ProduceAccepted, [ProduceAccepted]), b\<lparr>bpool := pl\<rparr>, w'))"

text \<open>The live part of a consume: what the select of the loop picks next.\<close>

datatype stream_event = RequestDone | BrokerDone | StreamMessage message | StreamClosed

fun consume_stream :: "responder \<Rightarrow> stream_event list \<Rightarrow> go_error option \<times> response list" where
  "consume_stream respond [] = (None, [])"  \<comment> \<open>still waiting\<close>
| "consume_stream respond (RequestDone # es) = (Some ECancelled, [])"
| "consume_stream respond (BrokerDone # es) = (None, [])"
| "consume_stream respond (StreamClosed # es) = (None, [])"
| "consume_stream respond (StreamMessage m # es) =
     (case respond (ConsumeList [m]) of
        Some e \<Rightarrow> (Some e, [ConsumeList [m]])
      | None \<Rightarrow> (case consume_stream respond es of (r, rs) \<Rightarrow> (r, ConsumeList [m] # rs)))"

fun start_spec :: "start_position \<Rightarrow> offset_spec" where
  "start_spec NoStart = \<lparr>Value = 0, Tag = NoTag\<rparr>"
| "start_spec (AtStartOffset off) = \<lparr>Value = off, Tag = NoTag\<rparr>"
| "start_spec (AtBeginning _) = \<lparr>Value = 0, Tag = FromBeginning\<rparr>"

fun fin_spec :: "fin_position \<Rightarrow> offset_spec" where
  "fin_spec NoFin = \<lparr>Value = 0, Tag = NoTag\<rparr>"
| "fin_spec (AtFinOffset off) = \<lparr>Value = off, Tag = NoTag\<rparr>"
| "fin_spec (AtEnd _) = \<lparr>Value = 0, Tag = TillEnd\<rparr>"

definition consumerHandler ::
  "faults \<Rightarrow> responder \<Rightarrow> (u64 \<Rightarrow> stream_event list) \<Rightarrow> consume_payload \<Rightarrow> broker
     \<Rightarrow> go_error option \<times> response list" where
  "consumerHandler fault respond events body b =
     (if cpTopicName body = [] then (Some ETopicNameEmpty, [])
      else if \<not> IsPartitionInSync (cpTopicName body) (cpPartitionID body) b then
        (let r = ConsumeNotInSync (cpTopicName body) (cpPartitionID body) in (respond r, [r]))
      else case ReadMessages fault (cpTopicName body) (cpPartitionID body) (start_spec (cpStart body))
                  (fin_spec (cpFin body)) (bpool b) of
        Inl e \<Rightarrow> (Some e, [])
      | Inr (arrMsg, streamC) \<Rightarrow>
          let first = (if arrMsg \<noteq> [] then [ConsumeList arrMsg] else []);
              err = (if arrMsg \<noteq> [] then respond (ConsumeList arrMsg) else None)
          in case err of
               Some e \<Rightarrow> (Some e, first)
             | None \<Rightarrow>
                 (case streamC of
                    None \<Rightarrow> (None, first)
                  | Some off \<Rightarrow> (case consume_stream respond (events off) of (r, rs) \<Rightarrow> (r, first @ rs))))"

text \<open>The dispatch on the command of a frame; decoding the body may fail, giving \<open>None\<close>.\<close>

record codec =
  decodeProduce :: "bytes \<Rightarrow> produce_payload option"
  decodeConsume :: "bytes \<Rightarrow> consume_payload option"

definition HandleCommand ::
  "'w cluster_net \<Rightarrow> lock_io \<Rightarrow> i64 \<Rightarrow> faults \<Rightarrow> responder \<Rightarrow> (u64 \<Rightarrow> stream_event list) \<Rightarrow> codec \<Rightarrow> u32 \<Rightarrow> bytes
     \<Rightarrow> broker \<Rightarrow> 'w \<Rightarrow> (go_error option \<times> response list) \<times> broker \<times> 'w" where
  "HandleCommand net io now fault respond events cd command body b w =
     (if command = 0 then ((respond TopicMoved, [TopicMoved]), b, w)
      else if command = 1 then
        (case decodeProduce cd body of
           None \<Rightarrow> ((Some EDecode, []), b, w)
         | Some r \<Rightarrow> producerHandler net io now respond r b w)
      else if command = 2 then
        (case decodeConsume cd body of
           None \<Rightarrow> ((Some EDecode, []), b, w)
         | Some r \<Rightarrow> (consumerHandler fault respond events r b, b, w))
      else ((Some EUnknownCommand, []), b, w))"

section \<open>Local partitions as a store\<close>

definition broker_ok :: "broker \<Rightarrow> bool" where
  "broker_ok b \<longleftrightarrow> pool_ok (bpool b)"

definition get_local :: "string \<times> int \<Rightarrow> broker \<Rightarrow> partition option" where
  "get_local k b = (case local_partition (fst k) (snd k) b of Inl e \<Rightarrow> None | Inr p \<Rightarrow> Some p)"

definition set_local :: "string \<times> int \<Rightarrow> partition \<Rightarrow> broker \<Rightarrow> broker" where
  "set_local k p b = put_local (fst k) (snd k) p b"

lemma local_partition_get: "local_partition t i b = Inr p \<longleftrightarrow> get_local (t, i) b = Some p"
  by (auto simp: get_local_def split: sum.splits)

lemma get_local_topic:
  "broker_ok b \<Longrightarrow> get_local (t, i) b =
     (case get_topic t (bpool b) of None \<Rightarrow> None | Some tp \<Rightarrow> map_of (partitions tp) i)"
  by (auto simp: get_local_def local_partition_def broker_ok_def GetTopicProcessor_get_topic GetPartition_def
      split: option.splits)

lemma put_local_topic:
  assumes "broker_ok b" and "get_topic t (bpool b) = Some tp"
  shows "bpool (put_local t i p b) = put_topic t (put_partition i p tp) (bpool b)"
    and "same_topic t tp (put_partition i p tp)"
proof -
  obtain j where "map_of (topicProcessor (bpool b)) t = Some j" "processors (bpool b) ! j = Some tp"
    using assms by (auto simp: broker_ok_def get_topic_conv)
  then have "distinct (map fst (partitions tp))"
    using assms(1) pool_okD(2) [of "bpool b" t j] by (auto simp: broker_ok_def)
  then show "same_topic t tp (put_partition i p tp)"
    by (simp add: same_topic_def put_partition_def distinct_update)
  show "bpool (put_local t i p b) = put_topic t (put_partition i p tp) (bpool b)"
    using assms by (simp add: put_local_def broker_ok_def GetTopicProcessor_get_topic)
qed

interpretation locals: keyed_store broker_ok get_local set_local "\<lambda>_ _ _. True"
proof unfold_locales
  fix b :: broker and k j u v
  assume ok: "broker_ok b" and g: "get_local k b = Some u"
  obtain t i where k: "k = (t, i)" by (cases k)
  obtain tp where tp: "get_topic t (bpool b) = Some tp" "map_of (partitions tp) i = Some u"
    using g k get_local_topic [OF ok, of t i] by (auto split: option.splits)
  note pt = put_local_topic [OF ok tp(1), of i v]
  have pok: "pool_ok (bpool b)" using ok by (simp add: broker_ok_def)
  have bk: "bpool (set_local k v b) = put_topic t (put_partition i v tp) (bpool b)"
    using pt(1) k by (simp add: set_local_def)
  show ok': "broker_ok (set_local k v b)"
    unfolding broker_ok_def bk by (rule topics.put_ok [OF pok tp(1) pt(2)])
  have gt: "get_topic s (bpool (set_local k v b)) = (if s = t then Some (put_partition i v tp) else get_topic s (bpool b))" for s
    unfolding bk by (rule topics.get_put [OF pok tp(1) pt(2)])
  show "get_local k (set_local k v b) = Some v"
    using get_local_topic [OF ok', of t i] gt by (simp add: k put_partition_def update_conv')
  assume "j \<noteq> k"
  then show "get_local j (set_local k v b) = get_local j b"
    using get_local_topic [OF ok', of "fst j" "snd j"] get_local_topic [OF ok, of "fst j" "snd j"] gt tp k
    by (cases j) (auto simp: put_partition_def update_conv')
qed

text \<open>Leaders of partitions: the key string is injective, so the map is a store under (topic, id).\<close>

lemma fmt_int_no_slash: "CHR ''/'' \<notin> set (fmt_int i)"
proof -
  have "CHR ''/'' \<notin> set (dec n)" for n
    using dec_digits [of n] by (auto simp: is_digit_def)
  then show ?thesis by (auto simp: fmt_int_def)
qed

lemma partitionLeaderKey_inject:
  "partitionLeaderKey t i = partitionLeaderKey s j \<longleftrightarrow> t = s \<and> i = j"
proof
  assume a: "partitionLeaderKey t i = partitionLeaderKey s j"
  let ?P = "\<lambda>c. c \<noteq> CHR ''/''"
  have "takeWhile ?P (rev (partitionLeaderKey u k)) = rev (fmt_int k)" for u k
    using fmt_int_no_slash [of k]
      takeWhile_append2 [of "rev (fmt_int k)" ?P "CHR ''/'' # rev u"]
    by (fastforce simp: partitionLeaderKey_def)
  then have "rev (fmt_int i) = rev (fmt_int j)" using a by metis
  then have "i = j" by simp
  with a show "t = s \<and> i = j" by (simp add: partitionLeaderKey_def)
qed simp

definition get_leader :: "string \<times> int \<Rightarrow> broker \<Rightarrow> int option" where
  "get_leader k b = GetPartitionLeader (fst k) (snd k) b"

definition set_leader :: "string \<times> int \<Rightarrow> int \<Rightarrow> broker \<Rightarrow> broker" where
  "set_leader k l b = SetPartitionLeader (fst k) (snd k) l b"

interpretation leaders: keyed_store "\<lambda>_. True" get_leader set_leader "\<lambda>_ _ _. True"
  by unfold_locales
    (auto simp: get_leader_def set_leader_def GetPartitionLeader_def SetPartitionLeader_def update_conv'
      partitionLeaderKey_inject prod_eq_iff)

end
