(* ===== verification/Etcd.thy ===== *)
theory Etcd
  imports Broker
begin

text \<open>
  The interface of the key-value service the cluster keeps its metadata in. etcd and its client
  library are not part of the repository, so the operations the code calls are the fields of a
  record, acting on an abstract state \<open>'e\<close>, and what the code relies on is the hypothesis
  \<open>etcd_ok\<close>: every request sees some state of one linear history of transactions, the
  transactions of the other clients may come before it, a transaction commits exactly when its
  comparisons hold and gives the keys it writes a new revision, and a request that reports an
  error may or may not have taken effect.

  Values are JSON in the code. Each key prefix holds one type of value, so a value is the decoded
  struct; \<open>VOther\<close> is a text that does not decode.
\<close>

section \<open>The values the program stores\<close>

record PartitionsParams =
  PartitionId :: int
  LeaderNodeId :: int
  ReplicasNodeId :: "int list"
  IsrNodeId :: "int list"

record TopicParams =
  tpName :: string
  DesiredReplicationFactor :: int
  Partitions :: "PartitionsParams list"

record NodeState =
  nsID :: int
  nsAddress :: string
  nsTcpAddress :: string
  nsControlAddress :: string
  nsHttpAddress :: string
  nsStartTime :: string
  nsRole :: ClusterRole

record ControllerState =
  csLeaderId :: int
  csLeaderEpoch :: int

record LocalPartitionState =
  lsTopic :: string
  lsPartitionId :: int
  lsOffset :: u64

datatype etcd_value =
    VTopic TopicParams
  | VNode NodeState
  | VController ControllerState
  | VLocal "LocalPartitionState list"
  | VOther

fun as_topic :: "etcd_value \<Rightarrow> TopicParams option" where
  "as_topic (VTopic p) = Some p"
| "as_topic _ = None"

fun as_node :: "etcd_value \<Rightarrow> NodeState option" where
  "as_node (VNode s) = Some s"
| "as_node _ = None"

fun as_controller :: "etcd_value \<Rightarrow> ControllerState option" where
  "as_controller (VController s) = Some s"
| "as_controller _ = None"

fun as_local :: "etcd_value \<Rightarrow> LocalPartitionState list option" where
  "as_local (VLocal s) = Some s"
| "as_local _ = None"

section \<open>What the control plane can answer instead of a result\<close>

datatype cluster_error =
    EEtcd                          \<comment> \<open>the etcd client returned an error\<close>
  | EJson                          \<comment> \<open>\<open>json.Unmarshal\<close> failed\<close>
  | EMetaTopicNotFound             \<comment> \<open>\<open>ErrTopicNotFound\<close>\<close>
  | EPartitionNotFound int string  \<comment> \<open>partition not found in topic\<close>
  | ENotReplica int int            \<comment> \<open>node is not a replica of partition\<close>
  | ECasContention                 \<comment> \<open>failed to mutate topic after retries\<close>
  | ECtxDone                       \<comment> \<open>\<open>ctx.Err()\<close>\<close>
  | ETopicCredential               \<comment> \<open>\<open>ErrTopicCredential\<close>: no name, or no partitions\<close>
  | ETopicAlreadyExists            \<comment> \<open>\<open>ErrTopicAlreadyExists\<close>\<close>
  | ENotClusterController          \<comment> \<open>\<open>ErrNotClusterController\<close>\<close>
  | ENotEnoughAliveNodes nat int   \<comment> \<open>\<open>ErrNotEnoughAliveNodes\<close> with the numbers of its message\<close>
  | ERaceCondition                 \<comment> \<open>\<open>ErrRaceCondition\<close>\<close>
  | EControllerUnavailable         \<comment> \<open>\<open>ErrControllerUnavailable\<close>\<close>
  | EControllerAddressMissing      \<comment> \<open>cluster controller has no control-plane address\<close>
  | ENodeEvicted int               \<comment> \<open>\<open>ErrNodeEvictedFromCluster\<close> with the node\<close>
  | EDial                          \<comment> \<open>\<open>grpc.NewClient\<close> failed\<close>
  | ERemote string                 \<comment> \<open>the error text in the answer of another node\<close>

section \<open>The service\<close>

datatype etcd_cmp = VersionZero string | ModRevisionIs string int
datatype etcd_op = OpPut string etcd_value int | OpDelete string
datatype etcd_range = RangeKey string | RangePrefix string

record etcd_kv =
  kvValue :: etcd_value
  kvModRevision :: int
  kvVersion :: nat
  kvLease :: int

record 'e etcd =
  eGet :: "string \<Rightarrow> 'e \<Rightarrow> (cluster_error + etcd_kv option) \<times> 'e"
  eGetPrefix :: "string \<Rightarrow> 'e \<Rightarrow> (cluster_error + (string \<times> etcd_kv) list) \<times> 'e"
  eTxn :: "etcd_cmp list \<Rightarrow> etcd_op list \<Rightarrow> 'e \<Rightarrow> (cluster_error + bool) \<times> 'e"
  eRanges :: "etcd_range list \<Rightarrow> 'e \<Rightarrow> (cluster_error + (string \<times> etcd_kv) list list) \<times> 'e"
    \<comment> \<open>a transaction without conditions that reads several ranges at one revision\<close>

section \<open>Its documented behaviour\<close>

record etcd_store =
  storeRev :: int
  storeKvs :: "(string, etcd_kv) gomap"

definition store_get :: "string \<Rightarrow> etcd_store \<Rightarrow> etcd_kv option" where
  "store_get k s = map_of (storeKvs s) k"

fun cmp_holds :: "etcd_store \<Rightarrow> etcd_cmp \<Rightarrow> bool" where
  "cmp_holds s (VersionZero k) \<longleftrightarrow> store_get k s = None"
| "cmp_holds s (ModRevisionIs k r) \<longleftrightarrow>
     (case store_get k s of None \<Rightarrow> r = 0 | Some kv \<Rightarrow> kvModRevision kv = r)"

definition next_version :: "etcd_kv option \<Rightarrow> nat" where
  "next_version old = (case old of None \<Rightarrow> 1 | Some kv \<Rightarrow> Suc (kvVersion kv))"

fun apply_op :: "int \<Rightarrow> etcd_op \<Rightarrow> (string, etcd_kv) gomap \<Rightarrow> (string, etcd_kv) gomap" where
  "apply_op r (OpPut k v l) m =
     AList.update k \<lparr>kvValue = v, kvModRevision = r, kvVersion = next_version (map_of m k), kvLease = l\<rparr> m"
| "apply_op r (OpDelete k) m = AList.delete k m"

definition store_commit :: "etcd_op list \<Rightarrow> etcd_store \<Rightarrow> etcd_store" where
  "store_commit ops s =
     \<lparr>storeRev = storeRev s + 1, storeKvs = fold (apply_op (storeRev s + 1)) ops (storeKvs s)\<rparr>"

definition store_txn :: "etcd_cmp list \<Rightarrow> etcd_op list \<Rightarrow> etcd_store \<Rightarrow> bool \<times> etcd_store" where
  "store_txn cs ops s = (if list_all (cmp_holds s) cs then (True, store_commit ops s) else (False, s))"

text \<open>
  Transactions of a set of clients: \<open>P s ops\<close> says that one of them may commit \<open>ops\<close> at \<open>s\<close>.
\<close>

inductive client_steps :: "(etcd_store \<Rightarrow> etcd_op list \<Rightarrow> bool) \<Rightarrow> etcd_store \<Rightarrow> etcd_store \<Rightarrow> bool"
  for P where
  client_refl: "client_steps P s s"
| client_step: "client_steps P s t \<Longrightarrow> P t ops \<Longrightarrow> client_steps P s (store_commit ops t)"

definition has_prefix :: "string \<Rightarrow> string \<Rightarrow> bool" where
  "has_prefix p k \<longleftrightarrow> take (length p) k = p"

definition with_prefix :: "string \<Rightarrow> (string \<times> etcd_kv) list \<Rightarrow> (string \<times> etcd_kv) list" where
  "with_prefix p kvs = filter (\<lambda>(k, _). has_prefix p k) kvs"

fun in_range :: "etcd_range \<Rightarrow> string \<Rightarrow> bool" where
  "in_range (RangeKey k) j \<longleftrightarrow> j = k"
| "in_range (RangePrefix p) j \<longleftrightarrow> has_prefix p j"

definition range_result :: "etcd_store \<Rightarrow> etcd_range \<Rightarrow> (string \<times> etcd_kv) list \<Rightarrow> bool" where
  "range_result s r xs \<longleftrightarrow> distinct (map fst xs) \<and>
     (\<forall>k kv. (k, kv) \<in> set xs \<longleftrightarrow> in_range r k \<and> store_get k s = Some kv)"

definition etcd_ok ::
  "'e etcd \<Rightarrow> ('e \<Rightarrow> etcd_store) \<Rightarrow> (etcd_store \<Rightarrow> etcd_op list \<Rightarrow> bool) \<Rightarrow> bool" where
  "etcd_ok E view P \<longleftrightarrow>
     (\<forall>k e. client_steps P (view e) (view (snd (eGet E k e))) \<and>
        (\<forall>x. fst (eGet E k e) = Inr x \<longrightarrow> x = store_get k (view (snd (eGet E k e))))) \<and>
     (\<forall>p e. client_steps P (view e) (view (snd (eGetPrefix E p e))) \<and>
        (\<forall>xs. fst (eGetPrefix E p e) = Inr xs \<longrightarrow>
           distinct (map fst xs) \<and>
           (\<forall>k kv. (k, kv) \<in> set xs \<longleftrightarrow> has_prefix p k \<and> store_get k (view (snd (eGetPrefix E p e))) = Some kv))) \<and>
     (\<forall>cs ops e. \<exists>s. client_steps P (view e) s \<and>
        (\<forall>b. fst (eTxn E cs ops e) = Inr b \<longrightarrow> (b, view (snd (eTxn E cs ops e))) = store_txn cs ops s) \<and>
        view (snd (eTxn E cs ops e)) \<in> {s, snd (store_txn cs ops s)}) \<and>
     (\<forall>rs e. client_steps P (view e) (view (snd (eRanges E rs e))) \<and>
        (\<forall>xss. fst (eRanges E rs e) = Inr xss \<longrightarrow>
           list_all2 (range_result (view (snd (eRanges E rs e)))) rs xss))"

text \<open>The laws of the service, one per request.\<close>

lemma etcd_get:
  assumes "etcd_ok E view P" and "eGet E k e = (r, e')"
  shows "client_steps P (view e) (view e')" and "r = Inr x \<Longrightarrow> store_get k (view e') = x"
  using assms unfolding etcd_ok_def by (metis fst_conv snd_conv)+

lemma etcd_get_prefix:
  assumes "etcd_ok E view P" and "eGetPrefix E p e = (r, e')"
  shows "client_steps P (view e) (view e')"
    and "r = Inr xs \<Longrightarrow> distinct (map fst xs)"
    and "r = Inr xs \<Longrightarrow> (k, kv) \<in> set xs \<longleftrightarrow> has_prefix p k \<and> store_get k (view e') = Some kv"
  using assms unfolding etcd_ok_def by (metis fst_conv snd_conv)+

lemma etcd_txn:
  assumes "etcd_ok E view P" and "eTxn E cs ops e = (r, e')"
  obtains s where "client_steps P (view e) s"
    and "\<And>b. r = Inr b \<Longrightarrow> store_txn cs ops s = (b, view e')"
    and "view e' = s \<or> view e' = snd (store_txn cs ops s)"
proof -
  from assms(1) obtain s where "client_steps P (view e) s"
    and "\<forall>b. fst (eTxn E cs ops e) = Inr b \<longrightarrow> (b, view (snd (eTxn E cs ops e))) = store_txn cs ops s"
    and "view (snd (eTxn E cs ops e)) \<in> {s, snd (store_txn cs ops s)}"
    unfolding etcd_ok_def by meson
  with assms(2) show ?thesis by (intro that [of s]) auto
qed

lemma etcd_ranges:
  assumes "etcd_ok E view P" and "eRanges E rs e = (r, e')"
  shows "client_steps P (view e) (view e')" and "r = Inr xss \<Longrightarrow> list_all2 (range_result (view e')) rs xss"
  using assms unfolding etcd_ok_def by (metis fst_conv snd_conv)+

section \<open>Histories\<close>

lemma client_steps_trans:
  assumes "client_steps P s t" and "client_steps P t u" shows "client_steps P s u"
  using assms(2,1) by induction (auto intro: client_steps.intros)

lemma client_steps_mono:
  assumes "client_steps P s t" and "\<And>s ops. P s ops \<Longrightarrow> Q s ops" shows "client_steps Q s t"
  using assms(1) by induction (auto intro: client_steps.intros assms(2))

lemma client_steps_keep:
  assumes "client_steps P s t" and "I s" and "\<And>s ops. I s \<Longrightarrow> P s ops \<Longrightarrow> I (store_commit ops s)"
  shows "I t"
  using assms(1,2) by induction (auto intro: assms(3))

text \<open>Revisions of the keys are positive and bounded by the revision of the store; keys are distinct.\<close>

definition revs_below :: "int \<Rightarrow> (string, etcd_kv) gomap \<Rightarrow> bool" where
  "revs_below r m \<longleftrightarrow> distinct (map fst m) \<and>
     (\<forall>k kv. map_of m k = Some kv \<longrightarrow> 0 < kvModRevision kv \<and> kvModRevision kv \<le> r)"

definition store_ok :: "etcd_store \<Rightarrow> bool" where
  "store_ok s \<longleftrightarrow> 0 \<le> storeRev s \<and> revs_below (storeRev s) (storeKvs s)"

lemma apply_op_revs: "0 < r \<Longrightarrow> revs_below r m \<Longrightarrow> revs_below r (apply_op r opn m)"
  by (cases opn)
    (auto simp: revs_below_def update_conv' delete_conv' distinct_update AList.distinct_delete
      split: if_splits simp del: map_of_eq_Some_iff)

lemma apply_ops_revs: "0 < r \<Longrightarrow> revs_below r m \<Longrightarrow> revs_below r (fold (apply_op r) ops m)"
  by (induction ops arbitrary: m) (auto intro: apply_op_revs)

lemma store_commit_ok: "store_ok s \<Longrightarrow> store_ok (store_commit ops s)"
proof -
  assume "store_ok s"
  then have "0 < storeRev s + 1" "revs_below (storeRev s + 1) (storeKvs s)"
    by (force simp: store_ok_def revs_below_def simp del: map_of_eq_Some_iff)+
  from apply_ops_revs [OF this, of ops] \<open>0 < storeRev s + 1\<close>
  show ?thesis by (simp add: store_ok_def store_commit_def)
qed

lemma store_ok_rev: "store_ok s \<Longrightarrow> store_get k s = Some kv \<Longrightarrow> 0 < kvModRevision kv \<and> kvModRevision kv \<le> storeRev s"
  by (auto simp: store_ok_def revs_below_def store_get_def)

lemma client_steps_ok: "client_steps P s t \<Longrightarrow> store_ok s \<Longrightarrow> store_ok t"
  by (rule client_steps_keep [where I = store_ok and P = P]) (auto intro: store_commit_ok)

text \<open>A key that a history touches has a revision the store did not have before.\<close>

lemma apply_ops_fresh:
  "\<forall>kv. map_of m k = Some kv \<longrightarrow> map_of m0 k = Some kv \<or> kvModRevision kv = r \<Longrightarrow>
   \<forall>kv. map_of (fold (apply_op r) ops m) k = Some kv \<longrightarrow> map_of m0 k = Some kv \<or> kvModRevision kv = r"
proof (induction ops arbitrary: m)
  case Nil
  then show ?case by simp
next
  case (Cons x ops)
  have "\<forall>kv. map_of (apply_op r x m) k = Some kv \<longrightarrow> map_of m0 k = Some kv \<or> kvModRevision kv = r"
    using Cons.prems by (cases x) (auto simp: update_conv' delete_conv' split: if_splits)
  from Cons.IH [OF this] show ?case by simp
qed

lemma store_commit_fresh:
  "store_get k (store_commit ops s) = Some kv \<Longrightarrow> store_get k s = Some kv \<or> kvModRevision kv = storeRev s + 1"
  using apply_ops_fresh [of "storeKvs s" k "storeKvs s" "storeRev s + 1" ops]
  by (auto simp: store_get_def store_commit_def)

lemma client_steps_fresh:
  assumes "client_steps P s t"
  shows "storeRev s \<le> storeRev t \<and>
    (\<forall>kv. store_get k t = Some kv \<longrightarrow> store_get k s = Some kv \<or> storeRev s < kvModRevision kv)"
  using assms
proof induction
  case client_refl
  then show ?case by simp
next
  case (client_step s t ops)
  have rev: "storeRev (store_commit ops t) = storeRev t + 1" by (simp add: store_commit_def)
  show ?case
  proof (intro conjI allI impI)
    show "storeRev s \<le> storeRev (store_commit ops t)" using client_step.IH rev by simp
  next
    fix kv assume "store_get k (store_commit ops t) = Some kv"
    then show "store_get k s = Some kv \<or> storeRev s < kvModRevision kv"
      using store_commit_fresh [of k ops t kv] client_step.IH by auto
  qed
qed

text \<open>The optimistic lock: an unchanged revision means an unchanged value.\<close>

lemma unchanged_revision:
  assumes "client_steps P s t" and "store_ok s" and "store_get k s = Some kv"
    and "cmp_holds t (ModRevisionIs k (kvModRevision kv))"
  shows "store_get k t = Some kv"
proof -
  have r: "0 < kvModRevision kv" "kvModRevision kv \<le> storeRev s" using store_ok_rev assms(2,3) by blast+
  then obtain kv' where kv': "store_get k t = Some kv'" "kvModRevision kv' = kvModRevision kv"
    using assms(4) by (auto split: option.splits)
  then have "store_get k s = Some kv'" using client_steps_fresh [OF assms(1), of k] r by auto
  then show ?thesis using assms(3) kv'(1) by simp
qed

lemma store_get_put [simp]:
  "store_get j (store_commit [OpPut k v l] s) =
     (if j = k then Some \<lparr>kvValue = v, kvModRevision = storeRev s + 1, kvVersion = next_version (store_get k s), kvLease = l\<rparr>
      else store_get j s)"
  by (simp add: store_get_def store_commit_def update_conv')

lemma store_get_delete [simp]:
  "store_get j (store_commit [OpDelete k] s) = (if j = k then None else store_get j s)"
  by (simp add: store_get_def store_commit_def delete_conv')

lemma with_prefix_in:
  "(k, kv) \<in> set (AList.clearjunk (with_prefix p m)) \<longleftrightarrow> has_prefix p k \<and> map_of m k = Some kv"
proof -
  have "map_of (with_prefix p m) k = (if has_prefix p k then map_of m k else None)"
    by (induction m) (auto simp: with_prefix_def)
  then show ?thesis
    using map_of_eq_Some_iff [OF distinct_clearjunk, of "with_prefix p m" k kv]
    by (auto simp: map_of_clearjunk split: if_splits)
qed

text \<open>A transaction is a step of the clients when its committed writes are.\<close>

lemma etcd_txn_steps:
  assumes "etcd_ok E view P" and "eTxn E cs ops e = (r, e')"
    and "\<And>t. client_steps P (view e) t \<Longrightarrow> list_all (cmp_holds t) cs \<Longrightarrow> P t ops"
  shows "client_steps P (view e) (view e')"
    and "r = Inr True \<Longrightarrow> \<exists>t. client_steps P (view e) t \<and> list_all (cmp_holds t) cs \<and> view e' = store_commit ops t"
proof -
  obtain s where s: "client_steps P (view e) s" "\<And>b. r = Inr b \<Longrightarrow> store_txn cs ops s = (b, view e')"
    "view e' = s \<or> view e' = snd (store_txn cs ops s)"
    using etcd_txn [OF assms(1,2)] by blast
  have "client_steps P (view e) (snd (store_txn cs ops s))"
    using s(1) assms(3) [OF s(1)] by (auto simp: store_txn_def intro: client_step)
  then show "client_steps P (view e) (view e')" using s(1,3) by auto
  show "\<exists>t. client_steps P (view e) t \<and> list_all (cmp_holds t) cs \<and> view e' = store_commit ops t" if "r = Inr True"
    using s(1) s(2) [OF that] by (auto simp: store_txn_def split: if_splits)
qed

section \<open>A service that answers every request, with no other client\<close>

definition etcd_quiet :: "'e etcd \<Rightarrow> ('e \<Rightarrow> etcd_store) \<Rightarrow> bool" where
  "etcd_quiet E view \<longleftrightarrow> etcd_ok E view (\<lambda>_ _. False) \<and>
     (\<forall>k e. \<exists>x. fst (eGet E k e) = Inr x) \<and> (\<forall>p e. \<exists>xs. fst (eGetPrefix E p e) = Inr xs) \<and>
     (\<forall>cs ops e. \<exists>b. fst (eTxn E cs ops e) = Inr b) \<and> (\<forall>rs e. \<exists>xss. fst (eRanges E rs e) = Inr xss)"

lemma no_steps: "client_steps (\<lambda>_ _. False) s t \<Longrightarrow> t = s"
  by (induction rule: client_steps.induct) auto

lemma quiet_get:
  assumes "etcd_quiet E view"
  obtains e' where "eGet E k e = (Inr (store_get k (view e)), e')" "view e' = view e"
proof -
  obtain x e' where g: "eGet E k e = (Inr x, e')"
    using assms unfolding etcd_quiet_def by (metis surjective_pairing)
  have ok: "etcd_ok E view (\<lambda>_ _. False)" using assms by (simp add: etcd_quiet_def)
  have v: "view e' = view e" using etcd_get(1) [OF ok g] no_steps by blast
  show thesis using etcd_get(2) [OF ok g] g v by (intro that [of e']) auto
qed

lemma quiet_prefix:
  assumes "etcd_quiet E view"
  obtains xs e' where "eGetPrefix E p e = (Inr xs, e')" "view e' = view e" "distinct (map fst xs)"
    "\<And>k kv. (k, kv) \<in> set xs \<longleftrightarrow> has_prefix p k \<and> store_get k (view e) = Some kv"
proof -
  obtain xs e' where g: "eGetPrefix E p e = (Inr xs, e')"
    using assms unfolding etcd_quiet_def by (metis surjective_pairing)
  have ok: "etcd_ok E view (\<lambda>_ _. False)" using assms by (simp add: etcd_quiet_def)
  note law = etcd_get_prefix [OF ok g]
  have v: "view e' = view e" using law(1) no_steps by blast
  show thesis using law(2,3) g v by (intro that [of xs e']) auto
qed

lemma quiet_txn:
  assumes "etcd_quiet E view"
  obtains b e' where "eTxn E cs ops e = (Inr b, e')" "store_txn cs ops (view e) = (b, view e')"
proof -
  obtain b e' where g: "eTxn E cs ops e = (Inr b, e')"
    using assms unfolding etcd_quiet_def by (metis surjective_pairing)
  have ok: "etcd_ok E view (\<lambda>_ _. False)" using assms by (simp add: etcd_quiet_def)
  obtain s where "client_steps (\<lambda>_ _. False) (view e) s" "store_txn cs ops s = (b, view e')"
    using etcd_txn [OF ok g] by blast
  then show thesis using no_steps g that by blast
qed

lemma quiet_ranges:
  assumes "etcd_quiet E view"
  obtains xss e' where "eRanges E rs e = (Inr xss, e')" "view e' = view e" "list_all2 (range_result (view e)) rs xss"
proof -
  obtain xss e' where g: "eRanges E rs e = (Inr xss, e')"
    using assms unfolding etcd_quiet_def by (metis surjective_pairing)
  have ok: "etcd_ok E view (\<lambda>_ _. False)" using assms by (simp add: etcd_quiet_def)
  have v: "view e' = view e" using etcd_ranges(1) [OF ok g] no_steps by blast
  show thesis using etcd_ranges(2) [OF ok g] g v by (intro that [of xss e']) auto
qed

definition range_of :: "etcd_store \<Rightarrow> etcd_range \<Rightarrow> (string \<times> etcd_kv) list" where
  "range_of s r = filter (\<lambda>(k, kv). in_range r k) (AList.clearjunk (storeKvs s))"

lemma range_of_result: "range_result s r (range_of s r)"
  by (auto simp: range_result_def range_of_def store_get_def distinct_clearjunk map_of_clearjunk distinct_map_filter
      simp flip: map_of_eq_Some_iff [OF distinct_clearjunk])

lemma ranges_of_result: "list_all2 (range_result s) rs (map (range_of s) rs)"
  by (induction rs) (auto simp: range_of_result)

section \<open>A simulated service\<close>

text \<open>
  An instance of the interface that plays a script: before each request the transactions of the
  other clients listed for it are committed, and the request may be answered with an error, after
  taking effect or without. It serves to run the code of the cluster on concrete inputs.
\<close>

datatype sim_fault = SimAnswers | SimLostBefore | SimLostAfter

record sim =
  simStore :: etcd_store
  simScript :: "(etcd_op list list \<times> sim_fault) list"

definition sim_others :: "(etcd_store \<Rightarrow> etcd_op list \<Rightarrow> bool) \<Rightarrow> etcd_op list list \<Rightarrow> etcd_store \<Rightarrow> etcd_store" where
  "sim_others P txns s = fold (\<lambda>ops s. if P s ops then store_commit ops s else s) txns s"

definition sim_turn :: "(etcd_store \<Rightarrow> etcd_op list \<Rightarrow> bool) \<Rightarrow> sim \<Rightarrow> sim_fault \<times> sim" where
  "sim_turn P e = (case simScript e of
       [] \<Rightarrow> (SimAnswers, e)
     | (txns, f) # rest \<Rightarrow> (f, \<lparr>simStore = sim_others P txns (simStore e), simScript = rest\<rparr>))"

definition sim_etcd :: "(etcd_store \<Rightarrow> etcd_op list \<Rightarrow> bool) \<Rightarrow> sim etcd" where
  "sim_etcd P =
     \<lparr>eGet = (\<lambda>k e. case sim_turn P e of (f, e') \<Rightarrow>
        (if f = SimAnswers then Inr (store_get k (simStore e')) else Inl EEtcd, e')),
      eGetPrefix = (\<lambda>p e. case sim_turn P e of (f, e') \<Rightarrow>
        (if f = SimAnswers then Inr (AList.clearjunk (with_prefix p (storeKvs (simStore e')))) else Inl EEtcd, e')),
      eTxn = (\<lambda>cs ops e. case sim_turn P e of (f, e') \<Rightarrow>
        (case store_txn cs ops (simStore e') of (b, s) \<Rightarrow>
          (if f = SimAnswers then Inr b else Inl EEtcd,
           if f = SimLostBefore then e' else e'\<lparr>simStore := s\<rparr>))),
      eRanges = (\<lambda>rs e. case sim_turn P e of (f, e') \<Rightarrow>
        (if f = SimAnswers then Inr (map (range_of (simStore e')) rs) else Inl EEtcd, e'))\<rparr>"

lemma sim_others_steps: "client_steps P s (sim_others P txns s)"
proof (induction txns arbitrary: s)
  case Nil
  then show ?case by (simp add: sim_others_def client_refl)
next
  case (Cons ops txns)
  show ?case
  proof (cases "P s ops")
    case True
    then have "client_steps P s (store_commit ops s)" by (intro client_step client_refl)
    then show ?thesis using client_steps_trans [OF _ Cons.IH [of "store_commit ops s"]] True
      by (simp add: sim_others_def)
  qed (use Cons.IH [of s] in \<open>simp add: sim_others_def\<close>)
qed

lemma sim_turn_steps: "sim_turn P e = (f, e') \<Longrightarrow> client_steps P (simStore e) (simStore e')"
  by (auto simp: sim_turn_def sim_others_steps intro: client_refl split: list.splits)

theorem sim_etcd_ok: "etcd_ok (sim_etcd P) simStore P"
  unfolding etcd_ok_def
proof (intro conjI allI)
  fix k e
  show "client_steps P (simStore e) (simStore (snd (eGet (sim_etcd P) k e)))"
    by (auto simp: sim_etcd_def dest: sim_turn_steps split: prod.splits)
  show "fst (eGet (sim_etcd P) k e) = Inr x \<longrightarrow> x = store_get k (simStore (snd (eGet (sim_etcd P) k e)))" for x
    by (auto simp: sim_etcd_def split: prod.splits if_splits)
next
  fix p e
  show "client_steps P (simStore e) (simStore (snd (eGetPrefix (sim_etcd P) p e)))"
    by (auto simp: sim_etcd_def dest: sim_turn_steps split: prod.splits)
  show "fst (eGetPrefix (sim_etcd P) p e) = Inr xs \<longrightarrow> distinct (map fst xs) \<and>
      (\<forall>k kv. (k, kv) \<in> set xs \<longleftrightarrow> has_prefix p k \<and> store_get k (simStore (snd (eGetPrefix (sim_etcd P) p e))) = Some kv)" for xs
    by (auto simp: sim_etcd_def with_prefix_in store_get_def distinct_clearjunk split: prod.splits if_splits)
next
  fix cs ops e
  obtain f e1 where t: "sim_turn P e = (f, e1)" by (cases "sim_turn P e")
  obtain b s where c: "store_txn cs ops (simStore e1) = (b, s)" by (cases "store_txn cs ops (simStore e1)")
  have rng: "client_steps P (simStore e) (simStore (snd (eRanges (sim_etcd P) rs e)))"
    "fst (eRanges (sim_etcd P) rs e) = Inr xss \<longrightarrow>
       list_all2 (range_result (simStore (snd (eRanges (sim_etcd P) rs e)))) rs xss" for rs xss
    by (auto simp: sim_etcd_def ranges_of_result dest: sim_turn_steps split: prod.splits if_splits)
  show "client_steps P (simStore e) (simStore (snd (eRanges (sim_etcd P) rs e)))" for rs by (rule rng)
  show "fst (eRanges (sim_etcd P) rs e) = Inr xss \<longrightarrow>
       list_all2 (range_result (simStore (snd (eRanges (sim_etcd P) rs e)))) rs xss" for rs xss by (rule rng)
  show "\<exists>s. client_steps P (simStore e) s \<and>
      (\<forall>b. fst (eTxn (sim_etcd P) cs ops e) = Inr b \<longrightarrow> (b, simStore (snd (eTxn (sim_etcd P) cs ops e))) = store_txn cs ops s) \<and>
      simStore (snd (eTxn (sim_etcd P) cs ops e)) \<in> {s, snd (store_txn cs ops s)}"
    using sim_turn_steps [OF t] by (intro exI [of _ "simStore e1"]) (simp add: sim_etcd_def t c)
qed

lemma sim_others_simps [simp]:
  "sim_others P [] s = s"
  "sim_others P (ops # txns) s = sim_others P txns (if P s ops then store_commit ops s else s)"
  by (simp_all add: sim_others_def)

lemma sim_turn_simps [simp]:
  "sim_turn P \<lparr>simStore = s, simScript = []\<rparr> = (SimAnswers, \<lparr>simStore = s, simScript = []\<rparr>)"
  "sim_turn P \<lparr>simStore = s, simScript = (txns, f) # rest\<rparr> =
     (f, \<lparr>simStore = sim_others P txns s, simScript = rest\<rparr>)"
  by (simp_all add: sim_turn_def)

lemma sim_etcd_simps [simp]:
  "eGet (sim_etcd P) k e = (case sim_turn P e of (f, e') \<Rightarrow>
     (if f = SimAnswers then Inr (store_get k (simStore e')) else Inl EEtcd, e'))"
  "eGetPrefix (sim_etcd P) p e = (case sim_turn P e of (f, e') \<Rightarrow>
     (if f = SimAnswers then Inr (AList.clearjunk (with_prefix p (storeKvs (simStore e')))) else Inl EEtcd, e'))"
  "eTxn (sim_etcd P) cs ops e = (case sim_turn P e of (f, e') \<Rightarrow>
     (case store_txn cs ops (simStore e') of (b, s) \<Rightarrow>
       (if f = SimAnswers then Inr b else Inl EEtcd,
        if f = SimLostBefore then e' else e'\<lparr>simStore := s\<rparr>)))"
  "eRanges (sim_etcd P) rs e = (case sim_turn P e of (f, e') \<Rightarrow>
     (if f = SimAnswers then Inr (map (range_of (simStore e')) rs) else Inl EEtcd, e'))"
  by (simp_all add: sim_etcd_def)

lemma storeRev_commit [simp]: "storeRev (store_commit ops s) = storeRev s + 1"
  by (simp add: store_commit_def)

lemma store_get_empty [simp]: "store_get k \<lparr>storeRev = r, storeKvs = []\<rparr> = None"
  by (simp add: store_get_def)

text \<open>The simulated service with nothing left on its script is quiet, whatever its state is wrapped in.\<close>

definition calm_etcd :: "etcd_store etcd" where
  "calm_etcd =
     \<lparr>eGet = (\<lambda>k s. (Inr (store_get k s), s)),
      eGetPrefix = (\<lambda>p s. (Inr (AList.clearjunk (with_prefix p (storeKvs s))), s)),
      eTxn = (\<lambda>cs ops s. case store_txn cs ops s of (b, s') \<Rightarrow> (Inr b, s')),
      eRanges = (\<lambda>rs s. (Inr (map (range_of s) rs), s))\<rparr>"

lemma calm_etcd_quiet: "etcd_quiet calm_etcd (\<lambda>s. s)"
  by (auto simp: etcd_quiet_def etcd_ok_def calm_etcd_def with_prefix_in store_get_def distinct_clearjunk ranges_of_result
      intro: client_refl split: prod.splits)

lemma calm_etcd_simps [simp]:
  "eGet calm_etcd k s = (Inr (store_get k s), s)"
  "eGetPrefix calm_etcd p s = (Inr (AList.clearjunk (with_prefix p (storeKvs s))), s)"
  "eTxn calm_etcd cs ops s = (case store_txn cs ops s of (b, s') \<Rightarrow> (Inr b, s'))"
  "eRanges calm_etcd rs s = (Inr (map (range_of s) rs), s)"
  by (simp_all add: calm_etcd_def)

end
