(* ===== verification/TopicMeta.thy ===== *)
theory TopicMeta
  imports Etcd
begin

text \<open>
  Topic parameters in etcd, \<open>server/cluster/topic_metadata.go\<close>: reading, compare-and-swap writing and
  the retried read-modify-write \<open>mutateTopic\<close> with its three mutators. A context that is done when
  an attempt has lost its race is the argument \<open>ctxDone\<close>, by the number of the attempt.
\<close>

definition TopicPath :: string where "TopicPath = ''/kafka/topic/''"

definition ContainsNode :: "PartitionsParams \<Rightarrow> int \<Rightarrow> bool" where
  "ContainsNode p nodeID = list_ex (\<lambda>i. i = nodeID) (ReplicasNodeId p)"

definition IsInSync :: "PartitionsParams \<Rightarrow> int \<Rightarrow> bool" where
  "IsInSync p nodeID = list_ex (\<lambda>i. i = nodeID) (IsrNodeId p)"

definition topicKey :: "string \<Rightarrow> string" where
  "topicKey name = TopicPath @ name"

section \<open>Reading and writing\<close>

definition GetTopic ::
  "'e etcd \<Rightarrow> string \<Rightarrow> 'e \<Rightarrow> (cluster_error + (TopicParams \<times> int) option) \<times> 'e" where
  "GetTopic E name e =
     (case eGet E (topicKey name) e of
        (Inl x, e') \<Rightarrow> (Inl x, e')
      | (Inr None, e') \<Rightarrow> (Inr None, e')
      | (Inr (Some kv), e') \<Rightarrow>
          (case as_topic (kvValue kv) of
             None \<Rightarrow> (Inl EJson, e')
           | Some params \<Rightarrow> (Inr (Some (params, kvModRevision kv)), e')))"

definition ListTopics :: "'e etcd \<Rightarrow> 'e \<Rightarrow> (cluster_error + TopicParams list) \<times> 'e" where
  "ListTopics E e =
     (case eGetPrefix E TopicPath e of
        (Inl x, e') \<Rightarrow> (Inl x, e')
      | (Inr kvs, e') \<Rightarrow> (Inr (List.map_filter (\<lambda>(k, kv). as_topic (kvValue kv)) kvs), e'))"

definition PutTopicCAS :: "'e etcd \<Rightarrow> TopicParams \<Rightarrow> int \<Rightarrow> 'e \<Rightarrow> (cluster_error + bool) \<times> 'e" where
  "PutTopicCAS E params expectedRev e =
     (let key = topicKey (tpName params);
          cond = (if expectedRev = 0 then VersionZero key else ModRevisionIs key expectedRev)
      in eTxn E [cond] [OpPut key (VTopic params) 0] e)"

definition maxRetries :: nat where "maxRetries = 5"

fun mutate_attempts ::
  "'e etcd \<Rightarrow> (nat \<Rightarrow> bool) \<Rightarrow> string \<Rightarrow> (TopicParams \<Rightarrow> cluster_error + TopicParams) \<Rightarrow> nat \<Rightarrow> 'e
   \<Rightarrow> cluster_error option \<times> 'e" where
  "mutate_attempts E ctxDone name mutate 0 e = (Some ECasContention, e)"
| "mutate_attempts E ctxDone name mutate (Suc n) e =
     (case GetTopic E name e of
        (Inl x, e1) \<Rightarrow> (Some x, e1)
      | (Inr None, e1) \<Rightarrow> (Some EMetaTopicNotFound, e1)
      | (Inr (Some (params, modRev)), e1) \<Rightarrow>
          (case mutate params of
             Inl x \<Rightarrow> (Some x, e1)
           | Inr params' \<Rightarrow>
               (case PutTopicCAS E params' modRev e1 of
                  (Inl x, e2) \<Rightarrow> (Some x, e2)
                | (Inr True, e2) \<Rightarrow> (None, e2)
                | (Inr False, e2) \<Rightarrow>
                    if ctxDone n then (Some ECtxDone, e2)
                    else mutate_attempts E ctxDone name mutate n e2)))"

definition mutateTopic ::
  "'e etcd \<Rightarrow> (nat \<Rightarrow> bool) \<Rightarrow> string \<Rightarrow> (TopicParams \<Rightarrow> cluster_error + TopicParams) \<Rightarrow> 'e
   \<Rightarrow> cluster_error option \<times> 'e" where
  "mutateTopic E ctxDone name mutate e = mutate_attempts E ctxDone name mutate maxRetries e"

section \<open>The mutators\<close>

text \<open>The loops over \<open>params.Partitions\<close> act on the first partition with the id and return.\<close>

fun first_partition ::
  "int \<Rightarrow> (PartitionsParams \<Rightarrow> cluster_error + PartitionsParams) \<Rightarrow> cluster_error option
   \<Rightarrow> PartitionsParams list \<Rightarrow> cluster_error + PartitionsParams list" where
  "first_partition i f missing [] = (case missing of None \<Rightarrow> Inr [] | Some x \<Rightarrow> Inl x)"
| "first_partition i f missing (p # ps) =
     (if PartitionId p = i then (case f p of Inl x \<Rightarrow> Inl x | Inr p' \<Rightarrow> Inr (p' # ps))
      else (case first_partition i f missing ps of Inl x \<Rightarrow> Inl x | Inr ps' \<Rightarrow> Inr (p # ps')))"

definition on_partition ::
  "int \<Rightarrow> (PartitionsParams \<Rightarrow> cluster_error + PartitionsParams) \<Rightarrow> cluster_error option
   \<Rightarrow> TopicParams \<Rightarrow> cluster_error + TopicParams" where
  "on_partition i f missing params =
     (case first_partition i f missing (Partitions params) of
        Inl x \<Rightarrow> Inl x | Inr ps \<Rightarrow> Inr (params\<lparr>Partitions := ps\<rparr>))"

definition add_replica :: "int \<Rightarrow> PartitionsParams \<Rightarrow> cluster_error + PartitionsParams" where
  "add_replica nodeID p =
     (if ContainsNode p nodeID then Inr p
      else Inr (p\<lparr>ReplicasNodeId := ReplicasNodeId p @ [nodeID]\<rparr>))"

definition mark_in_sync :: "int \<Rightarrow> PartitionsParams \<Rightarrow> cluster_error + PartitionsParams" where
  "mark_in_sync nodeID p =
     (if \<not> ContainsNode p nodeID then Inl (ENotReplica nodeID (PartitionId p))
      else if IsInSync p nodeID then Inr p
      else Inr (p\<lparr>IsrNodeId := IsrNodeId p @ [nodeID]\<rparr>))"

fun removeInt64 :: "int list \<Rightarrow> int \<Rightarrow> int list" where
  "removeInt64 [] v = []"
| "removeInt64 (x # s) v = (if x \<noteq> v then x # removeInt64 s v else removeInt64 s v)"

definition remove_node :: "int \<Rightarrow> PartitionsParams \<Rightarrow> cluster_error + PartitionsParams" where
  "remove_node nodeID p =
     Inr (p\<lparr>ReplicasNodeId := removeInt64 (ReplicasNodeId p) nodeID,
            IsrNodeId := removeInt64 (IsrNodeId p) nodeID\<rparr>)"

definition AddReplicaToPartition ::
  "'e etcd \<Rightarrow> (nat \<Rightarrow> bool) \<Rightarrow> string \<Rightarrow> int \<Rightarrow> int \<Rightarrow> 'e \<Rightarrow> cluster_error option \<times> 'e" where
  "AddReplicaToPartition E ctxDone tname partitionID nodeID =
     mutateTopic E ctxDone tname
       (on_partition partitionID (add_replica nodeID) (Some (EPartitionNotFound partitionID tname)))"

definition MarkNodeInSync ::
  "'e etcd \<Rightarrow> (nat \<Rightarrow> bool) \<Rightarrow> string \<Rightarrow> int \<Rightarrow> int \<Rightarrow> 'e \<Rightarrow> cluster_error option \<times> 'e" where
  "MarkNodeInSync E ctxDone tname partitionID nodeID =
     mutateTopic E ctxDone tname
       (on_partition partitionID (mark_in_sync nodeID) (Some (EPartitionNotFound partitionID tname)))"

definition RemoveNodeFromPartition ::
  "'e etcd \<Rightarrow> (nat \<Rightarrow> bool) \<Rightarrow> string \<Rightarrow> int \<Rightarrow> int \<Rightarrow> 'e \<Rightarrow> cluster_error option \<times> 'e" where
  "RemoveNodeFromPartition E ctxDone tname partitionID nodeID =
     mutateTopic E ctxDone tname (on_partition partitionID (remove_node nodeID) None)"

section \<open>Well-formed topic keys\<close>

definition partition_ok :: "PartitionsParams \<Rightarrow> bool" where
  "partition_ok p \<longleftrightarrow> distinct (ReplicasNodeId p) \<and> distinct (IsrNodeId p) \<and>
     set (IsrNodeId p) \<subseteq> set (ReplicasNodeId p)"

definition topic_ok :: "TopicParams \<Rightarrow> bool" where
  "topic_ok t \<longleftrightarrow> distinct (map PartitionId (Partitions t)) \<and> (\<forall>p\<in>set (Partitions t). partition_ok p)"

definition topics_ok :: "etcd_store \<Rightarrow> bool" where
  "topics_ok s \<longleftrightarrow> store_ok s \<and>
     (\<forall>name kv. store_get (topicKey name) s = Some kv \<longrightarrow>
        (\<exists>t. kvValue kv = VTopic t \<and> tpName t = name \<and> topic_ok t))"

text \<open>What the other clients of the service do to topic keys.\<close>

definition topic_clients :: "etcd_store \<Rightarrow> etcd_op list \<Rightarrow> bool" where
  "topic_clients s ops \<longleftrightarrow> (topics_ok s \<longrightarrow> topics_ok (store_commit ops s))"

lemma removeInt64_filter [simp]: "removeInt64 s v = filter (\<lambda>x. x \<noteq> v) s"
  by (induction s) auto

lemma ContainsNode_iff [simp]: "ContainsNode p n \<longleftrightarrow> n \<in> set (ReplicasNodeId p)"
  by (auto simp: ContainsNode_def list_ex_iff)

lemma IsInSync_iff [simp]: "IsInSync p n \<longleftrightarrow> n \<in> set (IsrNodeId p)"
  by (auto simp: IsInSync_def list_ex_iff)

lemma topicKey_inject [simp]: "topicKey a = topicKey b \<longleftrightarrow> a = b"
  by (simp add: topicKey_def)

lemma add_replica_ok: "partition_ok p \<Longrightarrow> add_replica n p = Inr p' \<Longrightarrow> partition_ok p' \<and> PartitionId p' = PartitionId p"
  by (auto simp: add_replica_def partition_ok_def split: if_splits)

lemma mark_in_sync_ok: "partition_ok p \<Longrightarrow> mark_in_sync n p = Inr p' \<Longrightarrow> partition_ok p' \<and> PartitionId p' = PartitionId p"
  by (auto simp: mark_in_sync_def partition_ok_def split: if_splits)

lemma remove_node_ok: "partition_ok p \<Longrightarrow> remove_node n p = Inr p' \<Longrightarrow> partition_ok p' \<and> PartitionId p' = PartitionId p"
  by (auto simp: remove_node_def partition_ok_def)

lemma first_partition_ok:
  assumes "\<And>p p'. partition_ok p \<Longrightarrow> f p = Inr p' \<Longrightarrow> partition_ok p' \<and> PartitionId p' = PartitionId p"
  shows "first_partition i f missing ps = Inr ps' \<Longrightarrow> \<forall>p\<in>set ps. partition_ok p \<Longrightarrow>
    (\<forall>p\<in>set ps'. partition_ok p) \<and> map PartitionId ps' = map PartitionId ps"
  by (induction ps arbitrary: ps') (auto split: sum.splits option.splits if_splits dest: assms)

definition keeps_topic :: "(TopicParams \<Rightarrow> cluster_error + TopicParams) \<Rightarrow> bool" where
  "keeps_topic mutate \<longleftrightarrow>
     (\<forall>t t'. topic_ok t \<longrightarrow> mutate t = Inr t' \<longrightarrow> topic_ok t' \<and> tpName t' = tpName t)"

lemma on_partition_keeps:
  assumes "\<And>p p'. partition_ok p \<Longrightarrow> f p = Inr p' \<Longrightarrow> partition_ok p' \<and> PartitionId p' = PartitionId p"
  shows "keeps_topic (on_partition i f missing)"
  unfolding keeps_topic_def
proof (intro allI impI)
  fix t t' assume "topic_ok t" "on_partition i f missing t = Inr t'"
  then obtain ps where ps: "first_partition i f missing (Partitions t) = Inr ps" "t' = t\<lparr>Partitions := ps\<rparr>"
    by (auto simp: on_partition_def split: sum.splits)
  with first_partition_ok [OF assms ps(1)] \<open>topic_ok t\<close>
  show "topic_ok t' \<and> tpName t' = tpName t" by (auto simp: topic_ok_def)
qed

lemmas mutators_keep =
  on_partition_keeps [where f = "add_replica n" for n, OF add_replica_ok]
  on_partition_keeps [where f = "mark_in_sync n" for n, OF mark_in_sync_ok]
  on_partition_keeps [where f = "remove_node n" for n, OF remove_node_ok]

section \<open>One attempt\<close>

lemma topics_ok_get:
  "topics_ok s \<Longrightarrow> store_get (topicKey name) s = Some kv \<Longrightarrow> \<exists>t. kvValue kv = VTopic t \<and> tpName t = name \<and> topic_ok t"
  by (auto simp: topics_ok_def)

lemma topics_ok_steps:
  "client_steps topic_clients s t \<Longrightarrow> topics_ok s \<Longrightarrow> topics_ok t"
  by (rule client_steps_keep [where I = topics_ok and P = topic_clients]) (auto simp: topic_clients_def)

lemma topics_ok_put:
  "topics_ok s \<Longrightarrow> topic_ok t \<Longrightarrow> topics_ok (store_commit [OpPut (topicKey (tpName t)) (VTopic t) 0] s)"
  by (auto simp: topics_ok_def store_commit_ok)

text \<open>The commit point of a write: it replaced the topic it had read by the mutated one, in one step.\<close>

definition committed ::
  "(etcd_store \<Rightarrow> etcd_op list \<Rightarrow> bool) \<Rightarrow> string \<Rightarrow> (TopicParams \<Rightarrow> cluster_error + TopicParams) \<Rightarrow> etcd_store
   \<Rightarrow> etcd_store \<Rightarrow> bool" where
  "committed P name mutate s s' \<longleftrightarrow>
     (\<exists>t kv params params'. client_steps P s t \<and> store_get (topicKey name) t = Some kv \<and>
        kvValue kv = VTopic params \<and> mutate params = Inr params' \<and>
        s' = store_commit [OpPut (topicKey name) (VTopic params') 0] t)"

lemma GetTopic_read:
  assumes "etcd_ok E view P" and "GetTopic E name e = (r, e')"
  shows "client_steps P (view e) (view e')"
    and "r = Inr (Some (params, modRev)) \<Longrightarrow>
      \<exists>kv. store_get (topicKey name) (view e') = Some kv \<and> kvValue kv = VTopic params \<and> kvModRevision kv = modRev"
    and "r = Inr None \<Longrightarrow> store_get (topicKey name) (view e') = None"
proof -
  obtain g e1 where g: "eGet E (topicKey name) e = (g, e1)" by (cases "eGet E (topicKey name) e")
  note law = etcd_get [OF assms(1) g]
  have e: "e' = e1" using assms(2) g by (auto simp: GetTopic_def split: sum.splits option.splits)
  show "client_steps P (view e) (view e')" using law(1) e by simp
  have tp: "as_topic v = Some t \<Longrightarrow> v = VTopic t" for v t by (cases v) auto
  show "r = Inr (Some (params, modRev)) \<Longrightarrow>
      \<exists>kv. store_get (topicKey name) (view e') = Some kv \<and> kvValue kv = VTopic params \<and> kvModRevision kv = modRev"
    using assms(2) g law(2) e tp by (auto simp: GetTopic_def split: sum.splits option.splits)
  show "r = Inr None \<Longrightarrow> store_get (topicKey name) (view e') = None"
    using assms(2) g law(2) e by (auto simp: GetTopic_def split: sum.splits option.splits)
qed

lemma PutTopicCAS_commit:
  assumes "etcd_ok E view P" and "PutTopicCAS E params' modRev e = (r, e')"
    and "store_ok (view e)" and "store_get (topicKey name) (view e) = Some kv"
    and "modRev = kvModRevision kv" and "tpName params' = name"
    and "kvValue kv = VTopic params" and "mutate params = Inr params'"
  shows "r = Inr True \<Longrightarrow> committed P name mutate (view e) (view e')"
    and "r = Inr False \<Longrightarrow> client_steps P (view e) (view e')"
    and "client_steps P (view e) (view e') \<or> committed P name mutate (view e) (view e')"
proof -
  let ?key = "topicKey name" and ?ops = "[OpPut (topicKey name) (VTopic params') 0]"
  have "modRev \<noteq> 0" using store_ok_rev [OF assms(3,4)] assms(5) by simp
  then have txn: "eTxn E [ModRevisionIs ?key modRev] ?ops e = (r, e')"
    using assms(2,6) by (simp add: PutTopicCAS_def Let_def)
  obtain s where s: "client_steps P (view e) s"
    "\<And>b. r = Inr b \<Longrightarrow> store_txn [ModRevisionIs ?key modRev] ?ops s = (b, view e')"
    "view e' = s \<or> view e' = snd (store_txn [ModRevisionIs ?key modRev] ?ops s)"
    using etcd_txn [OF assms(1) txn] by blast
  have com: "committed P name mutate (view e) (store_commit ?ops s)" if "cmp_holds s (ModRevisionIs ?key modRev)"
  proof -
    have "store_get ?key s = Some kv"
      using unchanged_revision [OF s(1) assms(3,4)] that assms(5) by simp
    then show ?thesis unfolding committed_def using s(1) assms(7,8) by blast
  qed
  have cases: "store_txn [ModRevisionIs ?key modRev] ?ops s =
      (if cmp_holds s (ModRevisionIs ?key modRev) then (True, store_commit ?ops s) else (False, s))"
    by (simp add: store_txn_def del: cmp_holds.simps)
  show "r = Inr True \<Longrightarrow> committed P name mutate (view e) (view e')"
    using s(2) [of True] com cases by (auto simp del: cmp_holds.simps split: if_splits)
  show "r = Inr False \<Longrightarrow> client_steps P (view e) (view e')"
    using s(1) s(2) [of False] cases by (auto simp del: cmp_holds.simps split: if_splits)
  show "client_steps P (view e) (view e') \<or> committed P name mutate (view e) (view e')"
    using s(1,3) com cases by (auto simp del: cmp_holds.simps split: if_splits)
qed

lemma committed_after: "client_steps P s t \<Longrightarrow> committed P name mutate t u \<Longrightarrow> committed P name mutate s u"
  by (auto simp: committed_def intro: client_steps_trans)

definition attempted ::
  "string \<Rightarrow> (TopicParams \<Rightarrow> cluster_error + TopicParams) \<Rightarrow> cluster_error option \<Rightarrow> etcd_store \<Rightarrow> etcd_store \<Rightarrow> bool" where
  "attempted name mutate r s s' \<longleftrightarrow>
     (case r of None \<Rightarrow> committed topic_clients name mutate s s'
      | Some x \<Rightarrow> client_steps topic_clients s s' \<or> committed topic_clients name mutate s s')"

lemma attempted_after:
  "client_steps topic_clients s t \<Longrightarrow> attempted name mutate r t u \<Longrightarrow> attempted name mutate r s u"
  by (cases r) (auto simp: attempted_def intro: client_steps_trans committed_after)

lemma attempted_error: "r \<noteq> None \<Longrightarrow> client_steps topic_clients s t \<Longrightarrow> attempted name mutate r s t"
  by (auto simp: attempted_def)

text \<open>The answers of the two requests of an attempt, and how the attempt ends in each.\<close>

lemma mutate_attempts_cases:
  assumes "mutate_attempts E ctxDone name mutate (Suc n) e = (r, e')"
  obtains (stop) g where "GetTopic E name e = (g, e')" "r \<noteq> None"
  | (tried) params modRev e1 params' c e2
    where "GetTopic E name e = (Inr (Some (params, modRev)), e1)" "mutate params = Inr params'"
      "PutTopicCAS E params' modRev e1 = (c, e2)"
      "(c = Inr True \<and> r = None \<and> e' = e2) \<or> ((\<exists>x. c = Inl x) \<and> r \<noteq> None \<and> e' = e2)
       \<or> (c = Inr False \<and> (r \<noteq> None \<and> e' = e2 \<or> mutate_attempts E ctxDone name mutate n e2 = (r, e')))"
proof (cases "GetTopic E name e")
  case (Pair g e1)
  show thesis
  proof (cases "\<exists>params modRev params'. g = Inr (Some (params, modRev)) \<and> mutate params = Inr params'")
    case True
    then obtain params modRev params' where g: "g = Inr (Some (params, modRev))" "mutate params = Inr params'" by blast
    obtain c e2 where c: "PutTopicCAS E params' modRev e1 = (c, e2)" by (cases "PutTopicCAS E params' modRev e1")
    show thesis
      by (rule tried [OF _ g(2) c]) (use assms Pair g c in \<open>auto split: sum.splits bool.splits if_splits\<close>)
  next
    case False
    then show thesis
      using assms Pair by (intro stop [of g]) (auto split: sum.splits option.splits)
  qed
qed

lemma mutate_attempts_commit:
  assumes "etcd_ok E view topic_clients" and "keeps_topic mutate"
  shows "mutate_attempts E ctxDone name mutate n e = (r, e') \<Longrightarrow> topics_ok (view e) \<Longrightarrow>
    attempted name mutate r (view e) (view e')"
proof (induction n arbitrary: e)
  case 0
  then show ?case by (auto simp: attempted_def intro: client_refl)
next
  case (Suc n)
  from Suc.prems(1) show ?case
  proof (cases rule: mutate_attempts_cases)
    case (stop g)
    show ?thesis using stop(2) GetTopic_read(1) [OF assms(1) stop(1)] by (rule attempted_error)
  next
    case (tried params modRev e1 params' c e2)
    note read = GetTopic_read [OF assms(1) tried(1)]
    have ok1: "topics_ok (view e1)" using topics_ok_steps [OF read(1) Suc.prems(2)] .
    then have sok: "store_ok (view e1)" by (simp add: topics_ok_def)
    obtain kv where kv: "store_get (topicKey name) (view e1) = Some kv" "kvValue kv = VTopic params"
      "modRev = kvModRevision kv" using read(2) by auto
    have "tpName params = name" "topic_ok params" using topics_ok_get [OF ok1 kv(1)] kv(2) by auto
    then have n': "tpName params' = name" using assms(2) tried(2) unfolding keeps_topic_def by blast
    note put = PutTopicCAS_commit [where view = view and mutate = mutate, OF assms(1) tried(3) sok kv(1,3) n' kv(2) tried(2)]
    from tried(4) have "attempted name mutate r (view e1) (view e')"
    proof (elim disjE conjE)
      assume "c = Inr True" "r = None" "e' = e2"
      then show ?thesis using put(1) by (simp add: attempted_def)
    next
      assume "r \<noteq> None" "e' = e2"
      then show ?thesis using put(3) by (auto simp: attempted_def)
    next
      assume "c = Inr False" "r \<noteq> None" "e' = e2"
      then show ?thesis using put(3) by (auto simp: attempted_def)
    next
      assume c: "c = Inr False" "mutate_attempts E ctxDone name mutate n e2 = (r, e')"
      from put(2) [OF c(1)] have st: "client_steps topic_clients (view e1) (view e2)" .
      show ?thesis using Suc.IH [OF c(2) topics_ok_steps [OF st ok1]] st by (rule attempted_after [rotated])
    qed
    then show ?thesis by (rule attempted_after [OF read(1)])
  qed
qed

lemma committed_topics_ok:
  assumes "committed topic_clients name mutate s s'" and "topics_ok s" and "keeps_topic mutate"
  shows "topics_ok s'"
proof -
  obtain t kv params params' where t: "client_steps topic_clients s t" "store_get (topicKey name) t = Some kv"
    "kvValue kv = VTopic params" "mutate params = Inr params'"
    "s' = store_commit [OpPut (topicKey name) (VTopic params') 0] t"
    using assms(1) by (auto simp: committed_def)
  have ok: "topics_ok t" using topics_ok_steps [OF t(1) assms(2)] .
  have "tpName params = name" "topic_ok params" using topics_ok_get [OF ok t(2)] t(3) by auto
  then have "tpName params' = name" "topic_ok params'" using assms(3) t(4) unfolding keeps_topic_def by blast+
  then show ?thesis using topics_ok_put [OF ok, of params'] t(5) by simp
qed

section \<open>Effect on the partition\<close>

lemma first_partition_effect:
  "first_partition i f missing ps = Inr ps' \<Longrightarrow> distinct (map PartitionId ps) \<Longrightarrow>
   p' \<in> set ps' \<Longrightarrow> PartitionId p' = i \<Longrightarrow> (\<And>p q. f p = Inr q \<Longrightarrow> PartitionId q = PartitionId p) \<Longrightarrow>
   \<exists>p\<in>set ps. PartitionId p = i \<and> f p = Inr p'"
proof (induction ps arbitrary: ps')
  case Nil
  then show ?case by (auto split: option.splits)
next
  case (Cons p ps)
  show ?case
  proof (cases "PartitionId p = i")
    case True
    then obtain q where q: "f p = Inr q" "ps' = q # ps" using Cons.prems(1) by (auto split: sum.splits)
    have "p' \<notin> set ps" using Cons.prems(2,4) True by auto
    then show ?thesis using q Cons.prems(3) True by auto
  next
    case False
    then obtain qs where qs: "first_partition i f missing ps = Inr qs" "ps' = p # qs"
      using Cons.prems(1) by (auto split: sum.splits)
    moreover have "p' \<in> set qs" using Cons.prems(3,4) False qs(2) by auto
    ultimately show ?thesis using Cons.IH [OF qs(1)] Cons.prems(2,4,5) by auto
  qed
qed

lemma first_partition_others:
  "first_partition i f missing ps = Inr ps' \<Longrightarrow> (\<And>p q. f p = Inr q \<Longrightarrow> PartitionId q = PartitionId p) \<Longrightarrow>
   PartitionId p \<noteq> i \<Longrightarrow> p \<in> set ps' \<longleftrightarrow> p \<in> set ps"
proof (induction ps arbitrary: ps')
  case Nil
  then show ?case by (auto split: option.splits)
next
  case (Cons q ps)
  show ?case
  proof (cases "PartitionId q = i")
    case True
    then obtain q' where "f q = Inr q'" "ps' = q' # ps" using Cons.prems(1) by (auto split: sum.splits)
    then show ?thesis using Cons.prems(2,3) True by auto
  next
    case False
    then obtain qs where "first_partition i f missing ps = Inr qs" "ps' = q # qs"
      using Cons.prems(1) by (auto split: sum.splits)
    then show ?thesis using Cons.IH Cons.prems(2,3) by auto
  qed
qed

lemma mutator_ids:
  "add_replica n p = Inr q \<Longrightarrow> PartitionId q = PartitionId p"
  "mark_in_sync n p = Inr q \<Longrightarrow> PartitionId q = PartitionId p"
  "remove_node n p = Inr q \<Longrightarrow> PartitionId q = PartitionId p"
  by (auto simp: add_replica_def mark_in_sync_def remove_node_def split: if_splits)

text \<open>The partitions of a topic the store holds.\<close>

definition stored_topic :: "string \<Rightarrow> etcd_store \<Rightarrow> TopicParams option" where
  "stored_topic name s = (case store_get (topicKey name) s of None \<Rightarrow> None | Some kv \<Rightarrow> as_topic (kvValue kv))"

lemma committed_partition:
  assumes "committed P name (on_partition i f missing) s s'" and "stored_topic name s' = Some t'"
    and "\<And>t t'. client_steps P s t \<Longrightarrow> stored_topic name t = Some t' \<Longrightarrow> topic_ok t'"
    and "\<And>p q. f p = Inr q \<Longrightarrow> PartitionId q = PartitionId p"
    and "p' \<in> set (Partitions t')" and "PartitionId p' = i"
  shows "\<exists>p. f p = Inr p'"
proof -
  obtain t kv params params' where t: "client_steps P s t" "store_get (topicKey name) t = Some kv"
    "kvValue kv = VTopic params" "on_partition i f missing params = Inr params'"
    "s' = store_commit [OpPut (topicKey name) (VTopic params') 0] t"
    using assms(1) by (auto simp: committed_def)
  have tok: "topic_ok params" using assms(3) [OF t(1)] t(2,3) by (simp add: stored_topic_def)
  have "t' = params'" using assms(2) t(5) by (simp add: stored_topic_def)
  then obtain ps where ps: "first_partition i f missing (Partitions params) = Inr ps" "t' = params\<lparr>Partitions := ps\<rparr>"
    using t(4) by (auto simp: on_partition_def split: sum.splits)
  have "distinct (map PartitionId (Partitions params))" using tok by (simp add: topic_ok_def)
  then show ?thesis using first_partition_effect [OF ps(1) _ _ assms(6) assms(4)] assms(5) ps(2) by auto
qed

section \<open>Properties\<close>

text \<open>C7. Every change of a topic's parameters is one atomic step of the cluster's history. Whatever other
  clients commit between the read and the write of an attempt, \<open>mutateTopic\<close> returns nil only after
  the very parameters it had read were replaced by the mutated ones; on an error (lost races, a
  failed request, an absent topic, a refusing mutator) the store has only steps of the other clients
  and at most this one replacement, when the answer of the write was lost. In every case the topic
  keys stay well formed: keys and names agree, partition ids and replicas are distinct, and the
  in-sync set of a partition is a subset of its replicas.\<close>

theorem topic_update_atomic:
  assumes "etcd_ok E view topic_clients" and "topics_ok (view e)" and "keeps_topic mutate"
    and "mutateTopic E ctxDone name mutate e = (r, e')"
  shows "(case r of None \<Rightarrow> committed topic_clients name mutate (view e) (view e')
          | Some x \<Rightarrow> client_steps topic_clients (view e) (view e')
                    \<or> committed topic_clients name mutate (view e) (view e'))
    \<and> topics_ok (view e')"
proof -
  have a: "attempted name mutate r (view e) (view e')"
    using mutate_attempts_commit [OF assms(1,3) _ assms(2)] assms(4) by (simp add: mutateTopic_def)
  then have "client_steps topic_clients (view e) (view e') \<or> committed topic_clients name mutate (view e) (view e')"
    by (auto simp: attempted_def split: option.splits)
  then have "topics_ok (view e')"
    using topics_ok_steps [OF _ assms(2)] committed_topics_ok [OF _ assms(2,3)] by blast
  with a show ?thesis by (simp add: attempted_def)
qed

text \<open>A topic with one partition on nodes 1 and 2, for the concrete runs.\<close>

definition sample_part :: PartitionsParams where
  "sample_part = \<lparr>PartitionId = 0, LeaderNodeId = 1, ReplicasNodeId = [1, 2], IsrNodeId = [1]\<rparr>"
definition sample_topic :: TopicParams where
  "sample_topic = \<lparr>tpName = ''t'', DesiredReplicationFactor = 2, Partitions = [sample_part]\<rparr>"
definition sample_store :: etcd_store where
  "sample_store = store_commit [OpPut (topicKey ''t'') (VTopic sample_topic) 0] \<lparr>storeRev = 0, storeKvs = []\<rparr>"

lemma sample_store_ok: "topics_ok sample_store"
proof -
  have "topics_ok \<lparr>storeRev = 0, storeKvs = []\<rparr>"
    by (simp add: topics_ok_def store_ok_def revs_below_def store_get_def)
  moreover have "topic_ok sample_topic" by (simp add: topic_ok_def sample_topic_def sample_part_def partition_ok_def)
  ultimately show ?thesis using topics_ok_put [of _ sample_topic] by (simp add: sample_store_def sample_topic_def)
qed

text \<open>Another client's write (node 3 becomes a replica) slips between the read and the write of the first attempt.\<close>

definition racing_write :: "etcd_op list" where
  "racing_write = [OpPut (topicKey ''t'')
     (VTopic (sample_topic\<lparr>Partitions := [sample_part\<lparr>ReplicasNodeId := [1, 2, 3]\<rparr>]\<rparr>)) 0]"

definition racing_sim :: sim where
  "racing_sim = \<lparr>simStore = sample_store, simScript = [([], SimAnswers), ([racing_write], SimAnswers)]\<rparr>"

lemma racing_write_client: "topic_clients s racing_write"
proof -
  let ?t = "sample_topic\<lparr>Partitions := [sample_part\<lparr>ReplicasNodeId := [1, 2, 3]\<rparr>]\<rparr>"
  have "topic_ok ?t" by (simp add: topic_ok_def sample_topic_def sample_part_def partition_ok_def)
  then show ?thesis using topics_ok_put [of s ?t]
    by (simp add: topic_clients_def racing_write_def sample_topic_def)
qed

lemma sample_store_get:
  "store_get (topicKey ''t'') sample_store =
     Some \<lparr>kvValue = VTopic sample_topic, kvModRevision = 1, kvVersion = 1, kvLease = 0\<rparr>"
  by (simp add: sample_store_def next_version_def)

lemma racing_write_get:
  "store_get (topicKey ''t'') (store_commit racing_write sample_store) =
     Some \<lparr>kvValue = VTopic (sample_topic\<lparr>Partitions := [sample_part\<lparr>ReplicasNodeId := [1, 2, 3]\<rparr>]\<rparr>),
           kvModRevision = 2, kvVersion = 2, kvLease = 0\<rparr>"
  by (simp add: racing_write_def sample_store_get next_version_def) (simp add: sample_store_def)

lemma sample_mark:
  "on_partition 0 (mark_in_sync 2) missing sample_topic =
     Inr (sample_topic\<lparr>Partitions := [sample_part\<lparr>IsrNodeId := [1, 2]\<rparr>]\<rparr>)"
  "on_partition 0 (mark_in_sync 2) missing (sample_topic\<lparr>Partitions := [sample_part\<lparr>ReplicasNodeId := [1, 2, 3]\<rparr>]\<rparr>) =
     Inr (sample_topic\<lparr>Partitions := [sample_part\<lparr>ReplicasNodeId := [1, 2, 3], IsrNodeId := [1, 2]\<rparr>]\<rparr>)"
  by (simp_all add: on_partition_def mark_in_sync_def sample_topic_def sample_part_def)

lemma racing_run:
  "\<exists>e'. MarkNodeInSync (sim_etcd topic_clients) (\<lambda>_. False) ''t'' 0 2 racing_sim = (None, e') \<and>
     stored_topic ''t'' (simStore e') =
       Some (sample_topic\<lparr>Partitions := [sample_part\<lparr>ReplicasNodeId := [1, 2, 3], IsrNodeId := [1, 2]\<rparr>]\<rparr>)"
proof -
  have n: "tpName sample_topic = ''t''" by (simp add: sample_topic_def)
  show ?thesis
    by (simp add: MarkNodeInSync_def mutateTopic_def maxRetries_def eval_nat_numeral racing_sim_def
        GetTopic_def PutTopicCAS_def Let_def racing_write_client store_txn_def sample_store_get
        racing_write_get sample_mark n stored_topic_def)
qed

theorem topic_update_atomic_witness:
  "\<exists>e'. MarkNodeInSync (sim_etcd topic_clients) (\<lambda>_. False) ''t'' 0 2 racing_sim = (None, e') \<and>
     committed topic_clients ''t'' (on_partition 0 (mark_in_sync 2) (Some (EPartitionNotFound 0 ''t'')))
       sample_store (simStore e') \<and>
     stored_topic ''t'' (simStore e') =
       Some (sample_topic\<lparr>Partitions := [sample_part\<lparr>ReplicasNodeId := [1, 2, 3], IsrNodeId := [1, 2]\<rparr>]\<rparr>)"
proof -
  obtain e' where r: "MarkNodeInSync (sim_etcd topic_clients) (\<lambda>_. False) ''t'' 0 2 racing_sim = (None, e')"
    "stored_topic ''t'' (simStore e') =
       Some (sample_topic\<lparr>Partitions := [sample_part\<lparr>ReplicasNodeId := [1, 2, 3], IsrNodeId := [1, 2]\<rparr>]\<rparr>)"
    using racing_run by blast
  have ok: "topics_ok (simStore racing_sim)" by (simp add: racing_sim_def sample_store_ok)
  have "committed topic_clients ''t'' (on_partition 0 (mark_in_sync 2) (Some (EPartitionNotFound 0 ''t'')))
       (simStore racing_sim) (simStore e')"
    using topic_update_atomic [OF sim_etcd_ok ok mutators_keep(2)
        r(1) [unfolded MarkNodeInSync_def]] by simp
  then show ?thesis using r by (auto simp: racing_sim_def)
qed

text \<open>What the three operations on the replica sets have achieved when they return nil, whatever
  other clients did meanwhile: the added node is a replica, the marked node is a replica and in sync
  (and a node that is not a replica is never marked), the removed node is neither.\<close>

theorem replica_set_updates:
  assumes "etcd_ok E view topic_clients" and "topics_ok (view e)"
    and "stored_topic name (view e') = Some t" and "p \<in> set (Partitions t)" and "PartitionId p = i"
  shows "(AddReplicaToPartition E ctxDone name i n e = (None, e') \<longrightarrow> n \<in> set (ReplicasNodeId p))
    \<and> (MarkNodeInSync E ctxDone name i n e = (None, e') \<longrightarrow>
         n \<in> set (ReplicasNodeId p) \<and> n \<in> set (IsrNodeId p))
    \<and> (RemoveNodeFromPartition E ctxDone name i n e = (None, e') \<longrightarrow>
         n \<notin> set (ReplicasNodeId p) \<and> n \<notin> set (IsrNodeId p))"
proof -
  have tok: "topic_ok t" if "client_steps topic_clients (view e) s" "stored_topic name s = Some t" for s t
    using topics_ok_steps [OF that(1) assms(2)] that(2) topics_ok_get [of s name]
    by (fastforce simp: stored_topic_def split: option.splits)
  note t = assms(3,4)
  have com: "committed topic_clients name mutate (view e) (view e')"
    if "mutateTopic E ctxDone name mutate e = (None, e')" "keeps_topic mutate" for mutate
    using mutate_attempts_commit [OF assms(1) that(2) _ assms(2), of ctxDone name maxRetries None e'] that(1)
    by (simp add: attempted_def mutateTopic_def)
  have eff: "\<exists>p0. f p0 = Inr p" if "mutateTopic E ctxDone name (on_partition i f missing) e = (None, e')"
    "keeps_topic (on_partition i f missing)" "\<And>p q. f p = Inr q \<Longrightarrow> PartitionId q = PartitionId p" for f missing
    by (rule committed_partition [OF com [OF that(1,2)] t(1) tok that(3) t(2) assms(5)])
  have add: "AddReplicaToPartition E ctxDone name i n e = (None, e') \<longrightarrow> n \<in> set (ReplicasNodeId p)"
  proof
    assume "AddReplicaToPartition E ctxDone name i n e = (None, e')"
    then have "\<exists>p0. add_replica n p0 = Inr p"
      unfolding AddReplicaToPartition_def by (rule eff [OF _ mutators_keep(1) mutator_ids(1)])
    then obtain p0 where "add_replica n p0 = Inr p" ..
    then show "n \<in> set (ReplicasNodeId p)" by (cases "n \<in> set (ReplicasNodeId p0)") (auto simp: add_replica_def split: if_splits)
  qed
  have mark: "MarkNodeInSync E ctxDone name i n e = (None, e') \<longrightarrow> n \<in> set (ReplicasNodeId p) \<and> n \<in> set (IsrNodeId p)"
  proof
    assume "MarkNodeInSync E ctxDone name i n e = (None, e')"
    then have "\<exists>p0. mark_in_sync n p0 = Inr p"
      unfolding MarkNodeInSync_def by (rule eff [OF _ mutators_keep(2) mutator_ids(2)])
    then obtain p0 where "mark_in_sync n p0 = Inr p" ..
    then show "n \<in> set (ReplicasNodeId p) \<and> n \<in> set (IsrNodeId p)" by (cases "n \<in> set (ReplicasNodeId p0)") (auto simp: mark_in_sync_def split: if_splits)
  qed
  have remove: "RemoveNodeFromPartition E ctxDone name i n e = (None, e') \<longrightarrow> n \<notin> set (ReplicasNodeId p) \<and> n \<notin> set (IsrNodeId p)"
  proof
    assume "RemoveNodeFromPartition E ctxDone name i n e = (None, e')"
    then have "\<exists>p0. remove_node n p0 = Inr p"
      unfolding RemoveNodeFromPartition_def by (rule eff [OF _ mutators_keep(3) mutator_ids(3)])
    then obtain p0 where "remove_node n p0 = Inr p" ..
    then show "n \<notin> set (ReplicasNodeId p) \<and> n \<notin> set (IsrNodeId p)" by (cases "n \<in> set (ReplicasNodeId p0)") (auto simp: remove_node_def split: if_splits)
  qed
  show ?thesis using add mark remove by blast
qed

theorem replica_set_updates_witness:
  "\<exists>e'. MarkNodeInSync (sim_etcd topic_clients) (\<lambda>_. False) ''t'' 0 2 racing_sim = (None, e') \<and>
     (\<exists>t p. stored_topic ''t'' (simStore e') = Some t \<and> Partitions t = [p] \<and> 2 \<in> set (IsrNodeId p))"
proof -
  obtain e' where r: "MarkNodeInSync (sim_etcd topic_clients) (\<lambda>_. False) ''t'' 0 2 racing_sim = (None, e')"
    "stored_topic ''t'' (simStore e') =
       Some (sample_topic\<lparr>Partitions := [sample_part\<lparr>ReplicasNodeId := [1, 2, 3], IsrNodeId := [1, 2]\<rparr>]\<rparr>)"
    using racing_run by blast
  have ok: "topics_ok (simStore racing_sim)" by (simp add: racing_sim_def sample_store_ok)
  let ?p = "sample_part\<lparr>ReplicasNodeId := [1, 2, 3], IsrNodeId := [1, 2]\<rparr>"
  have "2 \<in> set (IsrNodeId ?p)"
    using replica_set_updates [OF sim_etcd_ok ok r(2), of ?p 0] r(1) by (simp add: sample_part_def)
  then show ?thesis using r by (intro exI [of _ e'] conjI exI [of _ ?p]) auto
qed

end
