(* ===== verification/Coordinator.thy ===== *)
theory Coordinator
  imports TopicMeta
begin

text \<open>
  The coordinator of one node, \<open>server/cluster/node.go\<close>, with the parts of \<open>etcd.go\<close>,
  \<open>controller.go\<close> and \<open>local_state.go\<close> that keep its state: the members it has seen, its
  role, the loss and recovery of its etcd session, the queue of dead nodes and the reports of
  local data. The election itself is in \<open>Election\<close>, the reassignment of partitions in
  \<open>Rebalance\<close>, the application of topic parameters in \<open>Assignment\<close>.

  A context is its flag; \<open>electionOn\<close> is the election context being alive. Goroutines that are
  started are results of the operation that starts them.
\<close>

definition StatePath :: string where "StatePath = ''/kafka/controller/state''"
definition NodesDiscoveryPath :: string where "NodesDiscoveryPath = ''/kafka/nodes/''"
definition NodeLocalStatePath :: string where "NodeLocalStatePath = ''/kafka/node-local-state/''"

record NodeAddresses =
  naReplication :: string
  naTCP :: string
  naControl :: string
  naHTTP :: string

record coordinator =
  nodeID :: int
  cbroker :: broker
  coLeader :: int             \<comment> \<open>\<open>LeaderNodeId\<close>\<close>
  leaseId :: int              \<comment> \<open>of the \<open>NodeDiscovery\<close>; 0 is none\<close>
  electionOn :: bool
  syncing :: "(string, bool) gomap"
  members :: "(int, NodeState) gomap"
  addresses :: NodeAddresses
  paused :: bool
  rebalanceCh :: "int list"

definition rebalanceCap :: nat where "rebalanceCap = 64"

definition NewNodeCoordinator :: "int \<Rightarrow> broker \<Rightarrow> NodeAddresses \<Rightarrow> coordinator" where
  "NewNodeCoordinator i b addrs =
     \<lparr>nodeID = i, cbroker = b, coLeader = 0, leaseId = 0, electionOn = True, syncing = [], members = [],
      addresses = addrs, paused = False, rebalanceCh = []\<rparr>"

text \<open>\<open>strconv.ParseInt(s, 10, 64)\<close>.\<close>

definition ParseInt :: "string \<Rightarrow> int option" where
  "ParseInt s =
     (let signed = (s \<noteq> [] \<and> (hd s = CHR ''-'' \<or> hd s = CHR ''+''));
          digits = (if signed then tl s else s);
          v = (if signed \<and> hd s = CHR ''-'' then - int (dec_val digits) else int (dec_val digits))
      in if digits \<noteq> [] \<and> list_all is_digit digits \<and> - (2 ^ 63) \<le> v \<and> v < 2 ^ 63 then Some v else None)"

section \<open>Members\<close>

text \<open>The nodes that are gone and those that are new or changed, each in the order of their ids.\<close>

definition diffMembers ::
  "(int, NodeState) gomap \<Rightarrow> (int, NodeState) gomap \<Rightarrow> NodeState list \<times> NodeState list" where
  "diffMembers previous current =
     (sort_key nsID (map snd (filter (\<lambda>(i, old). map_of current i = None) previous)),
      sort_key nsID (map snd (filter (\<lambda>(i, st). map_of previous i \<noteq> Some st) current)))"

text \<open>\<open>dial\<close> is whether \<open>grpc.NewClient\<close> accepts the address.\<close>

definition onNodeJoin :: "(string \<Rightarrow> bool) \<Rightarrow> NodeState \<Rightarrow> coordinator \<Rightarrow> coordinator" where
  "onNodeJoin dial st n =
     (let existed = (map_of (members n) (nsID st) \<noteq> None);
          n1 = n\<lparr>members := AList.update (nsID st) st (members n)\<rparr>
      in if nsID st = nodeID n then n1
         else if existed then n1
         else if nsAddress st = [] then n1
         else if \<not> dial (nsAddress st) then n1
         else n1\<lparr>cbroker := AddPeers [Some (nsID st, True)] (cbroker n1)\<rparr>)"

definition enqueueRebalance :: "int \<Rightarrow> coordinator \<Rightarrow> coordinator" where
  "enqueueRebalance deadNodeID n =
     (if length (rebalanceCh n) < rebalanceCap then n\<lparr>rebalanceCh := rebalanceCh n @ [deadNodeID]\<rparr> else n)"

definition onNodeLeave :: "NodeState \<Rightarrow> coordinator \<Rightarrow> coordinator" where
  "onNodeLeave st n =
     (let n1 = n\<lparr>members := AList.delete (nsID st) (members n),
                 cbroker := RemovePeer (nsID st) (cbroker n)\<rparr>
      in if ReadRole (cbroker n1) \<noteq> Controller then n1 else enqueueRebalance (nsID st) n1)"

section \<open>Loss and recovery of the session\<close>

text \<open>The first result is whether a recovery loop is started.\<close>

definition handleSessionLoss :: "coordinator \<Rightarrow> bool \<times> coordinator" where
  "handleSessionLoss n =
     (if paused n then (False, n)
      else (True, n\<lparr>paused := True, electionOn := False, cbroker := ToFollower (cbroker n)\<rparr>))"

text \<open>The keep-alive goroutine of a registration finds its channel closed.\<close>

definition keepAliveLost :: "coordinator \<Rightarrow> bool \<times> coordinator" where
  "keepAliveLost n = handleSessionLoss (n\<lparr>leaseId := 0\<rparr>)"

text \<open>
  One tick of \<open>recoveryLoop\<close>, in two halves, because the session can be lost between them:
  registering again (\<open>Some\<close> the lease granted, whether the key was written and kept alive), and the
  end after \<open>RestoreData\<close>. The results say whether the half succeeded.
\<close>

definition recoveryRegister :: "int option \<Rightarrow> bool \<Rightarrow> coordinator \<Rightarrow> bool \<times> coordinator" where
  "recoveryRegister granted written n =
     (case granted of
        None \<Rightarrow> (False, n)
      | Some lease \<Rightarrow> (written, n\<lparr>leaseId := lease\<rparr>))"

definition recoveryFinish :: "bool \<Rightarrow> coordinator \<Rightarrow> bool \<times> coordinator" where
  "recoveryFinish restored n =
     (if restored then (True, n\<lparr>electionOn := True, paused := False\<rparr>) else (False, n))"

definition IsPaused :: "coordinator \<Rightarrow> bool" where "IsPaused n = paused n"
definition GetLeaderId :: "coordinator \<Rightarrow> int" where "GetLeaderId n = coLeader n"
definition UpdateLeaderNode :: "int \<Rightarrow> coordinator \<Rightarrow> coordinator" where
  "UpdateLeaderNode leader n = n\<lparr>coLeader := leader\<rparr>"

section \<open>The snapshot of the watch\<close>

definition onNodesSnapshot ::
  "(string \<Rightarrow> bool) \<Rightarrow> (int, NodeState) gomap \<Rightarrow> coordinator \<Rightarrow> bool \<times> coordinator" where
  "onNodesSnapshot dial snapshot n =
     (case diffMembers (members n) snapshot of
        (left, joined) \<Rightarrow>
          let n1 = fold onNodeLeave left n;
              n2 = fold (onNodeJoin dial) joined n1
          in if map_of snapshot (nodeID n) = None then handleSessionLoss n2 else (False, n2))"

text \<open>The node a value describes; a value with no id takes it from the key.\<close>

definition decodeNodeState :: "string \<Rightarrow> etcd_value \<Rightarrow> NodeState option" where
  "decodeNodeState key v =
     (case as_node v of
        None \<Rightarrow> None
      | Some st \<Rightarrow>
          if nsID st = 0 then
            (case ParseInt (drop (length NodesDiscoveryPath) key) of
               None \<Rightarrow> None | Some i \<Rightarrow> Some (st\<lparr>nsID := i\<rparr>))
          else Some st)"

datatype watch_event = WatchPut string etcd_value | WatchDelete string "etcd_value option"

definition watch_node_event ::
  "(string \<Rightarrow> bool) \<Rightarrow> watch_event \<Rightarrow> coordinator \<Rightarrow> coordinator" where
  "watch_node_event dial ev n =
     (case ev of
        WatchPut key v \<Rightarrow>
          (case decodeNodeState key v of None \<Rightarrow> n | Some st \<Rightarrow> onNodeJoin dial st n)
      | WatchDelete key prev \<Rightarrow>
          (case prev of None \<Rightarrow> n
           | Some v \<Rightarrow> (case decodeNodeState key v of None \<Rightarrow> n | Some st \<Rightarrow> onNodeLeave st n)))"

definition node_snapshot :: "(string \<times> etcd_kv) list \<Rightarrow> (int, NodeState) gomap" where
  "node_snapshot kvs =
     fold (\<lambda>(key, kv) m. case decodeNodeState key (kvValue kv) of
        None \<Rightarrow> m | Some st \<Rightarrow> AList.update (nsID st) st m) kvs []"

section \<open>Roles\<close>

definition nodeKey :: "int \<Rightarrow> string" where "nodeKey i = NodesDiscoveryPath @ fmt_int i"

definition publishOwnRole :: "'e etcd \<Rightarrow> ClusterRole \<Rightarrow> coordinator \<Rightarrow> 'e \<Rightarrow> 'e" where
  "publishOwnRole E role n e =
     (let key = nodeKey (nodeID n)
      in case eGet E key e of
        (Inl x, e1) \<Rightarrow> e1
      | (Inr None, e1) \<Rightarrow> e1
      | (Inr (Some kv), e1) \<Rightarrow>
          (case as_node (kvValue kv) of
             None \<Rightarrow> e1
           | Some st \<Rightarrow>
               if nsRole st = role then e1
               else snd (eTxn E [ModRevisionIs key (kvModRevision kv)]
                           [OpPut key (VNode (st\<lparr>nsRole := role\<rparr>)) (kvLease kv)] e1)))"

definition SwitchToControllerMode :: "'e etcd \<Rightarrow> int \<Rightarrow> coordinator \<Rightarrow> 'e \<Rightarrow> coordinator \<times> 'e" where
  "SwitchToControllerMode E epoch n e =
     (let n1 = n\<lparr>cbroker := SetEpoch (of_int epoch) (ToController (cbroker n)), coLeader := nodeID n\<rparr>
      in (n1, publishOwnRole E Controller n1 e))"

definition SwitchToFollowerMode :: "'e etcd \<Rightarrow> int \<Rightarrow> int \<Rightarrow> coordinator \<Rightarrow> 'e \<Rightarrow> coordinator \<times> 'e" where
  "SwitchToFollowerMode E controllerID epoch n e =
     (let n1 = n\<lparr>cbroker := SetEpoch (of_int epoch) (ToFollower (cbroker n)), coLeader := controllerID\<rparr>
      in (n1, publishOwnRole E Follower n1 e))"

text \<open>What the metadata watch does with a new value of the controller key.\<close>

definition watch_metadata_event :: "'e etcd \<Rightarrow> etcd_value \<Rightarrow> coordinator \<Rightarrow> 'e \<Rightarrow> coordinator \<times> 'e" where
  "watch_metadata_event E v n e =
     (case as_controller v of
        None \<Rightarrow> (n, e)
      | Some st \<Rightarrow>
          if csLeaderId st \<noteq> nodeID n then SwitchToFollowerMode E (csLeaderId st) (csLeaderEpoch st) n e
          else (n, e))"

section \<open>Reports of local data\<close>

definition nodeLocalStateKey :: "int \<Rightarrow> string" where
  "nodeLocalStateKey i = NodeLocalStatePath @ fmt_int i"

definition local_report :: "coordinator \<Rightarrow> LocalPartitionState list" where
  "local_report n = map (\<lambda>(topic, i, off). \<lparr>lsTopic = topic, lsPartitionId = i, lsOffset = off\<rparr>)
     (ListLocalPartitionOffsets (cbroker n))"

definition put_local_state :: "'e etcd \<Rightarrow> coordinator \<Rightarrow> 'e \<Rightarrow> (cluster_error + bool) \<times> 'e" where
  "put_local_state E n e =
     eTxn E [] [OpPut (nodeLocalStateKey (nodeID n)) (VLocal (local_report n)) 0] e"

definition ListAll ::
  "'e etcd \<Rightarrow> 'e \<Rightarrow> (cluster_error + (int, LocalPartitionState list) gomap) \<times> 'e" where
  "ListAll E e =
     (case eGetPrefix E NodeLocalStatePath e of
        (Inl x, e1) \<Rightarrow> (Inl x, e1)
      | (Inr kvs, e1) \<Rightarrow>
          (Inr (fold (\<lambda>(key, kv) m. case ParseInt (drop (length NodeLocalStatePath) key) of
               None \<Rightarrow> m
             | Some i \<Rightarrow> (case as_local (kvValue kv) of None \<Rightarrow> m | Some entries \<Rightarrow> AList.update i entries m)) kvs []), e1))"

section \<open>Members under joins and leaves\<close>

definition keyed :: "(int, NodeState) gomap \<Rightarrow> bool" where
  "keyed m \<longleftrightarrow> distinct (map fst m) \<and> (\<forall>(i, st)\<in>set m. nsID st = i)"

lemma onNodeLeave_frame [simp]:
  "members (onNodeLeave st n) = AList.delete (nsID st) (members n)"
  "cbroker (onNodeLeave st n) = RemovePeer (nsID st) (cbroker n)"
  "nodeID (onNodeLeave st n) = nodeID n" "paused (onNodeLeave st n) = paused n"
  "rebalanceCh (onNodeLeave st n) =
     (if ReadRole (cbroker n) = Controller then rebalanceCh (enqueueRebalance (nsID st) n) else rebalanceCh n)"
  by (auto simp: onNodeLeave_def Let_def enqueueRebalance_def ReadRole_def RemovePeer_def)

lemma onNodeJoin_frame [simp]:
  "members (onNodeJoin dial st n) = AList.update (nsID st) st (members n)"
  "nodeID (onNodeJoin dial st n) = nodeID n" "paused (onNodeJoin dial st n) = paused n"
  "rebalanceCh (onNodeJoin dial st n) = rebalanceCh n"
  "ReadRole (cbroker (onNodeJoin dial st n)) = ReadRole (cbroker n)"
  by (auto simp: onNodeJoin_def Let_def ReadRole_def AddPeers_def)

lemma role_RemovePeer [simp]: "ReadRole (RemovePeer i b) = ReadRole b"
  by (simp add: ReadRole_def RemovePeer_def)

lemma leaves_frame:
  "map_of (members (fold onNodeLeave xs n)) i = (if i \<in> nsID ` set xs then None else map_of (members n) i)"
  "nodeID (fold onNodeLeave xs n) = nodeID n" "paused (fold onNodeLeave xs n) = paused n"
  "ReadRole (cbroker (fold onNodeLeave xs n)) = ReadRole (cbroker n)"
  by (induction xs arbitrary: n) (auto simp: delete_conv')

lemma leaves_queue:
  "rebalanceCh (fold onNodeLeave xs n) =
     (if ReadRole (cbroker n) = Controller
      then rebalanceCh n @ take (rebalanceCap - length (rebalanceCh n)) (map nsID xs) else rebalanceCh n)"
proof (induction xs arbitrary: n)
  case Nil
  then show ?case by simp
next
  case (Cons x xs)
  show ?case
  proof (cases "length (rebalanceCh n) < rebalanceCap")
    case True
    then obtain k where "rebalanceCap - length (rebalanceCh n) = Suc k" by (metis Suc_diff_Suc)
    moreover from this have "rebalanceCap - Suc (length (rebalanceCh n)) = k" by simp
    ultimately show ?thesis using True Cons.IH by (simp add: enqueueRebalance_def)
  qed (use Cons.IH in \<open>simp add: enqueueRebalance_def\<close>)
qed

lemma joins_frame:
  "i \<notin> nsID ` set xs \<Longrightarrow> map_of (members (fold (onNodeJoin dial) xs n)) i = map_of (members n) i"
  "nodeID (fold (onNodeJoin dial) xs n) = nodeID n" "paused (fold (onNodeJoin dial) xs n) = paused n"
  "rebalanceCh (fold (onNodeJoin dial) xs n) = rebalanceCh n"
  "ReadRole (cbroker (fold (onNodeJoin dial) xs n)) = ReadRole (cbroker n)"
  by (induction xs arbitrary: n) (auto simp: update_conv')

lemma joins_member:
  "st \<in> set xs \<Longrightarrow> distinct (map nsID xs) \<Longrightarrow>
   map_of (members (fold (onNodeJoin dial) xs n)) (nsID st) = Some st"
proof (induction xs arbitrary: n)
  case (Cons x xs)
  show ?case
  proof (cases "st = x")
    case True
    then have "nsID st \<notin> nsID ` set xs" using Cons.prems(2) by auto
    then show ?thesis using True by (simp add: joins_frame(1) update_conv')
  qed (use Cons in auto)
qed simp

text \<open>A peer that left has no client, unless it joins again.\<close>

lemma leave_drops_client: "i = nsID st \<Longrightarrow> \<not> GetGrpcClient i (cbroker (onNodeLeave st n))"
  by (simp add: GetGrpcClient_def RemovePeer_def delete_conv')

lemma leaves_drop_clients:
  "i \<in> nsID ` set xs \<or> \<not> GetGrpcClient i (cbroker n) \<Longrightarrow> \<not> GetGrpcClient i (cbroker (fold onNodeLeave xs n))"
proof (induction xs arbitrary: n)
  case (Cons x xs)
  have "i \<in> nsID ` set xs \<or> \<not> GetGrpcClient i (cbroker (onNodeLeave x n))"
    using Cons.prems by (auto simp: GetGrpcClient_def RemovePeer_def delete_conv')
  from Cons.IH [OF this] show ?case by simp
qed simp

lemma joins_drop_clients:
  "i \<notin> nsID ` set xs \<Longrightarrow> GetGrpcClient i (cbroker (fold (onNodeJoin dial) xs n)) = GetGrpcClient i (cbroker n)"
proof (induction xs arbitrary: n)
  case (Cons x xs)
  have "GetGrpcClient i (cbroker (onNodeJoin dial x n)) = GetGrpcClient i (cbroker n)"
    using Cons.prems by (auto simp: onNodeJoin_def Let_def GetGrpcClient_def AddPeers_def update_conv')
  with Cons show ?case by simp
qed simp

lemma diffMembers_left:
  assumes "keyed previous" and "diffMembers previous current = (left, joined)"
  shows "nsID ` set left = {i. map_of previous i \<noteq> None \<and> map_of current i = None}"
proof -
  have "set left = {st. \<exists>i. (i, st) \<in> set previous \<and> map_of current i = None}"
    using assms(2) by (force simp: diffMembers_def)
  moreover have "nsID st = i" if "(i, st) \<in> set previous" for i st using assms(1) that by (auto simp: keyed_def)
  ultimately have "nsID ` set left = {i. i \<in> fst ` set previous \<and> map_of current i = None}" by force
  then show ?thesis by (simp add: map_of_eq_None_iff)
qed

lemma diffMembers_joined:
  assumes "keyed current" and "diffMembers previous current = (left, joined)"
  shows "distinct (map nsID joined)"
    and "st \<in> set joined \<longleftrightarrow> map_of current (nsID st) = Some st \<and> map_of previous (nsID st) \<noteq> Some st"
proof -
  let ?f = "\<lambda>(i, st). map_of previous i \<noteq> Some st"
  have k: "nsID st = i" if "(i, st) \<in> set current" for i st using assms(1) that by (auto simp: keyed_def)
  have j: "joined = sort_key nsID (map snd (filter ?f current))" using assms(2) by (simp add: diffMembers_def)
  have "map nsID (map snd (filter ?f current)) = map fst (filter ?f current)"
    unfolding map_map by (rule map_cong [OF refl]) (use k in auto)
  moreover have "distinct (map fst (filter ?f current))"
    using assms(1) by (simp add: keyed_def distinct_map_filter)
  ultimately have d: "distinct (map nsID (map snd (filter ?f current)))" by metis
  have "mset joined = mset (map snd (filter ?f current))" unfolding j by (rule mset_sort)
  then have "mset (map nsID joined) = mset (map nsID (map snd (filter ?f current)))" by (simp only: mset_map)
  then show "distinct (map nsID joined)" using d by (metis mset_eq_imp_distinct_iff)
  have "st \<in> set joined \<longleftrightarrow> (nsID st, st) \<in> set current \<and> map_of previous (nsID st) \<noteq> Some st"
    unfolding j set_sort using k by (auto simp: image_iff split_beta)
  then show "st \<in> set joined \<longleftrightarrow> map_of current (nsID st) = Some st \<and> map_of previous (nsID st) \<noteq> Some st"
    using assms(1) by (simp add: keyed_def)
qed

section \<open>Properties\<close>

text \<open>A snapshot of the node keys replaces the membership: afterwards the members are exactly the nodes
  of the snapshot, with their new states, a node that vanished while the watch was down has no
  replication client any more, and a controller has queued every vanished node for reassignment in
  the order of ids, as far as the queue of 64 has room. A node missing from its own snapshot goes
  into recovery, gives up its role and the election; the comment there says it must not rebalance
  the cluster in its own name, yet its own id is among the vanished nodes it has just queued.\<close>

theorem snapshot_replaces_members:
  assumes "keyed (members n)" and "keyed snapshot" and "onNodesSnapshot dial snapshot n = (started, n')"
  shows "map_of (members n') i = map_of snapshot i
    \<and> (map_of (members n) i \<noteq> None \<and> map_of snapshot i = None \<longrightarrow> \<not> GetGrpcClient i (cbroker n'))
    \<and> rebalanceCh n' =
       (if ReadRole (cbroker n) = Controller
        then rebalanceCh n @ take (64 - length (rebalanceCh n)) (map nsID (fst (diffMembers (members n) snapshot)))
        else rebalanceCh n)
    \<and> nsID ` set (fst (diffMembers (members n) snapshot)) = {j. map_of (members n) j \<noteq> None \<and> map_of snapshot j = None}
    \<and> (map_of snapshot (nodeID n) = None \<longrightarrow> paused n' \<and> started = (\<not> paused n)
        \<and> (\<not> paused n \<longrightarrow> \<not> electionOn n' \<and> ReadRole (cbroker n') = Follower))"
proof -
  obtain left joined where d: "diffMembers (members n) snapshot = (left, joined)"
    by (cases "diffMembers (members n) snapshot")
  let ?n2 = "fold (onNodeJoin dial) joined (fold onNodeLeave left n)"
  have n': "(started, n') = (if map_of snapshot (nodeID n) = None then handleSessionLoss ?n2 else (False, ?n2))"
    using assms(3) d by (simp add: onNodesSnapshot_def Let_def)
  have loss: "members (snd (handleSessionLoss m)) = members m" "rebalanceCh (snd (handleSessionLoss m)) = rebalanceCh m"
    "GetGrpcClient j (cbroker (snd (handleSessionLoss m))) = GetGrpcClient j (cbroker m)" for m j
    by (auto simp: handleSessionLoss_def GetGrpcClient_def ToFollower_def)
  then have same: "members n' = members ?n2" "rebalanceCh n' = rebalanceCh ?n2"
    "GetGrpcClient j (cbroker n') = GetGrpcClient j (cbroker ?n2)" for j
    using n' by (metis snd_conv)+
  note left = diffMembers_left [OF assms(1) d]
  note joined = diffMembers_joined [OF assms(2) d]
  have mem: "map_of (members ?n2) i = map_of snapshot i"
  proof (cases "i \<in> nsID ` set joined")
    case True
    then obtain st where "st \<in> set joined" "i = nsID st" by blast
    then show ?thesis using joins_member [OF _ joined(1)] joined(2) by simp
  next
    case False
    have "map_of snapshot i = map_of (members (fold onNodeLeave left n)) i"
    proof (cases "map_of snapshot i")
      case None
      then show ?thesis using left by (auto simp: leaves_frame(1))
    next
      case (Some st)
      then have "nsID st = i" using assms(2) by (auto simp: keyed_def dest: map_of_SomeD)
      then show ?thesis using False joined(2) [of st] Some left by (auto simp: leaves_frame(1))
    qed
    then show ?thesis using joins_frame(1) [OF False] by simp
  qed
  have cl: "\<not> GetGrpcClient i (cbroker ?n2)" if "map_of (members n) i \<noteq> None" "map_of snapshot i = None"
  proof -
    have "i \<notin> nsID ` set joined" using joined(2) that(2) by auto
    moreover have "i \<in> nsID ` set left" using left that by simp
    ultimately show ?thesis using joins_drop_clients leaves_drop_clients by blast
  qed
  have own: "paused n' \<and> started = (\<not> paused n) \<and> (\<not> paused n \<longrightarrow> \<not> electionOn n' \<and> ReadRole (cbroker n') = Follower)"
    if "map_of snapshot (nodeID n) = None"
    using n' that by (auto simp: handleSessionLoss_def joins_frame leaves_frame ToFollower_def ReadRole_def split: if_splits)
  show ?thesis
    using same mem cl own left d joins_frame(4) leaves_queue [of left n] by (auto simp: rebalanceCap_def)
qed

text \<open>Node 1 is the controller, with members 1 and 2, and the snapshot holds node 2 only.\<close>

definition sample_addresses :: NodeAddresses where
  "sample_addresses = \<lparr>naReplication = ''a'', naTCP = ''b'', naControl = ''c'', naHTTP = ''d''\<rparr>"
definition sample_node :: "int \<Rightarrow> NodeState" where
  "sample_node i = \<lparr>nsID = i, nsAddress = ''a'', nsTcpAddress = ''b'', nsControlAddress = ''c'',
     nsHttpAddress = ''d'', nsStartTime = [], nsRole = Follower\<rparr>"
definition sample_coordinator :: coordinator where
  "sample_coordinator = (NewNodeCoordinator 1 (ToController (NewBroker 1 False)) sample_addresses)
     \<lparr>members := [(1, sample_node 1), (2, sample_node 2)]\<rparr>"

theorem snapshot_replaces_members_witness:
  "\<exists>n'. onNodesSnapshot (\<lambda>_. True) [(2, sample_node 2)] sample_coordinator = (True, n') \<and>
     map_of (members n') 1 = None \<and> paused n' \<and> rebalanceCh n' = [1]"
proof -
  have k: "keyed (members sample_coordinator)" "keyed [(2, sample_node 2)]"
    by (simp_all add: keyed_def sample_coordinator_def sample_node_def)
  have d: "fst (diffMembers (members sample_coordinator) [(2, sample_node 2)]) = [sample_node 1]"
    by (simp add: diffMembers_def sample_coordinator_def)
  obtain s n' where r: "onNodesSnapshot (\<lambda>_. True) [(2, sample_node 2)] sample_coordinator = (s, n')"
    by (cases "onNodesSnapshot (\<lambda>_. True) [(2, sample_node 2)] sample_coordinator")
  note facts = snapshot_replaces_members [OF k r, of 1, unfolded d]
  have "ReadRole (cbroker sample_coordinator) = Controller" "nodeID sample_coordinator = 1"
    "\<not> paused sample_coordinator" "rebalanceCh sample_coordinator = []"
    by (simp_all add: sample_coordinator_def NewNodeCoordinator_def ReadRole_def ToController_def)
  then show ?thesis using facts r by (simp add: sample_node_def)
qed

end
