(* ===== verification/Rebalance.thy ===== *)
theory Rebalance
  imports Coordinator
begin

text \<open>
  The controller's reassignment of partitions, \<open>server/cluster/controller.go\<close>: the load of the nodes,
  the choice of a replacement, the reaction to the loss of a node and the periodic reconciliation.
  A Go map of counters is a function whose missing keys read zero. The order in which a \<open>range\<close> over
  the members visits them is the order of the association list.
\<close>

section \<open>Load\<close>

definition bump :: "int \<Rightarrow> (int \<Rightarrow> nat) \<Rightarrow> (int \<Rightarrow> nat)" where
  "bump i f = f(i := Suc (f i))"

definition computeNodeLoadFrom :: "TopicParams list \<Rightarrow> (int \<Rightarrow> nat) \<times> (int \<Rightarrow> nat)" where
  "computeNodeLoadFrom topics =
     fold (\<lambda>t. fold (\<lambda>p (partitionCount, leaderCount).
         (fold bump (ReplicasNodeId p) partitionCount, bump (LeaderNodeId p) leaderCount)) (Partitions t))
       topics (\<lambda>_. 0, \<lambda>_. 0)"

definition computeNodeLoad ::
  "'e etcd \<Rightarrow> 'e \<Rightarrow> (cluster_error + (int \<Rightarrow> nat) \<times> (int \<Rightarrow> nat)) \<times> 'e" where
  "computeNodeLoad E e =
     (case ListTopics E e of
        (Inl x, e1) \<Rightarrow> (Inl x, e1)
      | (Inr topics, e1) \<Rightarrow> (Inr (computeNodeLoadFrom topics), e1))"

section \<open>The choice of a replica\<close>

text \<open>The loop over the reports of one member; the state is the best candidate so far, 0 for none, and its offset.\<close>

fun best_entry ::
  "string \<Rightarrow> int \<Rightarrow> int \<Rightarrow> LocalPartitionState list \<Rightarrow> int \<times> u64 \<Rightarrow> int \<times> u64" where
  "best_entry tname partitionID i [] best = best"
| "best_entry tname partitionID i (x # xs) best =
     (if lsTopic x \<noteq> tname \<or> lsPartitionId x \<noteq> partitionID then best_entry tname partitionID i xs best
      else if fst best = 0 \<or> snd best < lsOffset x then best_entry tname partitionID i xs (i, lsOffset x)
      else best_entry tname partitionID i xs best)"

definition best_reported ::
  "string \<Rightarrow> int \<Rightarrow> (int, LocalPartitionState list) gomap \<Rightarrow> int list \<Rightarrow> int \<times> u64" where
  "best_reported tname partitionID localStates candidates =
     fold (\<lambda>i. best_entry tname partitionID i (case map_of localStates i of None \<Rightarrow> [] | Some xs \<Rightarrow> xs))
       candidates (0, 0)"

definition pickReplicaCandidate ::
  "'e etcd \<Rightarrow> coordinator \<Rightarrow> string \<Rightarrow> int \<Rightarrow> int list \<Rightarrow> 'e \<Rightarrow> int \<times> 'e" where
  "pickReplicaCandidate E n tname partitionID exclude e =
     (case ListAll E e of
        (ls, e1) \<Rightarrow>
          (case computeNodeLoad E e1 of
             (load, e2) \<Rightarrow>
               let localStates = (case ls of Inl x \<Rightarrow> [] | Inr m \<Rightarrow> m);
                   partitionCount = (case load of Inl x \<Rightarrow> (\<lambda>_. 0) | Inr l \<Rightarrow> fst l);
                   candidates = filter (\<lambda>i. \<not> List.member exclude i) (map fst (members n));
                   best = fst (best_reported tname partitionID localStates candidates)
               in (if best \<noteq> 0 then best
                   else if candidates = [] then 0
                   else hd (sort_key (\<lambda>i. (partitionCount i, i)) candidates), e2)))"

section \<open>Reassignment\<close>

definition desired_rf :: "TopicParams \<Rightarrow> int" where
  "desired_rf t = (if DesiredReplicationFactor t \<le> 0 then 3 else DesiredReplicationFactor t)"

definition find_partition :: "int \<Rightarrow> TopicParams \<Rightarrow> PartitionsParams option" where
  "find_partition i t = List.find (\<lambda>p. PartitionId p = i) (Partitions t)"

text \<open>The body of the loops of \<open>rebalanceAfterNodeLoss\<close>.\<close>

definition rebalance_partition ::
  "'e etcd \<Rightarrow> coordinator \<Rightarrow> (nat \<Rightarrow> bool) \<Rightarrow> int \<Rightarrow> TopicParams \<Rightarrow> PartitionsParams \<Rightarrow> 'e \<Rightarrow> 'e" where
  "rebalance_partition E n ctxDone deadNodeID t part e =
     (if \<not> ContainsNode part deadNodeID then e
      else case RemoveNodeFromPartition E ctxDone (tpName t) (PartitionId part) deadNodeID e of
        (Some x, e1) \<Rightarrow> e1
      | (None, e1) \<Rightarrow>
          (case GetTopic E (tpName t) e1 of
             (Inl x, e2) \<Rightarrow> e2
           | (Inr None, e2) \<Rightarrow> e2
           | (Inr (Some (cur, r)), e2) \<Rightarrow>
               (case find_partition (PartitionId part) cur of
                  None \<Rightarrow> e2
                | Some curPart \<Rightarrow>
                    if desired_rf t \<le> int (length (ReplicasNodeId curPart)) then e2
                    else case pickReplicaCandidate E n (tpName t) (PartitionId part) (ReplicasNodeId curPart) e2 of
                      (candidate, e3) \<Rightarrow>
                        if candidate = 0 then e3
                        else snd (AddReplicaToPartition E ctxDone (tpName t) (PartitionId part) candidate e3))))"

definition rebalanceAfterNodeLoss :: "'e etcd \<Rightarrow> coordinator \<Rightarrow> (nat \<Rightarrow> bool) \<Rightarrow> int \<Rightarrow> 'e \<Rightarrow> 'e" where
  "rebalanceAfterNodeLoss E n ctxDone deadNodeID e =
     (case ListTopics E e of
        (Inl x, e1) \<Rightarrow> e1
      | (Inr topics, e1) \<Rightarrow>
          fold (\<lambda>t. fold (rebalance_partition E n ctxDone deadNodeID t) (Partitions t)) topics e1)"

text \<open>One turn of the worker: the next dead node, handled if the node is still the controller.\<close>

definition rebalance_worker :: "'e etcd \<Rightarrow> (nat \<Rightarrow> bool) \<Rightarrow> coordinator \<Rightarrow> 'e \<Rightarrow> coordinator \<times> 'e" where
  "rebalance_worker E ctxDone n e =
     (case rebalanceCh n of
        [] \<Rightarrow> (n, e)
      | dead # rest \<Rightarrow>
          let n1 = n\<lparr>rebalanceCh := rest\<rparr>
          in if ReadRole (cbroker n1) \<noteq> Controller then (n1, e)
             else (n1, rebalanceAfterNodeLoss E n1 ctxDone dead e))"

section \<open>Reconciliation\<close>

definition reconcile_partition ::
  "'e etcd \<Rightarrow> coordinator \<Rightarrow> (nat \<Rightarrow> bool) \<Rightarrow> TopicParams \<Rightarrow> PartitionsParams \<Rightarrow> 'e \<Rightarrow> 'e" where
  "reconcile_partition E n ctxDone t part e =
     (if desired_rf t \<le> int (length (ReplicasNodeId part)) then e
      else case pickReplicaCandidate E n (tpName t) (PartitionId part) (ReplicasNodeId part) e of
        (candidate, e1) \<Rightarrow>
          if candidate = 0 then e1
          else snd (AddReplicaToPartition E ctxDone (tpName t) (PartitionId part) candidate e1))"

definition reconcileReplication :: "'e etcd \<Rightarrow> coordinator \<Rightarrow> (nat \<Rightarrow> bool) \<Rightarrow> 'e \<Rightarrow> 'e" where
  "reconcileReplication E n ctxDone e =
     (case ListTopics E e of
        (Inl x, e1) \<Rightarrow> e1
      | (Inr topics, e1) \<Rightarrow> fold (\<lambda>t. fold (reconcile_partition E n ctxDone t) (Partitions t)) topics e1)"

definition reconcile_tick :: "'e etcd \<Rightarrow> coordinator \<Rightarrow> (nat \<Rightarrow> bool) \<Rightarrow> 'e \<Rightarrow> 'e" where
  "reconcile_tick E n ctxDone e =
     (if ReadRole (cbroker n) \<noteq> Controller then e else reconcileReplication E n ctxDone e)"

section \<open>The chosen node\<close>

lemma best_entry_range: "fst (best_entry t p i xs b) \<in> {fst b, i}"
proof (induction xs arbitrary: b)
  case (Cons x xs)
  show ?case using Cons.IH [of b] Cons.IH [of "(i, lsOffset x)"] by auto
qed simp

lemma best_reported_range:
  "fst (best_reported t p ls cs) \<in> insert 0 (set cs)"
proof -
  have "fst (fold (\<lambda>i. best_entry t p i (case map_of ls i of None \<Rightarrow> [] | Some xs \<Rightarrow> xs)) cs b) \<in> insert (fst b) (set cs)" for b
  proof (induction cs arbitrary: b)
    case (Cons c cs)
    have "fst (best_entry t p c (case map_of ls c of None \<Rightarrow> [] | Some xs \<Rightarrow> xs) b) \<in> {fst b, c}"
      by (rule best_entry_range)
    then show ?case using Cons.IH [of "best_entry t p c (case map_of ls c of None \<Rightarrow> [] | Some xs \<Rightarrow> xs) b"] by auto
  qed simp
  from this [of "(0, 0)"] show ?thesis by (simp add: best_reported_def)
qed

text \<open>Whatever etcd answers, the candidate is a member outside the excluded set, or 0 when there is none.\<close>

lemma pickReplicaCandidate_range:
  assumes "pickReplicaCandidate E n t p exclude e = (c, e')" and "0 \<notin> fst ` set (members n)"
  shows "if fst ` set (members n) \<subseteq> set exclude then c = 0 else c \<in> fst ` set (members n) - set exclude"
proof -
  let ?cs = "filter (\<lambda>i. \<not> List.member exclude i) (map fst (members n))"
  obtain ls e1 load e2 where r: "ListAll E e = (ls, e1)" "computeNodeLoad E e1 = (load, e2)" by (metis surj_pair)
  define f where "f = (\<lambda>i :: int. ((case load of Inl x \<Rightarrow> (\<lambda>_. 0) | Inr l \<Rightarrow> fst l) i, i))"
  define best where "best = fst (best_reported t p (case ls of Inl x \<Rightarrow> [] | Inr m \<Rightarrow> m) ?cs)"
  have c: "c = (if best \<noteq> 0 then best else if ?cs = [] then 0 else hd (sort_key f ?cs))" "best \<in> insert 0 (set ?cs)"
    using assms(1) r best_reported_range [of t p _ ?cs]
    by (auto simp: pickReplicaCandidate_def Let_def f_def best_def)
  have mem: "set ?cs = fst ` set (members n) - set exclude" by auto
  show ?thesis
  proof (cases "?cs = []")
    case True
    then show ?thesis using c mem by auto
  next
    case False
    then have "sort_key f ?cs \<noteq> []" by (metis set_empty set_sort)
    then have "hd (sort_key f ?cs) \<in> set ?cs" by (metis hd_in_set set_sort)
    then have "c \<in> set ?cs" using c False by auto
    then show ?thesis using mem by auto
  qed
qed

section \<open>The partitions of the stored topics as a keyed store\<close>

definition slots :: "etcd_store \<Rightarrow> string \<times> int \<Rightarrow> PartitionsParams option" where
  "slots s k = (case stored_topic (fst k) s of None \<Rightarrow> None | Some t \<Rightarrow> find_partition (snd k) t)"

definition set_partition :: "int \<Rightarrow> PartitionsParams \<Rightarrow> PartitionsParams list \<Rightarrow> PartitionsParams list" where
  "set_partition i q ps = map (\<lambda>p. if PartitionId p = i then q else p) ps"

definition put_slot :: "string \<times> int \<Rightarrow> PartitionsParams \<Rightarrow> etcd_store \<Rightarrow> etcd_store" where
  "put_slot k q s = (case stored_topic (fst k) s of None \<Rightarrow> s
     | Some t \<Rightarrow> store_commit [OpPut (topicKey (fst k))
         (VTopic (t\<lparr>Partitions := set_partition (snd k) q (Partitions t)\<rparr>)) 0] s)"

lemma find_partition_Some:
  "topic_ok t \<Longrightarrow> find_partition i t = Some p \<longleftrightarrow> p \<in> set (Partitions t) \<and> PartitionId p = i"
proof -
  have "distinct (map PartitionId ps) \<Longrightarrow>
      List.find (\<lambda>p. PartitionId p = i) ps = Some p \<longleftrightarrow> p \<in> set ps \<and> PartitionId p = i" for ps
    by (induction ps) auto
  then show "topic_ok t \<Longrightarrow> ?thesis" by (simp add: find_partition_def topic_ok_def)
qed

lemma stored_topic_ok:
  "topics_ok s \<Longrightarrow> stored_topic name s = Some t \<Longrightarrow> tpName t = name \<and> topic_ok t"
  using topics_ok_get [of s name] by (fastforce simp: stored_topic_def split: option.splits)

lemma slots_Some:
  "topics_ok s \<Longrightarrow> slots s (name, i) = Some p \<longleftrightarrow>
     (\<exists>t. stored_topic name s = Some t \<and> p \<in> set (Partitions t) \<and> PartitionId p = i)"
  using stored_topic_ok find_partition_Some by (fastforce simp: slots_def split: option.splits)

lemma set_partition_ids [simp]: "PartitionId q = i \<Longrightarrow> map PartitionId (set_partition i q ps) = map PartitionId ps"
  by (simp add: set_partition_def)

lemma set_partition_ok:
  "topic_ok t \<Longrightarrow> partition_ok q \<Longrightarrow> PartitionId q = i \<Longrightarrow> topic_ok (t\<lparr>Partitions := set_partition i q (Partitions t)\<rparr>)"
  by (auto simp: topic_ok_def) (auto simp: set_partition_def)

lemma find_set_partition:
  "PartitionId q = i \<Longrightarrow> find_partition j (t\<lparr>Partitions := set_partition i q (Partitions t)\<rparr>) =
     (if j = i \<and> find_partition j t \<noteq> None then Some q else find_partition j t)"
proof -
  assume "PartitionId q = i"
  then have "List.find (\<lambda>p. PartitionId p = j) (set_partition i q ps) =
      (if j = i \<and> List.find (\<lambda>p. PartitionId p = j) ps \<noteq> None then Some q else List.find (\<lambda>p. PartitionId p = j) ps)" for ps
    by (induction ps) (auto simp: set_partition_def)
  from this [of "Partitions t"] show ?thesis by (simp only: find_partition_def) simp
qed

lemma stored_topic_put_slot:
  assumes "stored_topic (fst k) s = Some t"
  shows "stored_topic name (put_slot k q s) =
     (if name = fst k then Some (t\<lparr>Partitions := set_partition (snd k) q (Partitions t)\<rparr>) else stored_topic name s)"
  using assms by (simp add: put_slot_def stored_topic_def)

interpretation topic_slots: keyed_store topics_ok "\<lambda>k s. slots s k" put_slot
  "\<lambda>k u v. partition_ok v \<and> PartitionId v = snd k"
proof unfold_locales
  fix s k u v j
  assume ok: "topics_ok s" and g: "slots s k = Some u" and f: "partition_ok v \<and> PartitionId v = snd k"
  then obtain t where t: "stored_topic (fst k) s = Some t" "find_partition (snd k) t = Some u"
    by (auto simp: slots_def split: option.splits)
  have tok: "tpName t = fst k" "topic_ok t" using stored_topic_ok [OF ok t(1)] by auto
  show "topics_ok (put_slot k v s)"
    using topics_ok_put [OF ok set_partition_ok [OF tok(2), of v "snd k"]] f tok(1) t(1) by (simp add: put_slot_def)
  show "slots (put_slot k v s) k = Some v"
    using f t by (simp add: slots_def stored_topic_put_slot [OF t(1)] find_set_partition)
  show "slots (put_slot k v s) j = slots s j" if "j \<noteq> k"
  proof (cases "fst j = fst k")
    case True
    then have "snd j \<noteq> snd k" using that by (auto simp: prod_eq_iff)
    then show ?thesis using f t True by (simp add: slots_def stored_topic_put_slot [OF t(1)] find_set_partition)
  qed (simp add: slots_def stored_topic_put_slot [OF t(1)])
qed

section \<open>The operations on a quiet service\<close>

lemma first_partition_set:
  "distinct (map PartitionId ps) \<Longrightarrow> p \<in> set ps \<Longrightarrow> PartitionId p = i \<Longrightarrow> f p = Inr q \<Longrightarrow>
   first_partition i f missing ps = Inr (set_partition i q ps)"
proof (induction ps)
  case (Cons x ps)
  show ?case
  proof (cases "PartitionId x = i")
    case True
    have fresh: "PartitionId y \<noteq> i" if "y \<in> set ps" for y
      using True Cons.prems(1) imageI [OF that, of PartitionId] by auto
    then have "x = p" using Cons.prems(2,3) by auto
    have "set_partition i q ps = ps" using fresh by (auto simp: set_partition_def intro: map_idI)
    then show ?thesis using True \<open>x = p\<close> Cons.prems(4) by (simp add: set_partition_def)
  next
    case False
    then have "first_partition i f missing ps = Inr (set_partition i q ps)" using Cons by auto
    then show ?thesis using False by (simp add: set_partition_def)
  qed
qed simp

lemma quiet_GetTopic:
  assumes q: "etcd_quiet E view" and "topics_ok (view e)" and "stored_topic name (view e) = Some t"
  obtains r e' where "GetTopic E name e = (Inr (Some (t, r)), e')" "view e' = view e"
    "cmp_holds (view e) (ModRevisionIs (topicKey name) r)" "r \<noteq> 0"
proof -
  obtain kv where kv: "store_get (topicKey name) (view e) = Some kv" "as_topic (kvValue kv) = Some t"
    using assms(3) by (auto simp: stored_topic_def split: option.splits)
  obtain e' where "eGet E (topicKey name) e = (Inr (Some kv), e')" "view e' = view e"
    using quiet_get [OF q, of "topicKey name" e] kv(1) by metis
  moreover have "kvModRevision kv \<noteq> 0" using store_ok_rev [OF _ kv(1)] assms(2) by (auto simp: topics_ok_def)
  ultimately show thesis using kv by (intro that [of "kvModRevision kv" e']) (auto simp: GetTopic_def)
qed

lemma quiet_on_partition:
  assumes q: "etcd_quiet E view" and ok: "topics_ok (view e)" and "slots (view e) (name, i) = Some p"
    and "f p = Inr p'" and "keeps_topic (on_partition i f missing)"
  obtains e' where "mutateTopic E ctxDone name (on_partition i f missing) e = (None, e')"
    "view e' = put_slot (name, i) p' (view e)"
proof -
  obtain t where t: "stored_topic name (view e) = Some t" "p \<in> set (Partitions t)" "PartitionId p = i"
    using assms(3) slots_Some [OF ok] by blast
  have tok: "tpName t = name" "topic_ok t" using stored_topic_ok [OF ok t(1)] by auto
  let ?t = "t\<lparr>Partitions := set_partition i p' (Partitions t)\<rparr>"
  have m: "on_partition i f missing t = Inr ?t"
    using first_partition_set [where f = f and p = p, OF _ t(2,3) assms(4)] tok(2) by (simp add: on_partition_def topic_ok_def)
  obtain r e1 where g: "GetTopic E name e = (Inr (Some (t, r)), e1)" "view e1 = view e"
    "cmp_holds (view e) (ModRevisionIs (topicKey name) r)" "r \<noteq> 0"
    using quiet_GetTopic [OF q ok t(1)] .
  obtain b e2 where x: "eTxn E [ModRevisionIs (topicKey name) r] [OpPut (topicKey name) (VTopic ?t) 0] e1 = (Inr b, e2)"
    "store_txn [ModRevisionIs (topicKey name) r] [OpPut (topicKey name) (VTopic ?t) 0] (view e1) = (b, view e2)"
    using quiet_txn [OF q] .
  have b: "b = True" "view e2 = store_commit [OpPut (topicKey name) (VTopic ?t) 0] (view e)"
    using x(2) g(2,3) by (auto simp: store_txn_def split: if_splits)
  have "mutateTopic E ctxDone name (on_partition i f missing) e = (None, e2)"
    using g(1,4) m x(1) b(1) tok(1)
    by (simp add: mutateTopic_def maxRetries_def eval_nat_numeral PutTopicCAS_def Let_def)
  moreover have "view e2 = put_slot (name, i) p' (view e)" using b(2) t(1) by (simp add: put_slot_def)
  ultimately show thesis using that by blast
qed

lemma has_prefix_topic: "has_prefix TopicPath k \<longleftrightarrow> (\<exists>name. k = topicKey name)"
  by (auto simp: has_prefix_def topicKey_def) (metis append_take_drop_id)

lemma quiet_ListTopics:
  assumes q: "etcd_quiet E view" and ok: "topics_ok (view e)"
  obtains topics e' where "ListTopics E e = (Inr topics, e')" "view e' = view e" "distinct (map tpName topics)"
    "\<And>t. t \<in> set topics \<longleftrightarrow> stored_topic (tpName t) (view e) = Some t"
proof -
  obtain kvs e' where g: "eGetPrefix E TopicPath e = (Inr kvs, e')" "view e' = view e" "distinct (map fst kvs)"
    "\<And>k kv. (k, kv) \<in> set kvs \<longleftrightarrow> has_prefix TopicPath k \<and> store_get k (view e) = Some kv"
    using quiet_prefix [OF q, of TopicPath e] by metis
  let ?f = "\<lambda>(k :: string, kv). as_topic (kvValue kv)"
  have kv: "\<exists>t. ?f (k, kv) = Some t \<and> k = topicKey (tpName t)" if m: "(k, kv) \<in> set kvs" for k kv
  proof -
    obtain name where "k = topicKey name" "store_get (topicKey name) (view e) = Some kv"
      using m unfolding g(4) has_prefix_topic by blast
    then show ?thesis using topics_ok_get [OF ok, of name kv] by auto
  qed
  have names: "set xs \<subseteq> set kvs \<Longrightarrow> map (topicKey \<circ> tpName) (List.map_filter ?f xs) = map fst xs" for xs
    by (induction xs) (use kv in \<open>fastforce simp: List.map_filter_simps\<close>)+
  have "distinct (map (topicKey \<circ> tpName) (List.map_filter ?f kvs))" using names [OF subset_refl] g(3) by simp
  then have d: "distinct (map tpName (List.map_filter ?f kvs))"
    by (metis (no_types, lifting) distinct_map map_map)
  have "t \<in> set (List.map_filter ?f kvs) \<longleftrightarrow> stored_topic (tpName t) (view e) = Some t" for t
  proof
    assume "t \<in> set (List.map_filter ?f kvs)"
    then obtain k x where "(k, x) \<in> set kvs" "as_topic (kvValue x) = Some t"
      by (auto simp: List.map_filter_def)
    then show "stored_topic (tpName t) (view e) = Some t"
      using kv [of k x] g(4) [of k x] by (auto simp: stored_topic_def)
  next
    assume "stored_topic (tpName t) (view e) = Some t"
    then obtain x where "store_get (topicKey (tpName t)) (view e) = Some x" "as_topic (kvValue x) = Some t"
      by (auto simp: stored_topic_def split: option.splits)
    then show "t \<in> set (List.map_filter ?f kvs)"
      using g(4) [of "topicKey (tpName t)" x] has_prefix_topic
      by (fastforce simp: List.map_filter_def image_iff)
  qed
  then show thesis using g(1,2) d by (intro that [of "List.map_filter ?f kvs" e']) (auto simp: ListTopics_def)
qed

lemma quiet_pick:
  assumes q: "etcd_quiet E view" and ok: "topics_ok (view e)"
    and "pickReplicaCandidate E n t p exclude e = (c, e')"
  shows "view e' = view e"
proof -
  obtain kvs e1 where l: "eGetPrefix E NodeLocalStatePath e = (Inr kvs, e1)" "view e1 = view e"
    using quiet_prefix [OF q, of NodeLocalStatePath e] by metis
  obtain topics e2 where t: "ListTopics E e1 = (Inr topics, e2)" "view e2 = view e1"
    using quiet_ListTopics [OF q, of e1] ok l(2) by metis
  show ?thesis using assms(3) l t by (simp add: pickReplicaCandidate_def ListAll_def computeNodeLoad_def Let_def)
qed

section \<open>One pass over all partitions\<close>

definition slot_key :: "TopicParams \<times> PartitionsParams \<Rightarrow> string \<times> int" where
  "slot_key tp = (tpName (fst tp), PartitionId (snd tp))"

definition all_partitions :: "TopicParams list \<Rightarrow> (TopicParams \<times> PartitionsParams) list" where
  "all_partitions topics = concat (map (\<lambda>t. map (Pair t) (Partitions t)) topics)"

lemma fold_all_partitions:
  "fold (\<lambda>t. fold (f t) (Partitions t)) topics e = fold (\<lambda>(t, p). f t p) (all_partitions topics) e"
proof (induction topics arbitrary: e)
  case (Cons t topics)
  have "fold (\<lambda>(t, p). f t p) (map (Pair t) ps) e = fold (f t) ps e" for ps e
    by (induction ps arbitrary: e) auto
  then show ?case using Cons.IH by (simp add: all_partitions_def)
qed (simp add: all_partitions_def)

lemma all_partitions_keys:
  assumes "distinct (map tpName topics)" and "\<And>t. t \<in> set topics \<Longrightarrow> topic_ok t"
  shows "distinct (map slot_key (all_partitions topics))"
  using assms
proof (induction topics)
  case (Cons t topics)
  have "distinct (map slot_key (map (Pair t) (Partitions t)))"
    using Cons.prems(2) [of t] by (simp add: slot_key_def topic_ok_def comp_def distinct_map inj_on_def)
  moreover have "distinct (map slot_key (all_partitions topics))" using Cons by simp
  moreover have "fst k \<in> tpName ` set topics" if "k \<in> set (map slot_key (all_partitions topics))" for k
    using that by (auto simp: all_partitions_def slot_key_def)
  moreover have "fst k = tpName t" if "k \<in> set (map slot_key (map (Pair t) (Partitions t)))" for k
    using that by (auto simp: slot_key_def)
  moreover have "all_partitions (t # topics) = map (Pair t) (Partitions t) @ all_partitions topics"
    by (simp add: all_partitions_def)
  moreover have "tpName t \<notin> tpName ` set topics" using Cons.prems(1) by simp
  ultimately show ?case unfolding map_append distinct_append by (metis (no_types, lifting) disjoint_iff map_append distinct_append)
qed (simp add: all_partitions_def)

text \<open>What the topics ask for, which no operation changes.\<close>

definition topic_rf :: "etcd_store \<Rightarrow> string \<Rightarrow> int option" where
  "topic_rf s name = map_option desired_rf (stored_topic name s)"

text \<open>What the handling of one partition does to it: \<open>R t p q\<close> relates it before and after.\<close>

definition slot_step ::
  "('e \<Rightarrow> etcd_store) \<Rightarrow> (TopicParams \<Rightarrow> PartitionsParams \<Rightarrow> PartitionsParams \<Rightarrow> bool)
   \<Rightarrow> (TopicParams \<Rightarrow> PartitionsParams \<Rightarrow> 'e \<Rightarrow> 'e) \<Rightarrow> bool" where
  "slot_step view R f \<longleftrightarrow> (\<forall>t p e. topics_ok (view e) \<longrightarrow> slots (view e) (tpName t, PartitionId p) = Some p \<longrightarrow>
     topics_ok (view (f t p e)) \<and> topic_rf (view (f t p e)) = topic_rf (view e) \<and>
     (\<exists>q. R t p q \<and> slots (view (f t p e)) = (slots (view e))((tpName t, PartitionId p) \<mapsto> q)))"

lemma fold_slots:
  assumes "slot_step view R f" and "distinct (map slot_key xs)" and "topics_ok (view e)"
    and "\<And>tp. tp \<in> set xs \<Longrightarrow> slots (view e) (slot_key tp) = Some (snd tp)"
  shows "topics_ok (view (fold (\<lambda>(t, p). f t p) xs e))
    \<and> topic_rf (view (fold (\<lambda>(t, p). f t p) xs e)) = topic_rf (view e)
    \<and> (\<forall>(t, p)\<in>set xs. \<exists>q. R t p q \<and> slots (view (fold (\<lambda>(t, p). f t p) xs e)) (slot_key (t, p)) = Some q)
    \<and> (\<forall>k. k \<notin> slot_key ` set xs \<longrightarrow> slots (view (fold (\<lambda>(t, p). f t p) xs e)) k = slots (view e) k)"
  using assms(2-)
proof (induction xs arbitrary: e)
  case (Cons x xs)
  obtain t p where x: "x = (t, p)" by (cases x)
  let ?k = "slot_key (t, p)" and ?e = "f t p e" and ?g = "\<lambda>(t, p). f t p"
  have "slots (view e) (tpName t, PartitionId p) = Some p" using Cons.prems(3) [of x] x by (simp add: slot_key_def)
  then have "topics_ok (view ?e) \<and> topic_rf (view ?e) = topic_rf (view e) \<and> (\<exists>q. R t p q \<and> slots (view ?e) = (slots (view e))((tpName t, PartitionId p) \<mapsto> q))"
    using assms(1) Cons.prems(2) unfolding slot_step_def by blast
  then obtain q where st: "topics_ok (view ?e)" "R t p q" "slots (view ?e) = (slots (view e))(?k \<mapsto> q)"
    and rf: "topic_rf (view ?e) = topic_rf (view e)"
    by (auto simp: slot_key_def)
  have new: "?k \<notin> slot_key ` set xs" using Cons.prems(1) x by simp
  have "slots (view ?e) (slot_key y) = Some (snd y)" if "y \<in> set xs" for y
  proof -
    have "slot_key y \<noteq> ?k" using new that by (metis imageI)
    then show ?thesis using st(3) Cons.prems(3) [of y] that by (auto simp: slot_key_def)
  qed
  with Cons.IH [of ?e] Cons.prems(1) st(1)
  have ih: "topics_ok (view (fold ?g xs ?e))" "topic_rf (view (fold ?g xs ?e)) = topic_rf (view e)"
    "\<forall>(t, p)\<in>set xs. \<exists>q. R t p q \<and> slots (view (fold ?g xs ?e)) (slot_key (t, p)) = Some q"
    "\<forall>k. k \<notin> slot_key ` set xs \<longrightarrow> slots (view (fold ?g xs ?e)) k = slots (view ?e) k"
    using rf by auto
  have own: "slots (view (fold ?g xs ?e)) ?k = Some q"
    using ih(4) [THEN spec, THEN mp, OF new] st(3) by simp
  show ?case using ih own st x by auto
qed simp

text \<open>A pass that lists the topics and handles every partition of the list.\<close>

lemma quiet_pass:
  assumes q: "etcd_quiet E view" and ok: "topics_ok (view e)" and "slot_step view R f"
    and "slots (view e) (name, i) = Some p" and "stored_topic name (view e) = Some t"
    and "ListTopics E e = (Inr topics, e1)"
  shows "topics_ok (view (fold (\<lambda>t. fold (f t) (Partitions t)) topics e1))
    \<and> topic_rf (view (fold (\<lambda>t. fold (f t) (Partitions t)) topics e1)) = topic_rf (view e)
    \<and> (\<exists>p'. R t p p' \<and> slots (view (fold (\<lambda>t. fold (f t) (Partitions t)) topics e1)) (name, i) = Some p')"
proof -
  have l: "view e1 = view e" "distinct (map tpName topics)"
    "\<And>t. t \<in> set topics \<longleftrightarrow> stored_topic (tpName t) (view e) = Some t"
    using quiet_ListTopics [OF q ok] assms(6) by (metis Inr_inject prod.inject)+
  have tok: "topic_ok s" if "s \<in> set topics" for s using stored_topic_ok [OF ok] l(3) that by blast
  have p: "p \<in> set (Partitions t)" "PartitionId p = i" "tpName t = name"
    using assms(4,5) slots_Some [OF ok] stored_topic_ok [OF ok] by auto
  have start: "slots (view e1) (slot_key tp) = Some (snd tp)" if m: "tp \<in> set (all_partitions topics)" for tp
  proof -
    obtain s r where s: "tp = (s, r)" "s \<in> set topics" "r \<in> set (Partitions s)"
      using m by (auto simp: all_partitions_def)
    then have "slots (view e) (tpName s, PartitionId r) = Some r" using l(3) slots_Some [OF ok] by blast
    then show ?thesis using s(1) l(1) by (simp add: slot_key_def)
  qed
  have "(t, p) \<in> set (all_partitions topics)"
    using l(3) [of t] assms(5) p by (auto simp: all_partitions_def)
  with fold_slots [OF assms(3) all_partitions_keys [OF l(2) tok], of e1] start ok l(1)
  show ?thesis unfolding fold_all_partitions using p by (fastforce simp: slot_key_def)
qed

section \<open>The two handlers\<close>

text \<open>The replicas after a possible addition: at most one, a member, only when fewer than desired.\<close>

definition extended :: "coordinator \<Rightarrow> TopicParams \<Rightarrow> int list \<Rightarrow> int list \<Rightarrow> bool" where
  "extended n t rs rs' \<longleftrightarrow>
     (if desired_rf t \<le> int (length rs) \<or> fst ` set (members n) \<subseteq> set rs then rs' = rs
      else \<exists>c. rs' = rs @ [c] \<and> c \<in> fst ` set (members n) - set rs)"

definition after_reconcile :: "coordinator \<Rightarrow> TopicParams \<Rightarrow> PartitionsParams \<Rightarrow> PartitionsParams \<Rightarrow> bool" where
  "after_reconcile n t p q \<longleftrightarrow>
     (\<exists>rs. q = p\<lparr>ReplicasNodeId := rs\<rparr> \<and> extended n t (ReplicasNodeId p) rs)"

definition after_loss :: "coordinator \<Rightarrow> int \<Rightarrow> TopicParams \<Rightarrow> PartitionsParams \<Rightarrow> PartitionsParams \<Rightarrow> bool" where
  "after_loss n dead t p q \<longleftrightarrow>
     (if dead \<in> set (ReplicasNodeId p) then
        \<exists>rs. q = p\<lparr>IsrNodeId := filter (\<lambda>x. x \<noteq> dead) (IsrNodeId p), ReplicasNodeId := rs\<rparr> \<and>
             extended n t (filter (\<lambda>x. x \<noteq> dead) (ReplicasNodeId p)) rs
      else q = p)"

lemma slots_put_slot:
  assumes "topics_ok s" and "slots s k = Some u" and "partition_ok v" and "PartitionId v = snd k"
  shows "topics_ok (put_slot k v s)" and "slots (put_slot k v s) = (slots s)(k \<mapsto> v)"
    and "topic_rf (put_slot k v s) = topic_rf s"
proof -
  show "topics_ok (put_slot k v s)" "slots (put_slot k v s) = (slots s)(k \<mapsto> v)"
    using topic_slots.put_ok [OF assms(1,2), of v] topic_slots.get_put [OF assms(1,2), of v] assms(3,4) by auto
  obtain t where "stored_topic (fst k) s = Some t" using assms(2) by (auto simp: slots_def split: option.splits)
  from stored_topic_put_slot [OF this] this show "topic_rf (put_slot k v s) = topic_rf s"
    by (auto simp: topic_rf_def desired_rf_def fun_eq_iff)
qed

lemma slots_partition_ok: "topics_ok s \<Longrightarrow> slots s (name, i) = Some p \<Longrightarrow> partition_ok p \<and> PartitionId p = i"
  using slots_Some stored_topic_ok by (fastforce simp: topic_ok_def)

text \<open>Choosing and adding a replica to the partition in its present state \<open>p\<close>.\<close>

lemma quiet_extend:
  assumes q: "etcd_quiet E view" and ok: "topics_ok (view e)" and "slots (view e) (name, i) = Some p"
    and nz: "0 \<notin> fst ` set (members n)" and short: "\<not> desired_rf t \<le> int (length (ReplicasNodeId p))"
    and pick: "pickReplicaCandidate E n name i (ReplicasNodeId p) e = (c, e1)"
    and res: "e' = (if c = 0 then e1 else snd (AddReplicaToPartition E ctxDone name i c e1))"
  shows "topics_ok (view e') \<and> topic_rf (view e') = topic_rf (view e) \<and>
    (\<exists>rs. extended n t (ReplicasNodeId p) rs \<and>
       slots (view e') = (slots (view e))((name, i) \<mapsto> p\<lparr>ReplicasNodeId := rs\<rparr>))"
proof -
  have v: "view e1 = view e" using quiet_pick [OF q ok pick] .
  have c: "if fst ` set (members n) \<subseteq> set (ReplicasNodeId p) then c = 0
      else c \<in> fst ` set (members n) - set (ReplicasNodeId p)"
    by (rule pickReplicaCandidate_range [OF pick nz])
  show ?thesis
  proof (cases "c = 0")
    case True
    then have "extended n t (ReplicasNodeId p) (ReplicasNodeId p)"
      using c nz by (auto simp: extended_def split: if_splits)
    then show ?thesis using res True v ok assms(3) by (intro conjI exI [of _ "ReplicasNodeId p"]) auto
  next
    case False
    then have mem: "c \<in> fst ` set (members n)" "c \<notin> set (ReplicasNodeId p)" using c by (auto split: if_splits)
    let ?p = "p\<lparr>ReplicasNodeId := ReplicasNodeId p @ [c]\<rparr>"
    have add: "add_replica c p = Inr ?p" using mem(2) by (simp add: add_replica_def)
    have pok: "partition_ok p" "PartitionId p = i" using slots_partition_ok [OF ok assms(3)] by auto
    have ok1: "topics_ok (view e1)" "slots (view e1) (name, i) = Some p" using ok assms(3) v by auto
    obtain e2 where e2: "mutateTopic E ctxDone name
        (on_partition i (add_replica c) (Some (EPartitionNotFound i name))) e1 = (None, e2)"
      "view e2 = put_slot (name, i) ?p (view e1)"
      using quiet_on_partition [OF q ok1 add mutators_keep(1)] .
    have "e' = e2" using res False e2(1) by (simp add: AddReplicaToPartition_def)
    moreover have "topics_ok (view e2)" "slots (view e2) = (slots (view e))((name, i) \<mapsto> ?p)"
      "topic_rf (view e2) = topic_rf (view e)"
      using slots_put_slot [OF ok1, of ?p] add_replica_ok [OF pok(1) add] pok(2) e2(2) v by auto
    moreover have "extended n t (ReplicasNodeId p) (ReplicasNodeId p @ [c])"
      using short mem by (auto simp: extended_def)
    ultimately show ?thesis by blast
  qed
qed

lemma reconcile_slot_step:
  assumes q: "etcd_quiet E view" and nz: "0 \<notin> fst ` set (members n)"
  shows "slot_step view (after_reconcile n) (reconcile_partition E n ctxDone)"
  unfolding slot_step_def
proof (intro allI impI)
  fix t :: TopicParams and p e assume ok: "topics_ok (view e)" and s: "slots (view e) (tpName t, PartitionId p) = Some p"
  let ?e = "reconcile_partition E n ctxDone t p e"
  obtain c e1 where pick: "pickReplicaCandidate E n (tpName t) (PartitionId p) (ReplicasNodeId p) e = (c, e1)"
    by (metis surj_pair)
  show "topics_ok (view ?e) \<and> topic_rf (view ?e) = topic_rf (view e) \<and>
    (\<exists>q. after_reconcile n t p q \<and> slots (view ?e) = (slots (view e))((tpName t, PartitionId p) \<mapsto> q))"
  proof (cases "desired_rf t \<le> int (length (ReplicasNodeId p))")
    case True
    then have "?e = e" "after_reconcile n t p p"
      by (auto simp: reconcile_partition_def after_reconcile_def extended_def intro: exI [of _ "ReplicasNodeId p"])
    then show ?thesis using ok s by (intro conjI exI [of _ p]) auto
  next
    case False
    then have "?e = (if c = 0 then e1 else snd (AddReplicaToPartition E ctxDone (tpName t) (PartitionId p) c e1))"
      using pick by (simp add: reconcile_partition_def)
    from quiet_extend [OF q ok s nz False pick this] show ?thesis by (auto simp: after_reconcile_def)
  qed
qed

lemma rebalance_slot_step:
  assumes q: "etcd_quiet E view" and nz: "0 \<notin> fst ` set (members n)"
  shows "slot_step view (after_loss n dead) (rebalance_partition E n ctxDone dead)"
  unfolding slot_step_def
proof (intro allI impI)
  fix t :: TopicParams and p e assume ok: "topics_ok (view e)" and s: "slots (view e) (tpName t, PartitionId p) = Some p"
  let ?e = "rebalance_partition E n ctxDone dead t p e" and ?k = "(tpName t, PartitionId p)"
  show "topics_ok (view ?e) \<and> topic_rf (view ?e) = topic_rf (view e) \<and> (\<exists>q. after_loss n dead t p q \<and> slots (view ?e) = (slots (view e))(?k \<mapsto> q))"
  proof (cases "dead \<in> set (ReplicasNodeId p)")
    case False
    then have "?e = e" "after_loss n dead t p p" by (simp_all add: rebalance_partition_def after_loss_def)
    then show ?thesis using ok s by (intro conjI exI [of _ p]) auto
  next
    case True
    let ?f = "filter (\<lambda>x. x \<noteq> dead)"
    define p1 where "p1 = p\<lparr>ReplicasNodeId := ?f (ReplicasNodeId p), IsrNodeId := ?f (IsrNodeId p)\<rparr>"
    have rm: "remove_node dead p = Inr p1" by (simp add: remove_node_def p1_def)
    have pok: "partition_ok p" using slots_partition_ok [OF ok s] by simp
    obtain e1 where e1: "mutateTopic E ctxDone (tpName t) (on_partition (PartitionId p) (remove_node dead) None) e = (None, e1)"
      "view e1 = put_slot ?k p1 (view e)"
      using quiet_on_partition [OF q ok s rm mutators_keep(3)] .
    have ok1: "topics_ok (view e1)" and s1: "slots (view e1) = (slots (view e))(?k \<mapsto> p1)"
      and rf1: "topic_rf (view e1) = topic_rf (view e)"
      using slots_put_slot [OF ok s, of p1] remove_node_ok [OF pok rm] e1(2) by auto
    then have s1k: "slots (view e1) (tpName t, PartitionId p) = Some p1" by simp
    then obtain cur where cur: "stored_topic (tpName t) (view e1) = Some cur" "find_partition (PartitionId p) cur = Some p1"
      by (auto simp: slots_def split: option.splits)
    obtain r e2 where e2: "GetTopic E (tpName t) e1 = (Inr (Some (cur, r)), e2)" "view e2 = view e1"
      using quiet_GetTopic [OF q ok1 cur(1)] .
    obtain c e3 where pick: "pickReplicaCandidate E n (tpName t) (PartitionId p) (ReplicasNodeId p1) e2 = (c, e3)"
      by (metis surj_pair)
    have ev: "?e = (if desired_rf t \<le> int (length (ReplicasNodeId p1)) then e2
        else if c = 0 then e3 else snd (AddReplicaToPartition E ctxDone (tpName t) (PartitionId p) c e3))"
      using True e1(1) e2(1) cur(2) pick
      by (simp add: rebalance_partition_def RemoveNodeFromPartition_def)
    have "topics_ok (view ?e) \<and> topic_rf (view ?e) = topic_rf (view e2) \<and> (\<exists>rs. extended n t (ReplicasNodeId p1) rs \<and>
        slots (view ?e) = (slots (view e2))(?k \<mapsto> p1\<lparr>ReplicasNodeId := rs\<rparr>))"
    proof (cases "desired_rf t \<le> int (length (ReplicasNodeId p1))")
      case True
      then have "?e = e2" "extended n t (ReplicasNodeId p1) (ReplicasNodeId p1)" using ev by (auto simp: extended_def)
      then show ?thesis using ok1 s1k e2(2) by (intro conjI exI [of _ "ReplicasNodeId p1"]) auto
    next
      case False
      have ok2: "topics_ok (view e2)" "slots (view e2) (tpName t, PartitionId p) = Some p1" using ok1 s1k e2(2) by auto
      show ?thesis by (rule quiet_extend [OF q ok2 nz False pick]) (use ev False in simp)
    qed
    then obtain rs where rs: "topics_ok (view ?e)" "extended n t (ReplicasNodeId p1) rs"
      "slots (view ?e) = (slots (view e))(?k \<mapsto> p1\<lparr>ReplicasNodeId := rs\<rparr>)"
      "topic_rf (view ?e) = topic_rf (view e)" using s1 rf1 e2(2) by auto
    then have "after_loss n dead t p (p1\<lparr>ReplicasNodeId := rs\<rparr>)"
      using True by (auto simp: after_loss_def p1_def)
    then show ?thesis using rs(1,3,4) by blast
  qed
qed

text \<open>The passes of the reconciliation, by their number.\<close>

definition grown :: "coordinator \<Rightarrow> int \<Rightarrow> nat \<Rightarrow> int list \<Rightarrow> int list \<Rightarrow> bool" where
  "grown n rf k rs added \<longleftrightarrow> set added \<subseteq> fst ` set (members n) - set rs \<and> distinct added \<and>
     (rf \<le> int (length (rs @ added)) \<or> fst ` set (members n) \<subseteq> set (rs @ added) \<or> length added = k) \<and>
     (added = [] \<or> int (length (rs @ added)) \<le> rf)"

lemma grown_stay:
  "rf \<le> int (length rs) \<or> fst ` set (members n) \<subseteq> set rs \<Longrightarrow> grown n rf k rs added \<Longrightarrow> grown n rf (Suc k) rs added"
  by (auto simp: grown_def)

lemma grown_step:
  assumes "\<not> rf \<le> int (length rs)" and "c \<in> fst ` set (members n) - set rs" and "grown n rf k (rs @ [c]) added"
  shows "grown n rf (Suc k) rs (c # added)"
  using assms by (auto simp: grown_def)

lemma reconcile_passes:
  assumes q: "etcd_quiet E view" and nz: "0 \<notin> fst ` set (members n)"
  shows "topics_ok (view e) \<Longrightarrow> slots (view e) (name, i) = Some p \<Longrightarrow> topic_rf (view e) name = Some rf \<Longrightarrow>
    \<exists>added. slots (view ((reconcileReplication E n ctxDone ^^ k) e)) (name, i) =
        Some (p\<lparr>ReplicasNodeId := ReplicasNodeId p @ added\<rparr>) \<and> grown n rf k (ReplicasNodeId p) added"
proof (induction k arbitrary: e p)
  case 0
  then show ?case by (intro exI [of _ "[]"]) (simp add: grown_def)
next
  case (Suc k)
  obtain t where t: "stored_topic name (view e) = Some t" "desired_rf t = rf"
    using Suc.prems(3) by (auto simp: topic_rf_def)
  obtain topics e1 where l: "ListTopics E e = (Inr topics, e1)" using quiet_ListTopics [OF q Suc.prems(1)] by metis
  let ?e = "reconcileReplication E n ctxDone e"
  obtain p1 where p1: "slots (view ?e) (name, i) = Some p1" "after_reconcile n t p p1"
    and ok: "topics_ok (view ?e)" and rf: "topic_rf (view ?e) name = Some rf"
    using quiet_pass [OF q Suc.prems(1) reconcile_slot_step [OF q nz] Suc.prems(2) t(1) l] l Suc.prems(3)
    by (auto simp: reconcileReplication_def)
  obtain rs where rs: "p1 = p\<lparr>ReplicasNodeId := rs\<rparr>" "extended n t (ReplicasNodeId p) rs"
    using p1(2) by (auto simp: after_reconcile_def)
  obtain added where IH: "slots (view ((reconcileReplication E n ctxDone ^^ k) ?e)) (name, i) =
      Some (p1\<lparr>ReplicasNodeId := rs @ added\<rparr>)" "grown n rf k rs added"
    using Suc.IH [OF ok p1(1) rf] rs(1) by auto
  have pass: "(reconcileReplication E n ctxDone ^^ Suc k) e = (reconcileReplication E n ctxDone ^^ k) ?e"
    by (simp only: funpow_Suc_right comp_apply)
  show ?case
  proof (cases "rf \<le> int (length (ReplicasNodeId p)) \<or> fst ` set (members n) \<subseteq> set (ReplicasNodeId p)")
    case True
    then have "rs = ReplicasNodeId p" using rs(2) t(2) by (simp add: extended_def)
    then show ?thesis
      using IH rs(1) grown_stay [OF True] unfolding pass by (intro exI [of _ added]) simp
  next
    case False
    then obtain c where "rs = ReplicasNodeId p @ [c]" "c \<in> fst ` set (members n) - set (ReplicasNodeId p)"
      using rs(2) t(2) by (auto simp: extended_def)
    then show ?thesis
      using IH rs(1) grown_step [of rf "ReplicasNodeId p" c n k added] False unfolding pass
      by (intro exI [of _ "c # added"]) simp
  qed
qed

section \<open>Properties\<close>


text \<open>Node 1 dies; it led the partition, whose replicas become 2 and 3, and it is still its leader.\<close>

definition sample_members :: "(int, NodeState) gomap" where
  "sample_members = [(3, sample_node 3), (2, sample_node 2)]"

lemma sample_slot: "stored_topic ''t'' sample_store = Some sample_topic"
  by (simp add: stored_topic_def sample_store_get)


text \<open>C29. Reconciliation converges: after enough passes (one per missing replica) of a controller, on a
  service that answers and with no other writer, every partition has as many replicas as its topic
  asks for, or every member as a replica. The passes only append members that were not yet replicas;
  they remove nobody, so a reassignment that was dropped because the queue was full is not made up
  for by this loop, as the comment at the queue says: the dead node stays a replica, and counts.\<close>

theorem reconcile_converges:
  assumes "etcd_quiet E view" and "topics_ok (view e)" and "0 \<notin> fst ` set (members n)"
    and "stored_topic name (view e) = Some t" and "p \<in> set (Partitions t)"
    and "desired_rf t \<le> int (length (ReplicasNodeId p)) + int k"
  shows "\<exists>added. slots (view ((reconcileReplication E n ctxDone ^^ k) e)) (name, PartitionId p) =
       Some (p\<lparr>ReplicasNodeId := ReplicasNodeId p @ added\<rparr>) \<and>
     set added \<subseteq> fst ` set (members n) - set (ReplicasNodeId p) \<and> distinct added \<and>
     (desired_rf t \<le> int (length (ReplicasNodeId p @ added)) \<or> fst ` set (members n) \<subseteq> set (ReplicasNodeId p @ added)) \<and>
     (added = [] \<or> int (length (ReplicasNodeId p @ added)) \<le> desired_rf t)"
proof -
  have s: "slots (view e) (name, PartitionId p) = Some p" using assms(4,5) slots_Some [OF assms(2)] by blast
  have rf: "topic_rf (view e) name = Some (desired_rf t)" using assms(4) by (simp add: topic_rf_def)
  obtain added where added: "slots (view ((reconcileReplication E n ctxDone ^^ k) e)) (name, PartitionId p) =
      Some (p\<lparr>ReplicasNodeId := ReplicasNodeId p @ added\<rparr>)" "grown n (desired_rf t) k (ReplicasNodeId p) added"
    using reconcile_passes [OF assms(1,3,2) s rf, where ctxDone = ctxDone and k = k] by blast
  then show ?thesis using assms(6) by (intro exI [of _ added]) (auto simp: grown_def)
qed

theorem reconcile_converges_witness:
  "\<exists>added. slots ((reconcileReplication calm_etcd (sample_coordinator\<lparr>members := (4, sample_node 4) # sample_members\<rparr>)
       (\<lambda>_. False) ^^ 2) (store_commit [OpPut (topicKey ''t'') (VTopic (sample_topic\<lparr>DesiredReplicationFactor := 4\<rparr>)) 0] sample_store))
       (''t'', 0) = Some (sample_part\<lparr>ReplicasNodeId := [1, 2] @ added\<rparr>) \<and> set added = {3, 4}"
proof -
  let ?n = "sample_coordinator\<lparr>members := (4, sample_node 4) # sample_members\<rparr>"
  let ?t = "sample_topic\<lparr>DesiredReplicationFactor := 4\<rparr>"
  let ?s = "store_commit [OpPut (topicKey ''t'') (VTopic ?t) 0] sample_store"
  have "topic_ok ?t" by (simp add: topic_ok_def sample_topic_def sample_part_def partition_ok_def)
  then have ok: "topics_ok ?s" using topics_ok_put [OF sample_store_ok, of ?t] by (simp add: sample_topic_def)
  have h: "0 \<notin> fst ` set (members ?n)" "stored_topic ''t'' ?s = Some ?t" "sample_part \<in> set (Partitions ?t)"
    "desired_rf ?t \<le> int (length (ReplicasNodeId sample_part)) + int 2"
    by (simp_all add: sample_members_def stored_topic_def sample_topic_def desired_rf_def sample_part_def)
  obtain added where a: "slots ((reconcileReplication calm_etcd ?n (\<lambda>_. False) ^^ 2) ?s) (''t'', 0) =
      Some (sample_part\<lparr>ReplicasNodeId := [1, 2] @ added\<rparr>)"
    "set added \<subseteq> {4, 3, 2} - {1, 2}" "distinct added"
    "4 \<le> int (length ([1, 2] @ added)) \<or> {4, 3, 2} \<subseteq> set ([1, 2] @ added)"
    using reconcile_converges [OF calm_etcd_quiet ok h, of "\<lambda>_. False"]
    by (auto simp: sample_part_def sample_members_def desired_rf_def)
  have "set added \<subseteq> {3, 4}" using a(2) by auto
  moreover have "{3, 4} \<subseteq> set added" if "length added < 2" using a(4) that by auto
  moreover have "card {3, 4 :: int} \<le> card (set added)" if "\<not> length added < 2"
    using distinct_card [OF a(3)] that by simp
  ultimately have "set added = {3, 4}" using card_seteq [of "{3, 4 :: int}" "set added"] by blast
  then show ?thesis using a(1) by blast
qed

end
