(* ===== verification/Election.thy ===== *)
theory Election
  imports Coordinator
begin

text \<open>
  The election of the controller, \<open>electionLoop\<close> in \<open>server/cluster/etcd.go\<close>: one iteration of the
  loop as one function over the key-value service. After \<open>ElLead\<close> the loop sleeps until its context
  is cancelled; after \<open>ElRetry\<close> and \<open>ElFollow\<close> it waits and iterates. The context is checked by
  whoever runs the iteration (\<open>electionOn\<close>).
\<close>

datatype election_outcome = ElRetry | ElFollow | ElLead int

text \<open>The zero value of the struct, which is what a failed \<open>Unmarshal\<close> of the own key leaves.\<close>

definition blank_node :: NodeState where
  "blank_node = \<lparr>nsID = 0, nsAddress = [], nsTcpAddress = [], nsControlAddress = [], nsHttpAddress = [],
     nsStartTime = [], nsRole = NoRole\<rparr>"

definition rev_cond :: "string \<Rightarrow> int \<Rightarrow> etcd_cmp" where
  "rev_cond key r = (if r = 0 then VersionZero key else ModRevisionIs key r)"

text \<open>The attempt to take over: controller \<open>0\<close> or dead, \<open>epoch\<close> and \<open>modRev\<close> as read.\<close>

definition claim_controller ::
  "'e etcd \<Rightarrow> coordinator \<Rightarrow> int \<Rightarrow> int \<Rightarrow> 'e \<Rightarrow> election_outcome \<times> coordinator \<times> 'e" where
  "claim_controller E n currentEpoch modRev e =
     (let myNodeKey = nodeKey (nodeID n)
      in case eGet E myNodeKey e of
        (Inl x, e1) \<Rightarrow> (ElRetry, n, e1)
      | (Inr kvo, e1) \<Rightarrow>
          (let myNode = (case kvo of None \<Rightarrow> blank_node
                         | Some kv \<Rightarrow> (case as_node (kvValue kv) of None \<Rightarrow> blank_node | Some st \<Rightarrow> st));
               myNodeModRev = (case kvo of None \<Rightarrow> 0 | Some kv \<Rightarrow> kvModRevision kv);
               nextEpoch = currentEpoch + 1
           in case eTxn E [rev_cond StatePath modRev, rev_cond myNodeKey myNodeModRev]
                     [OpPut StatePath (VController \<lparr>csLeaderId = nodeID n, csLeaderEpoch = nextEpoch\<rparr>) 0,
                      OpPut myNodeKey (VNode (myNode\<lparr>nsRole := Controller\<rparr>)) (leaseId n)] e1 of
                (Inl x, e2) \<Rightarrow> (ElRetry, n, e2)
              | (Inr False, e2) \<Rightarrow> (ElRetry, n, e2)
              | (Inr True, e2) \<Rightarrow>
                  (case SwitchToControllerMode E nextEpoch n e2 of (n', e3) \<Rightarrow> (ElLead nextEpoch, n', e3))))"

definition election_round :: "'e etcd \<Rightarrow> coordinator \<Rightarrow> 'e \<Rightarrow> election_outcome \<times> coordinator \<times> 'e" where
  "election_round E n e =
     (case eGet E StatePath e of
        (Inl x, e1) \<Rightarrow> (ElRetry, n, e1)
      | (Inr kvo, e1) \<Rightarrow>
          (case (case kvo of None \<Rightarrow> (0, 0, 0)
                 | Some kv \<Rightarrow> (case as_controller (kvValue kv) of None \<Rightarrow> (0, 0, 0)
                     | Some st \<Rightarrow> (csLeaderId st, csLeaderEpoch st, kvModRevision kv))) of
             (currentController, currentEpoch, modRev) \<Rightarrow>
               if currentController = nodeID n then
                 (case SwitchToControllerMode E currentEpoch n e1 of (n', e2) \<Rightarrow> (ElLead currentEpoch, n', e2))
               else
                 (case (if currentController = 0 then (False, e1)
                        else case eGet E (nodeKey currentController) e1 of
                          (Inr (Some kv), e2) \<Rightarrow> (True, e2)
                        | (r, e2) \<Rightarrow> (False, e2)) of
                    (leaderAlive, e2) \<Rightarrow>
                      if leaderAlive then
                        (case SwitchToFollowerMode E currentController currentEpoch n e2 of
                           (n', e3) \<Rightarrow> (ElFollow, n', e3))
                      else claim_controller E n currentEpoch modRev e2)))"

section \<open>The history of the controller key\<close>

definition controller_of :: "etcd_store \<Rightarrow> ControllerState option" where
  "controller_of s = (case store_get StatePath s of None \<Rightarrow> None | Some kv \<Rightarrow> as_controller (kvValue kv))"

definition controller_epoch :: "etcd_store \<Rightarrow> int" where
  "controller_epoch s = (case controller_of s of None \<Rightarrow> 0 | Some c \<Rightarrow> csLeaderEpoch c)"

text \<open>
  What clients do to the controller key: leave its value, or install a controller with the next epoch.
\<close>

definition epoch_clients :: "etcd_store \<Rightarrow> etcd_op list \<Rightarrow> bool" where
  "epoch_clients s ops \<longleftrightarrow> controller_of (store_commit ops s) = controller_of s \<or>
     (\<exists>c. controller_of (store_commit ops s) = Some c \<and> csLeaderEpoch c = controller_epoch s + 1)"

interpretation epochs: monotone_machine "\<lambda>_. True" "\<lambda>ops s. epoch_clients s ops" store_commit controller_epoch
  by unfold_locales (auto simp: epoch_clients_def controller_epoch_def)

lemma client_steps_epochs:
  assumes "client_steps epoch_clients s t"
  shows "\<exists>txns. t = fold store_commit txns s \<and> epochs.run_ok txns s"
  using assms
proof induction
  case client_refl
  then show ?case by (intro exI [of _ "[]"]) simp
next
  case (client_step s t ops)
  then obtain txns where "t = fold store_commit txns s" "epochs.run_ok txns s" by blast
  then show ?case using client_step.hyps(2)
    by (intro exI [of _ "txns @ [ops]"]) (simp add: epochs.run_ok_append)
qed

lemma epoch_steps_mono: "client_steps epoch_clients s t \<Longrightarrow> controller_epoch s \<le> controller_epoch t"
  using client_steps_epochs epochs.run_mono by blast

text \<open>A controller that is gone never has its epoch again.\<close>

lemma epoch_steps_unique:
  assumes "client_steps epoch_clients s t" and "controller_of s = Some a"
  shows "controller_of t = Some a \<or> controller_epoch s < controller_epoch t"
  using assms
proof induction
  case (client_step s t ops)
  have "controller_of (store_commit ops t) = controller_of t
      \<or> controller_epoch (store_commit ops t) = controller_epoch t + 1"
    using client_step.hyps(2) by (auto simp: epoch_clients_def controller_epoch_def)
  moreover have "controller_epoch s \<le> controller_epoch t" using epoch_steps_mono client_step.hyps(1) .
  ultimately show ?case using client_step by (auto simp: controller_epoch_def)
qed simp

section \<open>One iteration\<close>

lemma nodeKey_not_StatePath [simp]: "nodeKey i \<noteq> StatePath" "StatePath \<noteq> nodeKey i"
proof -
  have "nodeKey i ! 7 = CHR ''n''" "StatePath ! 7 = CHR ''c''"
    by (simp_all add: nodeKey_def NodesDiscoveryPath_def StatePath_def)
  then show "nodeKey i \<noteq> StatePath" "StatePath \<noteq> nodeKey i" by auto
qed

lemma nodeKey_inject [simp]: "nodeKey i = nodeKey j \<longleftrightarrow> i = j"
  by (simp add: nodeKey_def)

lemma controller_of_node_put [simp]:
  "controller_of (store_commit [OpPut (nodeKey i) v l] s) = controller_of s"
  by (simp add: controller_of_def)

lemma publishOwnRole_steps:
  assumes "etcd_ok E view epoch_clients"
  shows "client_steps epoch_clients (view e) (view (publishOwnRole E role n e))"
proof -
  let ?key = "nodeKey (nodeID n)"
  obtain g e1 where g: "eGet E ?key e = (g, e1)" by (cases "eGet E ?key e")
  have s1: "client_steps epoch_clients (view e) (view e1)" using etcd_get(1) [OF assms g] .
  have put: "client_steps epoch_clients (view e1) (view (snd (eTxn E cs [OpPut ?key v l] e1)))" for cs v l
    by (rule etcd_txn_steps(1) [OF assms prod.collapse [symmetric]]) (simp add: epoch_clients_def)
  show ?thesis
    using s1 client_steps_trans [OF s1 put] g
    by (auto simp: publishOwnRole_def Let_def split: sum.splits option.splits)
qed

lemma switch_steps:
  assumes "etcd_ok E view epoch_clients"
  shows "SwitchToControllerMode E k n e = (n', e') \<Longrightarrow> client_steps epoch_clients (view e) (view e')"
    and "SwitchToFollowerMode E c k n e = (n', e') \<Longrightarrow> client_steps epoch_clients (view e) (view e')"
  using publishOwnRole_steps [OF assms] by (auto simp: SwitchToControllerMode_def SwitchToFollowerMode_def Let_def)

text \<open>The two puts of a take-over.\<close>

lemma takeover_commit:
  "controller_of (store_commit [OpPut StatePath (VController c) 0, OpPut (nodeKey i) v l] s) = Some c"
  by (simp add: controller_of_def store_get_def store_commit_def update_conv')

definition epoch_read :: "int \<Rightarrow> int \<Rightarrow> etcd_store \<Rightarrow> bool" where
  "epoch_read currentEpoch modRev s \<longleftrightarrow>
     (if modRev = 0 then currentEpoch = 0
      else \<exists>kv c. store_get StatePath s = Some kv \<and> as_controller (kvValue kv) = Some c
             \<and> csLeaderEpoch c = currentEpoch \<and> kvModRevision kv = modRev)"

lemma epoch_at_commit:
  assumes "epoch_read currentEpoch modRev s" and "store_ok s" and "client_steps P s t"
    and "cmp_holds t (rev_cond StatePath modRev)"
  shows "controller_epoch t = currentEpoch"
proof (cases "modRev = 0")
  case True
  then show ?thesis using assms by (simp add: epoch_read_def rev_cond_def controller_epoch_def controller_of_def)
next
  case False
  then obtain kv c where kv: "store_get StatePath s = Some kv" "as_controller (kvValue kv) = Some c"
    "csLeaderEpoch c = currentEpoch" "kvModRevision kv = modRev"
    using assms(1) by (auto simp: epoch_read_def)
  then have "store_get StatePath t = Some kv"
    using unchanged_revision [OF assms(3,2) kv(1)] assms(4) False by (simp add: rev_cond_def)
  then show ?thesis using kv by (simp add: controller_epoch_def controller_of_def)
qed

text \<open>A node that leads after an iteration has been the controller, with that epoch, at some moment of it.\<close>

definition led :: "etcd_store \<Rightarrow> etcd_store \<Rightarrow> coordinator \<Rightarrow> int \<Rightarrow> bool" where
  "led s s' n k \<longleftrightarrow> (\<exists>t. client_steps epoch_clients s t \<and> client_steps epoch_clients t s' \<and>
     controller_of t = Some \<lparr>csLeaderId = nodeID n, csLeaderEpoch = k\<rparr>)"

lemma claim_controller_led:
  assumes E: "etcd_ok E view epoch_clients" and "store_ok (view e)"
    and "claim_controller E n k modRev e = (out, n', e')"
    and "\<And>t. client_steps epoch_clients (view e) t \<Longrightarrow> cmp_holds t (rev_cond StatePath modRev) \<Longrightarrow> controller_epoch t = k"
  shows "client_steps epoch_clients (view e) (view e')"
    and "out = ElLead j \<Longrightarrow> led (view e) (view e') n j"
proof -
  let ?key = "nodeKey (nodeID n)"
  obtain g e1 where g: "eGet E ?key e = (g, e1)" by (cases "eGet E ?key e")
  have s1: "client_steps epoch_clients (view e) (view e1)" using etcd_get(1) [OF E g] .
  let ?c = "\<lparr>csLeaderId = nodeID n, csLeaderEpoch = k + 1\<rparr>"
  have "client_steps epoch_clients (view e) (view e') \<and> (out = ElLead j \<longrightarrow> led (view e) (view e') n j)"
  proof (cases g)
    case (Inl x)
    then show ?thesis using assms(3) g s1 by (simp add: claim_controller_def Let_def)
  next
    case (Inr kvo)
    obtain v r cs where claim: "claim_controller E n k modRev e =
        (case eTxn E (rev_cond StatePath modRev # cs) [OpPut StatePath (VController ?c) 0, OpPut ?key v r] e1 of
           (Inl x, e2) \<Rightarrow> (ElRetry, n, e2) | (Inr False, e2) \<Rightarrow> (ElRetry, n, e2)
         | (Inr True, e2) \<Rightarrow> (case SwitchToControllerMode E (k + 1) n e2 of (n', e3) \<Rightarrow> (ElLead (k + 1), n', e3)))"
      using g Inr by (simp add: claim_controller_def Let_def)
    let ?ops = "[OpPut StatePath (VController ?c) 0, OpPut ?key v r]"
    obtain b e2 where b: "eTxn E (rev_cond StatePath modRev # cs) ?ops e1 = (b, e2)"
      by (cases "eTxn E (rev_cond StatePath modRev # cs) ?ops e1")
    have ok: "epoch_clients t ?ops"
      if "client_steps epoch_clients (view e1) t" "list_all (cmp_holds t) (rev_cond StatePath modRev # cs)" for t
      using assms(4) [OF client_steps_trans [OF s1 that(1)]] that(2) by (simp add: epoch_clients_def takeover_commit)
    note txn = etcd_txn_steps [OF E b ok]
    show ?thesis
    proof (cases "b = Inr True")
      case True
      then obtain e3 where sw: "SwitchToControllerMode E (k + 1) n e2 = (n', e3)" "out = ElLead (k + 1)" "e' = e3"
        using assms(3) claim b by (auto split: prod.splits)
      have "controller_of (view e2) = Some ?c" using txn(2) [OF _ _ True] takeover_commit by auto
      then show ?thesis
        using sw switch_steps(1) [OF E sw(1)] client_steps_trans [OF s1 txn(1)] client_steps_trans
        unfolding led_def by auto
    next
      case False
      then have "out = ElRetry" "e' = e2" using assms(3) claim b by (auto split: sum.splits bool.splits)
      then show ?thesis using client_steps_trans [OF s1 txn(1)] by simp
    qed
  qed
  then show "client_steps epoch_clients (view e) (view e')" "out = ElLead j \<Longrightarrow> led (view e) (view e') n j" by auto
qed

text \<open>The values the iteration reads from the controller key.\<close>

definition read_controller :: "etcd_kv option \<Rightarrow> int \<times> int \<times> int" where
  "read_controller kvo = (case kvo of None \<Rightarrow> (0, 0, 0)
     | Some kv \<Rightarrow> (case as_controller (kvValue kv) of None \<Rightarrow> (0, 0, 0)
         | Some st \<Rightarrow> (csLeaderId st, csLeaderEpoch st, kvModRevision kv)))"

lemma read_controller_epoch:
  assumes "store_ok s" and "read_controller (store_get StatePath s) = (c, k, r)"
  shows "epoch_read k r s" and "c \<noteq> 0 \<Longrightarrow> controller_of s = Some \<lparr>csLeaderId = c, csLeaderEpoch = k\<rparr>"
  using assms(2) store_ok_rev [OF assms(1), of StatePath]
  by (auto simp: read_controller_def epoch_read_def controller_of_def split: option.splits)

text \<open>The iteration after its first read, by what it finds.\<close>

lemma election_round_cases:
  assumes "eGet E StatePath e = (Inr kvo, e1)" and "read_controller kvo = (c, k, r)"
    and "election_round E n e = (out, n', e')"
  obtains (own) "c = nodeID n" "SwitchToControllerMode E k n e1 = (n', e')" "out = ElLead k"
  | (follow) e2 x where "c \<noteq> nodeID n" "c \<noteq> 0" "eGet E (nodeKey c) e1 = (x, e2)"
      "SwitchToFollowerMode E c k n e2 = (n', e')" "out = ElFollow"
  | (claim) e2 where "c \<noteq> nodeID n" "e2 = e1 \<or> (\<exists>x. eGet E (nodeKey c) e1 = (x, e2))"
      "claim_controller E n k r e2 = (out, n', e')"
proof (cases "c = nodeID n")
  case True
  then show thesis using assms own by (simp add: election_round_def read_controller_def split: prod.splits)
next
  case False
  show thesis
  proof (cases "c = 0")
    case True
    then show thesis using assms False claim [of e1] by (simp add: election_round_def read_controller_def)
  next
    case nz: False
    obtain x e2 where g: "eGet E (nodeKey c) e1 = (x, e2)" by (cases "eGet E (nodeKey c) e1")
    show thesis
    proof (cases "\<exists>kv. x = Inr (Some kv)")
      case True
      then obtain e3 where "SwitchToFollowerMode E c k n e2 = (n', e3)" "out = ElFollow" "e3 = e'"
        using assms False nz g by (auto simp: election_round_def read_controller_def split: prod.splits)
      then show thesis using follow [OF False nz g] by simp
    next
      case dead: False
      then have "claim_controller E n k r e2 = (out, n', e')"
        using assms False nz g
        by (cases x) (auto simp: election_round_def read_controller_def split: option.splits)
      then show thesis using claim [of e2] g False by blast
    qed
  qed
qed

lemma led_after: "client_steps epoch_clients s t \<Longrightarrow> led t u n k \<Longrightarrow> led s u n k"
  unfolding led_def using client_steps_trans by blast

lemma election_round_led:
  assumes E: "etcd_ok E view epoch_clients" and "store_ok (view e)" and "nodeID n \<noteq> 0"
    and "election_round E n e = (out, n', e')"
  shows "client_steps epoch_clients (view e) (view e')" and "out = ElLead j \<Longrightarrow> led (view e) (view e') n j"
proof -
  obtain g e1 where g: "eGet E StatePath e = (g, e1)" by (cases "eGet E StatePath e")
  have s1: "client_steps epoch_clients (view e) (view e1)" using etcd_get(1) [OF E g] .
  have ok1: "store_ok (view e1)" using client_steps_ok [OF s1 assms(2)] .
  have "client_steps epoch_clients (view e1) (view e') \<and> (out = ElLead j \<longrightarrow> led (view e1) (view e') n j)"
  proof (cases g)
    case (Inl x)
    then show ?thesis using assms(4) g by (auto simp: election_round_def intro: client_refl)
  next
    case (Inr kvo)
    obtain c k r where "read_controller kvo = (c, k, r)" by (metis prod_cases3)
    with Inr have read: "read_controller (store_get StatePath (view e1)) = (c, k, r)"
      using etcd_get(2) [OF E g] by simp
    from g [unfolded Inr] \<open>read_controller kvo = (c, k, r)\<close> assms(4) show ?thesis
    proof (cases rule: election_round_cases)
      case own
      have "client_steps epoch_clients (view e1) (view e')" using switch_steps(1) [OF E own(2)] .
      moreover have "controller_of (view e1) = Some \<lparr>csLeaderId = nodeID n, csLeaderEpoch = k\<rparr>"
        using read_controller_epoch(2) [OF ok1 read] own(1) assms(3) by simp
      ultimately show ?thesis using own(3) unfolding led_def by (auto intro: client_refl)
    next
      case (follow e2 x)
      have "client_steps epoch_clients (view e1) (view e2)" using etcd_get(1) [OF E follow(3)] .
      then show ?thesis using client_steps_trans switch_steps(2) [OF E follow(4)] follow(5) by blast
    next
      case (claim e2)
      have s2: "client_steps epoch_clients (view e1) (view e2)"
        using claim(2) etcd_get(1) [OF E] by (auto intro: client_refl)
      have "controller_epoch t = k"
        if "client_steps epoch_clients (view e2) t" "cmp_holds t (rev_cond StatePath r)" for t
        using epoch_at_commit [OF read_controller_epoch(1) [OF ok1 read] ok1 client_steps_trans [OF s2 that(1)] that(2)] .
      note led = claim_controller_led [OF E client_steps_ok [OF s2 ok1] claim(3) this]
      show ?thesis using client_steps_trans [OF s2 led(1)] led_after [OF s2 led(2)] by blast
    qed
  qed
  then show "client_steps epoch_clients (view e) (view e')" "out = ElLead j \<Longrightarrow> led (view e) (view e') n j"
    using client_steps_trans [OF s1] led_after [OF s1] by auto
qed

section \<open>Properties\<close>


text \<open>Node 1 is elected on an empty store and, restarted, finds itself the controller of epoch 1.\<close>

definition empty_store :: etcd_store where "empty_store = \<lparr>storeRev = 0, storeKvs = []\<rparr>"

definition fresh_coordinator :: "int \<Rightarrow> coordinator" where
  "fresh_coordinator i = (NewNodeCoordinator i (NewBroker i False) sample_addresses)\<lparr>leaseId := 7\<rparr>"

lemma nodeKey_puts:
  "store_get j (store_commit [OpPut StatePath v 0, OpPut (nodeKey i) w l] s) =
     (if j = nodeKey i then Some \<lparr>kvValue = w, kvModRevision = storeRev s + 1,
        kvVersion = next_version (store_get (nodeKey i) s), kvLease = l\<rparr>
      else if j = StatePath then Some \<lparr>kvValue = v, kvModRevision = storeRev s + 1,
        kvVersion = next_version (store_get StatePath s), kvLease = 0\<rparr>
      else store_get j s)"
  by (auto simp: store_get_def store_commit_def update_conv')

definition elected_store :: etcd_store where
  "elected_store = store_commit [OpPut StatePath (VController \<lparr>csLeaderId = 1, csLeaderEpoch = 1\<rparr>) 0,
     OpPut (nodeKey 1) (VNode (blank_node\<lparr>nsRole := Controller\<rparr>)) 7] empty_store"

lemma quiet_sim: "sim_turn P \<lparr>simStore = s, simScript = []\<rparr> = (SimAnswers, \<lparr>simStore = s, simScript = []\<rparr>)"
  by simp

lemma first_election:
  "\<exists>n'. election_round (sim_etcd P) (fresh_coordinator 1) \<lparr>simStore = empty_store, simScript = []\<rparr> =
     (ElLead 1, n', \<lparr>simStore = elected_store, simScript = []\<rparr>)"
  by (simp add: election_round_def claim_controller_def Let_def empty_store_def fresh_coordinator_def
      NewNodeCoordinator_def rev_cond_def store_txn_def SwitchToControllerMode_def publishOwnRole_def
      nodeKey_puts elected_store_def)

lemma second_election:
  "\<exists>n'. election_round (sim_etcd P) (fresh_coordinator 1) \<lparr>simStore = elected_store, simScript = []\<rparr> =
     (ElLead 1, n', \<lparr>simStore = elected_store, simScript = []\<rparr>)"
  by (simp add: election_round_def elected_store_def nodeKey_puts fresh_coordinator_def
      NewNodeCoordinator_def SwitchToControllerMode_def publishOwnRole_def Let_def)


section \<open>A session lost while it is being recovered\<close>

lemma quiet_publish:
  assumes "etcd_quiet E view" and "store_get (nodeKey (nodeID n)) (view e) = Some kv"
    and "as_node (kvValue kv) = Some st" and "nsRole st = role"
  shows "view (publishOwnRole E role n e) = view e"
proof -
  obtain e1 where "eGet E (nodeKey (nodeID n)) e = (Inr (Some kv), e1)" "view e1 = view e"
    using quiet_get [OF assms(1), of "nodeKey (nodeID n)" e] assms(2) by metis
  then show ?thesis using assms(3,4) by (simp add: publishOwnRole_def Let_def)
qed

lemma read_controller_of:
  "controller_of s = Some c \<Longrightarrow> \<exists>r. read_controller (store_get StatePath s) = (csLeaderId c, csLeaderEpoch c, r)"
  by (auto simp: controller_of_def read_controller_def split: option.splits)

lemma quiet_follow:
  assumes "etcd_quiet E view" and "controller_of (view e) = Some c" and "csLeaderId c \<noteq> nodeID m"
    and "csLeaderId c \<noteq> 0" and "store_get (nodeKey (csLeaderId c)) (view e) \<noteq> None"
  shows "fst (election_round E m e) = ElFollow"
proof -
  obtain e1 where e1: "eGet E StatePath e = (Inr (store_get StatePath (view e)), e1)" "view e1 = view e"
    using quiet_get [OF assms(1)] .
  obtain r where rd: "read_controller (store_get StatePath (view e)) = (csLeaderId c, csLeaderEpoch c, r)"
    using read_controller_of [OF assms(2)] ..
  obtain kv e2 where e2: "eGet E (nodeKey (csLeaderId c)) e1 = (Inr (Some kv), e2)"
    using quiet_get [OF assms(1), of "nodeKey (csLeaderId c)" e1] assms(5) e1(2) by fastforce
  show ?thesis using e1 rd e2 assms(3,4)
    by (simp add: election_round_def read_controller_def split: prod.splits)
qed

lemma quiet_takeover:
  assumes q: "etcd_quiet E view" and "store_ok (view e)" and "store_get (nodeKey (nodeID n)) (view e) = None"
    and "cmp_holds (view e) (rev_cond StatePath r)"
  obtains n' e' where "claim_controller E n k r e = (ElLead (k + 1), n', e')"
    and "view e' = store_commit [OpPut StatePath (VController \<lparr>csLeaderId = nodeID n, csLeaderEpoch = k + 1\<rparr>) 0,
        OpPut (nodeKey (nodeID n)) (VNode (blank_node\<lparr>nsRole := Controller\<rparr>)) (leaseId n)] (view e)"
proof -
  let ?key = "nodeKey (nodeID n)"
  let ?ops = "[OpPut StatePath (VController \<lparr>csLeaderId = nodeID n, csLeaderEpoch = k + 1\<rparr>) 0,
        OpPut ?key (VNode (blank_node\<lparr>nsRole := Controller\<rparr>)) (leaseId n)]"
  obtain e1 where e1: "eGet E ?key e = (Inr None, e1)" "view e1 = view e"
    using quiet_get [OF q, of ?key e] assms(3) by metis
  obtain b e2 where e2: "eTxn E [rev_cond StatePath r, VersionZero ?key] ?ops e1 = (Inr b, e2)"
    "store_txn [rev_cond StatePath r, VersionZero ?key] ?ops (view e1) = (b, view e2)"
    using quiet_txn [OF q] .
  have t: "b = True" "view e2 = store_commit ?ops (view e)"
    using e2(2) e1(2) assms(3,4) by (auto simp: store_txn_def split: if_splits)
  obtain n' e3 where sw: "SwitchToControllerMode E (k + 1) n e2 = (n', e3)" by (metis prod.exhaust)
  have "view e3 = view e2"
    using sw quiet_publish [OF q, of "n\<lparr>cbroker := SetEpoch (of_int (k + 1)) (ToController (cbroker n)), coLeader := nodeID n\<rparr>" e2]
      t(2) by (auto simp: SwitchToControllerMode_def Let_def nodeKey_puts)
  moreover have "claim_controller E n k r e = (ElLead (k + 1), n', e3)"
    using e1(1) e2(1) t(1) sw by (simp add: claim_controller_def Let_def rev_cond_def)
  ultimately show thesis using that t(2) by simp
qed

text \<open>C27. A session lost during its own recovery goes unnoticed, and can leave the cluster with a dead
  controller for ever. While the recovery loop restores data after registering again, the loss of the
  new session only resets the lease: \<open>handleSessionLoss\<close> returns because recovery is running. The
  recovery then ends normally, and the node enters the election without a registration. If the
  controller is dead it wins, and writes its node key with no lease and no address. A key without a
  lease is never removed by etcd, so from then on every other node finds the controller alive, even
  when this node is gone.\<close>

theorem session_lost_during_recovery:
  assumes "etcd_quiet E view" and "store_ok (view e)" and "paused n" and "nodeID n \<noteq> 0"
    and "recoveryRegister (Some lease) True n = (registered, n1)"
    and "keepAliveLost n1 = (restarted, n2)"
    and "recoveryFinish True n2 = (finished, n3)"
    and "controller_of (view e) = Some c" and "csLeaderId c \<noteq> nodeID n"
    and "store_get (nodeKey (csLeaderId c)) (view e) = None" and "store_get (nodeKey (nodeID n)) (view e) = None"
  shows "\<not> restarted \<and> finished \<and> \<not> paused n3 \<and> electionOn n3 \<and>
    (\<exists>n4 e' kv. election_round E n3 e = (ElLead (csLeaderEpoch c + 1), n4, e') \<and>
       store_get (nodeKey (nodeID n)) (view e') = Some kv \<and> kvLease kv = 0 \<and>
       as_node (kvValue kv) = Some (blank_node\<lparr>nsRole := Controller\<rparr>) \<and>
       (\<forall>m. nodeID m = nodeID n \<or> fst (election_round E m e') = ElFollow))"
proof -
  have n3: "nodeID n3 = nodeID n" "leaseId n3 = 0" "\<not> restarted" "finished" "\<not> paused n3" "electionOn n3"
    using assms(3,5,6,7)
    by (auto simp: recoveryRegister_def keepAliveLost_def recoveryFinish_def handleSessionLoss_def)
  obtain e1 where e1: "eGet E StatePath e = (Inr (store_get StatePath (view e)), e1)" "view e1 = view e"
    using quiet_get [OF assms(1)] .
  obtain r where rd: "read_controller (store_get StatePath (view e)) = (csLeaderId c, csLeaderEpoch c, r)"
    using read_controller_of [OF assms(8)] ..
  obtain e2 where e2: "eGet E (nodeKey (csLeaderId c)) e1 = (Inr None, e2)" "view e2 = view e"
    using quiet_get [OF assms(1), of "nodeKey (csLeaderId c)" e1] assms(10) e1(2) by metis
  let ?e = "if csLeaderId c = 0 then e1 else e2"
  have v: "view ?e = view e" using e1 e2 by simp
  have cmp: "cmp_holds (view ?e) (rev_cond StatePath r)"
    using rd store_ok_rev [OF assms(2), of StatePath] assms(8)
    unfolding v by (auto simp: rev_cond_def read_controller_def controller_of_def split: option.splits)
  obtain n4 e' where t: "claim_controller E n3 (csLeaderEpoch c) r ?e = (ElLead (csLeaderEpoch c + 1), n4, e')"
    "view e' = store_commit [OpPut StatePath (VController \<lparr>csLeaderId = nodeID n, csLeaderEpoch = csLeaderEpoch c + 1\<rparr>) 0,
        OpPut (nodeKey (nodeID n)) (VNode (blank_node\<lparr>nsRole := Controller\<rparr>)) 0] (view e)"
    using quiet_takeover [OF assms(1), of ?e n3 r "csLeaderEpoch c"] assms(2,11) cmp unfolding v n3(1,2) by metis
  have round: "election_round E n3 e = (ElLead (csLeaderEpoch c + 1), n4, e')"
    using e1(1) rd e2(1) t(1) assms(9) n3(1)
    by (auto simp: election_round_def read_controller_def split: if_splits)
  have own: "controller_of (view e') = Some \<lparr>csLeaderId = nodeID n, csLeaderEpoch = csLeaderEpoch c + 1\<rparr>"
    unfolding t(2) by (simp add: takeover_commit)
  have "fst (election_round E m e') = ElFollow" if "nodeID m \<noteq> nodeID n" for m
    by (rule quiet_follow [OF assms(1) own]) (use that assms(4) in \<open>auto simp: t(2) nodeKey_puts\<close>)
  then show ?thesis using n3 round by (auto simp: t(2) nodeKey_puts)
qed

text \<open>Node 2 recovers while the controller, node 1, is gone.\<close>

definition headless_store :: etcd_store where
  "headless_store = store_commit [OpPut StatePath (VController \<lparr>csLeaderId = 1, csLeaderEpoch = 1\<rparr>) 0] empty_store"

theorem session_lost_during_recovery_witness:
  "\<exists>n1 n2 n3 n4 s' kv.
     recoveryRegister (Some 8) True ((fresh_coordinator 2)\<lparr>paused := True\<rparr>) = (True, n1) \<and>
     keepAliveLost n1 = (False, n2) \<and> recoveryFinish True n2 = (True, n3) \<and>
     election_round calm_etcd n3 headless_store = (ElLead 2, n4, s') \<and>
     store_get (nodeKey 2) s' = Some kv \<and> kvLease kv = 0"
proof -
  let ?n = "(fresh_coordinator 2)\<lparr>paused := True\<rparr>"
  obtain n1 where r1: "recoveryRegister (Some 8) True ?n = (True, n1)" by (simp add: recoveryRegister_def)
  obtain x n2 where r2: "keepAliveLost n1 = (x, n2)" by (cases "keepAliveLost n1")
  obtain y n3 where r3: "recoveryFinish True n2 = (y, n3)" by (cases "recoveryFinish True n2")
  have ok: "store_ok headless_store"
    unfolding headless_store_def by (rule store_commit_ok) (simp add: empty_store_def store_ok_def revs_below_def)
  have c: "controller_of headless_store = Some \<lparr>csLeaderId = 1, csLeaderEpoch = 1\<rparr>"
    by (simp add: controller_of_def headless_store_def)
  have nid: "nodeID ?n = 2" by (simp add: fresh_coordinator_def NewNodeCoordinator_def)
  have gone: "store_get (nodeKey i) headless_store = None" for i
    by (simp add: headless_store_def empty_store_def)
  show ?thesis
    using session_lost_during_recovery [OF calm_etcd_quiet ok _ _ r1 r2 r3 c] gone nid r1 r2 r3
    by simp blast
qed

end
