(* ===== verification/ClusterView.thy ===== *)
theory ClusterView
  imports Rebalance Election
begin

text \<open>
  The control-plane reads of a node, \<open>server/cluster/cluster_view.go\<close> and \<open>utils.go\<close>: one transaction
  reads nodes, controller and topics at one revision, a short cache in front of it, and the answers
  built from the snapshot. Times are nanoseconds; the clock is read once for the age of the cache and
  once for the time of the fetch.
\<close>

section \<open>The snapshot\<close>

record clusterView =
  vNodes :: "(int, NodeState) gomap"
  vController :: "NodeState option"
  vEpoch :: int
  vTopics :: "TopicParams list"

definition view_node :: "clusterView \<Rightarrow> int \<Rightarrow> NodeState option" where
  "view_node v i = map_of (vNodes v) i"

definition view_topic :: "string \<times> etcd_kv \<Rightarrow> TopicParams option" where
  "view_topic x = (case as_topic (kvValue (snd x)) of
      None \<Rightarrow> None
    | Some params \<Rightarrow> Some (if tpName params = [] then params\<lparr>tpName := drop (length TopicPath) (fst x)\<rparr> else params))"

definition buildClusterView ::
  "(string \<times> etcd_kv) list \<Rightarrow> (string \<times> etcd_kv) list \<Rightarrow> (string \<times> etcd_kv) list \<Rightarrow> clusterView" where
  "buildClusterView nodeKvs stateKvs topicKvs =
     (let nodes = node_snapshot nodeKvs;
          st = (case stateKvs of [] \<Rightarrow> None | x # _ \<Rightarrow> as_controller (kvValue (snd x)))
      in \<lparr>vNodes = nodes,
          vController = (case st of None \<Rightarrow> None
             | Some c \<Rightarrow> if csLeaderId c = 0 then None else map_of nodes (csLeaderId c)),
          vEpoch = (case st of None \<Rightarrow> 0 | Some c \<Rightarrow> csLeaderEpoch c),
          vTopics = sort_key tpName (List.map_filter view_topic topicKvs)\<rparr>)"

definition fetchClusterView :: "'e etcd \<Rightarrow> 'e \<Rightarrow> (cluster_error + clusterView) \<times> 'e" where
  "fetchClusterView E e =
     (case eRanges E [RangePrefix NodesDiscoveryPath, RangeKey StatePath, RangePrefix TopicPath] e of
        (Inl x, e1) \<Rightarrow> (Inl x, e1)
      | (Inr [nodeKvs, stateKvs, topicKvs], e1) \<Rightarrow> (Inr (buildClusterView nodeKvs stateKvs topicKvs), e1)
      | (Inr other, e1) \<Rightarrow> (Inl EEtcd, e1))"

record view_cache =
  vcView :: "clusterView option"
  vcFetchedAt :: int

definition clusterViewTTL :: int where "clusterViewTTL = 300000000"

definition readClusterView ::
  "'e etcd \<Rightarrow> int \<times> int \<Rightarrow> int \<Rightarrow> view_cache \<Rightarrow> 'e \<Rightarrow> (cluster_error + clusterView) \<times> view_cache \<times> 'e" where
  "readClusterView E clock maxAge vc e =
     (case (if 0 < maxAge \<and> fst clock - vcFetchedAt vc < maxAge then vcView vc else None) of
        Some v \<Rightarrow> (Inr v, vc, e)
      | None \<Rightarrow>
          (case fetchClusterView E e of
             (Inl x, e1) \<Rightarrow> (Inl x, vc, e1)
           | (Inr v, e1) \<Rightarrow> (Inr v, \<lparr>vcView = Some v, vcFetchedAt = snd clock\<rparr>, e1)))"

definition invalidateClusterView :: "view_cache \<Rightarrow> view_cache" where
  "invalidateClusterView vc = \<lparr>vcView = None, vcFetchedAt = 0\<rparr>"

definition ensureMember :: "clusterView \<Rightarrow> int \<Rightarrow> cluster_error option" where
  "ensureMember v i = (if view_node v i = None then Some (ENodeEvicted i) else None)"

definition readMemberView ::
  "'e etcd \<Rightarrow> int \<times> int \<Rightarrow> coordinator \<Rightarrow> int \<Rightarrow> view_cache \<Rightarrow> 'e \<Rightarrow> (cluster_error + clusterView) \<times> view_cache \<times> 'e" where
  "readMemberView E clock n maxAge vc e =
     (case readClusterView E clock maxAge vc e of
        (Inl x, r) \<Rightarrow> (Inl x, r)
      | (Inr v, r) \<Rightarrow> (case ensureMember v (nodeID n) of Some x \<Rightarrow> (Inl x, r) | None \<Rightarrow> (Inr v, r)))"

section \<open>The answers\<close>

record ClusterNode =
  cnID :: int
  cnRole :: ClusterRole
  cnIsController :: bool
  cnTCPAddress :: string
  cnHTTPAddress :: string
  cnControlAddress :: string
  cnReplicationAddress :: string
  cnStartTime :: string

record ClusterReplica =
  crNodeID :: int
  crInSync :: bool
  crAlive :: bool

record ClusterPartition =
  cpPartition :: int
  cpLeaderNodeID :: int
  cpLeaderTCPAddress :: string
  cpLeaderHTTPAddress :: string
  cpLeaderAlive :: bool
  cpReplicas :: "ClusterReplica list"

record ClusterTopic =
  ctName :: string
  ctReplicationFactor :: int
  ctPartitions :: "ClusterPartition list"

record ClusterSnapshot =
  csNodes :: "ClusterNode list"
  csController :: "ClusterNode option"
  csServedBy :: int

record ClusterOverview =
  coNodes :: "ClusterNode list"
  coController :: "ClusterNode option"
  coControllerEpoch :: int
  coTopics :: "ClusterTopic list"
  coServedBy :: int

text \<open>\<open>Reason\<close>: empty, the text about etcd with its error, or the text about the expired lease.\<close>

datatype readiness_reason = NoReason | EtcdUnreachable cluster_error | NotRegistered

record NodeReadiness =
  nrNodeID :: int
  nrReady :: bool
  nrInCluster :: bool
  nrIsController :: bool
  nrClusterSize :: nat
  nrControllerID :: int
  nrReason :: readiness_reason

definition mapClusterNode :: "NodeState \<Rightarrow> int \<Rightarrow> ClusterNode" where
  "mapClusterNode st controller =
     \<lparr>cnID = nsID st, cnRole = nsRole st, cnIsController = (controller \<noteq> 0 \<and> nsID st = controller),
      cnTCPAddress = nsTcpAddress st, cnHTTPAddress = nsHttpAddress st, cnControlAddress = nsControlAddress st,
      cnReplicationAddress = nsAddress st, cnStartTime = nsStartTime st\<rparr>"

definition controllerID :: "clusterView \<Rightarrow> int" where
  "controllerID v = (case vController v of None \<Rightarrow> 0 | Some c \<Rightarrow> nsID c)"

definition mapClusterNodes :: "clusterView \<Rightarrow> ClusterNode list" where
  "mapClusterNodes v = sort_key cnID (map (\<lambda>(i, st). mapClusterNode st (controllerID v)) (vNodes v))"

definition mapClusterController :: "clusterView \<Rightarrow> ClusterNode option" where
  "mapClusterController v = map_option (\<lambda>c. mapClusterNode c (nsID c)) (vController v)"

definition mapClusterSnapshot :: "clusterView \<Rightarrow> int \<Rightarrow> ClusterSnapshot" where
  "mapClusterSnapshot v servedBy =
     \<lparr>csNodes = mapClusterNodes v, csController = mapClusterController v, csServedBy = servedBy\<rparr>"

definition mapClusterPartition :: "clusterView \<Rightarrow> PartitionsParams \<Rightarrow> ClusterPartition" where
  "mapClusterPartition v part =
     (let leader = view_node v (LeaderNodeId part)
      in \<lparr>cpPartition = PartitionId part, cpLeaderNodeID = LeaderNodeId part,
          cpLeaderTCPAddress = (case leader of None \<Rightarrow> [] | Some st \<Rightarrow> nsTcpAddress st),
          cpLeaderHTTPAddress = (case leader of None \<Rightarrow> [] | Some st \<Rightarrow> nsHttpAddress st),
          cpLeaderAlive = (leader \<noteq> None),
          cpReplicas = map (\<lambda>i. \<lparr>crNodeID = i, crInSync = IsInSync part i, crAlive = (view_node v i \<noteq> None)\<rparr>)
             (ReplicasNodeId part)\<rparr>)"

definition mapClusterTopic :: "clusterView \<Rightarrow> TopicParams \<Rightarrow> ClusterTopic" where
  "mapClusterTopic v params =
     \<lparr>ctName = tpName params, ctReplicationFactor = DesiredReplicationFactor params,
      ctPartitions = sort_key cpPartition (map (mapClusterPartition v) (Partitions params))\<rparr>"

definition mapClusterTopics :: "clusterView \<Rightarrow> ClusterTopic list" where
  "mapClusterTopics v = map (mapClusterTopic v) (vTopics v)"

definition mapClusterOverview :: "clusterView \<Rightarrow> int \<Rightarrow> ClusterOverview" where
  "mapClusterOverview v servedBy =
     \<lparr>coNodes = mapClusterNodes v, coController = mapClusterController v, coControllerEpoch = vEpoch v,
      coTopics = mapClusterTopics v, coServedBy = servedBy\<rparr>"

definition buildNodeReadiness :: "clusterView \<Rightarrow> int \<Rightarrow> NodeReadiness" where
  "buildNodeReadiness v i =
     \<lparr>nrNodeID = i, nrReady = (view_node v i \<noteq> None), nrInCluster = (view_node v i \<noteq> None),
      nrIsController = (controllerID v = i \<and> controllerID v \<noteq> 0), nrClusterSize = length (vNodes v),
      nrControllerID = controllerID v, nrReason = (if view_node v i = None then NotRegistered else NoReason)\<rparr>"

section \<open>The reads\<close>

definition GetClusterOverview ::
  "'e etcd \<Rightarrow> int \<times> int \<Rightarrow> coordinator \<Rightarrow> view_cache \<Rightarrow> 'e \<Rightarrow> (cluster_error + ClusterOverview) \<times> view_cache \<times> 'e" where
  "GetClusterOverview E clock n vc e =
     (case readMemberView E clock n clusterViewTTL vc e of
        (Inl x, r) \<Rightarrow> (Inl x, r) | (Inr v, r) \<Rightarrow> (Inr (mapClusterOverview v (nodeID n)), r))"

definition GetClusterNodeList ::
  "'e etcd \<Rightarrow> int \<times> int \<Rightarrow> coordinator \<Rightarrow> view_cache \<Rightarrow> 'e \<Rightarrow> (cluster_error + ClusterSnapshot) \<times> view_cache \<times> 'e" where
  "GetClusterNodeList E clock n vc e =
     (case readMemberView E clock n clusterViewTTL vc e of
        (Inl x, r) \<Rightarrow> (Inl x, r) | (Inr v, r) \<Rightarrow> (Inr (mapClusterSnapshot v (nodeID n)), r))"

definition GetClusterTopicsList ::
  "'e etcd \<Rightarrow> int \<times> int \<Rightarrow> coordinator \<Rightarrow> view_cache \<Rightarrow> 'e \<Rightarrow> (cluster_error + ClusterTopic list) \<times> view_cache \<times> 'e" where
  "GetClusterTopicsList E clock n vc e =
     (case readMemberView E clock n clusterViewTTL vc e of
        (Inl x, r) \<Rightarrow> (Inl x, r) | (Inr v, r) \<Rightarrow> (Inr (mapClusterTopics v), r))"

definition GetClusterTopic ::
  "'e etcd \<Rightarrow> int \<times> int \<Rightarrow> coordinator \<Rightarrow> string \<Rightarrow> view_cache \<Rightarrow> 'e
   \<Rightarrow> (cluster_error + ClusterTopic option) \<times> view_cache \<times> 'e" where
  "GetClusterTopic E clock n name vc e =
     (case readMemberView E clock n clusterViewTTL vc e of
        (Inl x, r) \<Rightarrow> (Inl x, r)
      | (Inr v, r) \<Rightarrow> (Inr (map_option (mapClusterTopic v) (List.find (\<lambda>t. tpName t = name) (vTopics v))), r))"

definition FindControllerAddress ::
  "'e etcd \<Rightarrow> int \<times> int \<Rightarrow> view_cache \<Rightarrow> 'e \<Rightarrow> (cluster_error + string) \<times> view_cache \<times> 'e" where
  "FindControllerAddress E clock vc e =
     (case readClusterView E clock clusterViewTTL vc e of
        (Inl x, r) \<Rightarrow> (Inl x, r)
      | (Inr v, r) \<Rightarrow> (Inr (case vController v of None \<Rightarrow> [] | Some c \<Rightarrow> nsControlAddress c), r))"

definition GetNodeReadiness ::
  "'e etcd \<Rightarrow> int \<times> int \<Rightarrow> coordinator \<Rightarrow> view_cache \<Rightarrow> 'e \<Rightarrow> NodeReadiness \<times> view_cache \<times> 'e" where
  "GetNodeReadiness E clock n vc e =
     (case readClusterView E clock clusterViewTTL vc e of
        (Inl x, r) \<Rightarrow> (\<lparr>nrNodeID = nodeID n, nrReady = False, nrInCluster = False, nrIsController = False,
           nrClusterSize = 0, nrControllerID = 0, nrReason = EtcdUnreachable x\<rparr>, r)
      | (Inr v, r) \<Rightarrow> (buildNodeReadiness v (nodeID n), r))"

record ReplicaInfo =
  riNodeID :: int
  riAddress :: string
  riInSync :: bool

record PartitionInfo =
  piPartitionID :: int
  piLeaderNodeID :: int
  piLeaderAddress :: string
  piReplicas :: "ReplicaInfo list"

record DescribeTopicResponse =
  dtFound :: bool
  dtError :: "cluster_error option"
  dtTopicName :: string
  dtPartitions :: "PartitionInfo list"

definition tcp_address :: "clusterView \<Rightarrow> int \<Rightarrow> string" where
  "tcp_address v i = (case view_node v i of None \<Rightarrow> [] | Some st \<Rightarrow> nsTcpAddress st)"

definition DescribeTopic ::
  "'e etcd \<Rightarrow> int \<times> int \<Rightarrow> string \<Rightarrow> view_cache \<Rightarrow> 'e
   \<Rightarrow> (cluster_error + DescribeTopicResponse) \<times> view_cache \<times> 'e" where
  "DescribeTopic E clock name vc e =
     (case readClusterView E clock clusterViewTTL vc e of
        (Inl x, r) \<Rightarrow> (Inl x, r)
      | (Inr v, r) \<Rightarrow>
          (case List.find (\<lambda>t. tpName t = name) (vTopics v) of
             None \<Rightarrow> (Inr \<lparr>dtFound = False, dtError = Some EMetaTopicNotFound, dtTopicName = name, dtPartitions = []\<rparr>, r)
           | Some params \<Rightarrow>
               (Inr \<lparr>dtFound = True, dtError = None, dtTopicName = tpName params,
                     dtPartitions = map (\<lambda>p. \<lparr>piPartitionID = PartitionId p, piLeaderNodeID = LeaderNodeId p,
                        piLeaderAddress = tcp_address v (LeaderNodeId p),
                        piReplicas = map (\<lambda>i. \<lparr>riNodeID = i, riAddress = tcp_address v i, riInSync = IsInSync p i\<rparr>)
                          (ReplicasNodeId p)\<rparr>) (Partitions params)\<rparr>, r)))"

section \<open>The snapshot is one state of the store\<close>

text \<open>Node keys are named by the id of the node they hold (or hold the blank node of an election).\<close>

definition nodes_ok :: "etcd_store \<Rightarrow> bool" where
  "nodes_ok s \<longleftrightarrow> (\<forall>k kv. has_prefix NodesDiscoveryPath k \<and> store_get k s = Some kv \<longrightarrow>
     (\<exists>i st. k = nodeKey i \<and> - (2 ^ 63) \<le> i \<and> i < 2 ^ 63 \<and> kvValue kv = VNode st \<and> (nsID st = i \<or> nsID st = 0)))"

definition node_at :: "etcd_store \<Rightarrow> int \<Rightarrow> NodeState option" where
  "node_at s i = (case store_get (nodeKey i) s of None \<Rightarrow> None
     | Some kv \<Rightarrow> map_option (\<lambda>st. st\<lparr>nsID := i\<rparr>) (as_node (kvValue kv)))"

lemma digit_no_sign: "is_digit c \<Longrightarrow> c \<noteq> CHR ''-'' \<and> c \<noteq> CHR ''+''"
  by (auto simp: is_digit_def)

lemma ParseInt_fmt_int: "- (2 ^ 63) \<le> i \<Longrightarrow> i < 2 ^ 63 \<Longrightarrow> ParseInt (fmt_int i) = Some i"
proof -
  assume b: "- (2 ^ 63) \<le> i" "i < 2 ^ 63"
  have d: "list_all is_digit (dec n)" for n using dec_digits [of n] by (simp add: list_all_iff)
  have h: "hd (dec n) \<noteq> CHR ''-'' \<and> hd (dec n) \<noteq> CHR ''+''" for n
    using dec_digits [of n] digit_no_sign hd_in_set [OF dec_not_Nil [of n]] by blast
  show ?thesis
  proof (cases "i < 0")
    case True
    then show ?thesis using b d by (simp add: ParseInt_def fmt_int_def Let_def)
  next
    case False
    then show ?thesis using b d h by (simp add: ParseInt_def fmt_int_def Let_def)
  qed
qed

lemma nodeKey_prefix [simp]: "has_prefix NodesDiscoveryPath (nodeKey i)" "drop (length NodesDiscoveryPath) (nodeKey i) = fmt_int i"
  by (simp_all add: has_prefix_def nodeKey_def)

lemma node_snapshot_lookup:
  assumes "distinct (map fst kvs)"
    and "\<And>k kv. (k, kv) \<in> set kvs \<Longrightarrow> \<exists>i st. k = nodeKey i \<and> decodeNodeState k (kvValue kv) = Some (st\<lparr>nsID := i\<rparr>) \<and> as_node (kvValue kv) = Some st"
  shows "map_of (node_snapshot kvs) i =
      (case map_of kvs (nodeKey i) of None \<Rightarrow> None | Some kv \<Rightarrow> map_option (\<lambda>st. st\<lparr>nsID := i\<rparr>) (as_node (kvValue kv)))
    \<and> keyed (node_snapshot kvs)"
  using assms
proof (induction kvs rule: rev_induct)
  case Nil
  show ?case by (simp add: node_snapshot_def keyed_def)
next
  case (snoc x kvs)
  obtain k kv where x: "x = (k, kv)" by (cases x)
  obtain j st where st: "k = nodeKey j" "decodeNodeState k (kvValue kv) = Some (st\<lparr>nsID := j\<rparr>)" "as_node (kvValue kv) = Some st"
    using snoc.prems(2) [of k kv] x by auto
  have ih: "map_of (node_snapshot kvs) i =
      (case map_of kvs (nodeKey i) of None \<Rightarrow> None | Some kv \<Rightarrow> map_option (\<lambda>st. st\<lparr>nsID := i\<rparr>) (as_node (kvValue kv)))"
    "keyed (node_snapshot kvs)"
    using snoc.IH snoc.prems by auto
  have step: "node_snapshot (kvs @ [x]) = AList.update j (st\<lparr>nsID := j\<rparr>) (node_snapshot kvs)"
    using st(2) by (simp add: node_snapshot_def x)
  have new: "map_of kvs (nodeKey j) = None" using snoc.prems(1) x st(1) by (simp add: map_of_eq_None_iff)
  have look: "map_of (node_snapshot (kvs @ [x])) i =
      (case map_of (kvs @ [x]) (nodeKey i) of None \<Rightarrow> None | Some kv \<Rightarrow> map_option (\<lambda>st. st\<lparr>nsID := i\<rparr>) (as_node (kvValue kv)))"
    unfolding step using ih(1) st new x by (auto simp: update_conv' map_add_def split: option.splits)
  have d: "distinct (map fst (node_snapshot (kvs @ [x])))"
    unfolding step by (rule distinct_update) (use ih(2) in \<open>simp add: keyed_def\<close>)
  have "nsID y = l" if "(l, y) \<in> set (node_snapshot (kvs @ [x]))" for l y
  proof -
    have "map_of (node_snapshot (kvs @ [x])) l = Some y" using that d by simp
    then have "(l = j \<and> y = st\<lparr>nsID := j\<rparr>) \<or> map_of (node_snapshot kvs) l = Some y"
      by (auto simp: step update_conv' split: if_splits)
    then show ?thesis using ih(2) by (auto simp: keyed_def dest: map_of_SomeD)
  qed
  then have "keyed (node_snapshot (kvs @ [x]))" using d by (auto simp: keyed_def)
  with look show ?case by blast
qed

lemma list_all2_three:
  "list_all2 R [a, b, c] xs \<longleftrightarrow> (\<exists>x y z. xs = [x, y, z] \<and> R a x \<and> R b y \<and> R c z)"
  by (auto simp: list_all2_Cons1)

lemma range_key:
  assumes "range_result s (RangeKey k) xs"
  shows "xs = (case store_get k s of None \<Rightarrow> [] | Some kv \<Rightarrow> [(k, kv)])"
proof (cases "store_get k s")
  case None
  then have "(j, x) \<notin> set xs" for j x using assms unfolding range_result_def by simp
  then have "xs = []" by (metis last_in_set surj_pair)
  then show ?thesis using None by simp
next
  case (Some kv)
  have law: "(j, x) \<in> set xs \<longleftrightarrow> j = k \<and> store_get j s = Some x" "distinct (map fst xs)" for j x
    using assms unfolding range_result_def by auto
  have "(k, kv) \<in> set xs" "fst ` set xs \<subseteq> {k}" "distinct (map fst xs)"
    using law Some by auto
  then have "length xs \<le> 1"
    using distinct_card [of "map fst xs"] card_mono [of "{k}" "fst ` set xs"] by simp
  with \<open>(k, kv) \<in> set xs\<close> have "xs = [(k, kv)]" by (cases xs) auto
  then show ?thesis using Some by simp
qed

text \<open>What a fetched snapshot says about the state of the store it was read from.\<close>

definition view_of :: "etcd_store \<Rightarrow> clusterView \<Rightarrow> bool" where
  "view_of s v \<longleftrightarrow> keyed (vNodes v) \<and> (\<forall>i. view_node v i = node_at s i) \<and>
     vController v = (case controller_of s of None \<Rightarrow> None | Some c \<Rightarrow>
        if csLeaderId c = 0 then None else node_at s (csLeaderId c)) \<and>
     vEpoch v = controller_epoch s \<and> sorted (map tpName (vTopics v)) \<and> distinct (map tpName (vTopics v)) \<and>
     (\<forall>t. t \<in> set (vTopics v) \<longleftrightarrow> stored_topic (tpName t) s = Some t)"

lemma node_kvs_decode:
  assumes "nodes_ok s" and "(k, kv) \<in> set xs" and "range_result s (RangePrefix NodesDiscoveryPath) xs"
  shows "\<exists>i st. k = nodeKey i \<and> decodeNodeState k (kvValue kv) = Some (st\<lparr>nsID := i\<rparr>) \<and> as_node (kvValue kv) = Some st"
proof -
  have "has_prefix NodesDiscoveryPath k" "store_get k s = Some kv" using assms(2,3) by (auto simp: range_result_def)
  then obtain i st where st: "k = nodeKey i" "- (2 ^ 63) \<le> i" "i < 2 ^ 63" "kvValue kv = VNode st" "nsID st = i \<or> nsID st = 0"
    using assms(1) unfolding nodes_ok_def by blast
  have "decodeNodeState k (kvValue kv) = Some (st\<lparr>nsID := i\<rparr>)"
    using st(5) ParseInt_fmt_int [OF st(2,3)] by (auto simp: decodeNodeState_def st(1,4))
  then show ?thesis using st by auto
qed

lemma in_map_filter: "x \<in> set xs \<Longrightarrow> f x = Some y \<Longrightarrow> y \<in> set (List.map_filter f xs)"
  by (induction xs) (auto simp: List.map_filter_simps split: option.splits)

lemma view_topics_of:
  assumes "topics_ok s" and "range_result s (RangePrefix TopicPath) xs"
  shows "set (List.map_filter view_topic xs) = {t. stored_topic (tpName t) s = Some t}"
    and "distinct (map tpName (List.map_filter view_topic xs))"
proof -
  have law: "(k, kv) \<in> set xs \<longleftrightarrow> (\<exists>name. k = topicKey name) \<and> store_get k s = Some kv" "distinct (map fst xs)" for k kv
    using assms(2) by (auto simp: range_result_def has_prefix_topic)
  have dec: "\<exists>t. view_topic (k, kv) = Some t \<and> kvValue kv = VTopic t \<and> k = topicKey (tpName t)" if m: "(k, kv) \<in> set xs" for k kv
  proof -
    obtain name where n: "k = topicKey name" "store_get (topicKey name) s = Some kv" using m law by auto
    then obtain t where "kvValue kv = VTopic t" "tpName t = name" using topics_ok_get [OF assms(1)] by blast
    then show ?thesis using n(1) by (simp add: view_topic_def topicKey_def)
  qed
  have names: "set ys \<subseteq> set xs \<Longrightarrow> map (topicKey \<circ> tpName) (List.map_filter view_topic ys) = map fst ys" for ys
    by (induction ys) (use dec in \<open>fastforce simp: List.map_filter_simps\<close>)+
  have "distinct (map (topicKey \<circ> tpName) (List.map_filter view_topic xs))" using names [OF subset_refl] law(2) by simp
  then show "distinct (map tpName (List.map_filter view_topic xs))"
    by (metis (no_types, lifting) distinct_map map_map)
  have "t \<in> set (List.map_filter view_topic xs) \<longleftrightarrow> stored_topic (tpName t) s = Some t" for t
  proof
    assume "t \<in> set (List.map_filter view_topic xs)"
    then obtain k kv where "(k, kv) \<in> set xs" "view_topic (k, kv) = Some t" by (auto simp: List.map_filter_def)
    then show "stored_topic (tpName t) s = Some t" using dec [of k kv] law(1) [of k kv] by (auto simp: stored_topic_def)
  next
    assume "stored_topic (tpName t) s = Some t"
    then obtain kv where kv: "store_get (topicKey (tpName t)) s = Some kv" "as_topic (kvValue kv) = Some t"
      by (auto simp: stored_topic_def split: option.splits)
    have m: "(topicKey (tpName t), kv) \<in> set xs" unfolding law(1) using kv(1) by simp
    obtain t0 where "view_topic (topicKey (tpName t), kv) = Some t0" "kvValue kv = VTopic t0" using dec [OF m] by blast
    then have "view_topic (topicKey (tpName t), kv) = Some t" using kv(2) by simp
    then show "t \<in> set (List.map_filter view_topic xs)" by (rule in_map_filter [OF m])
  qed
  then show "set (List.map_filter view_topic xs) = {t. stored_topic (tpName t) s = Some t}" by blast
qed

lemma node_snapshot_of:
  assumes "nodes_ok s" and "range_result s (RangePrefix NodesDiscoveryPath) xs"
  shows "map_of (node_snapshot xs) i = node_at s i" and "keyed (node_snapshot xs)"
proof -
  have law: "(k, kv) \<in> set xs \<longleftrightarrow> has_prefix NodesDiscoveryPath k \<and> store_get k s = Some kv" "distinct (map fst xs)" for k kv
    using assms(2) by (auto simp: range_result_def)
  have "map_of xs (nodeKey i) = store_get (nodeKey i) s"
  proof (cases "store_get (nodeKey i) s")
    case None
    then have "nodeKey i \<notin> fst ` set xs" using law(1) by auto
    then show ?thesis using None by (simp add: map_of_eq_None_iff)
  next
    case (Some kv)
    then have "(nodeKey i, kv) \<in> set xs" using law(1) by simp
    then show ?thesis using Some law(2) by simp
  qed
  then show "map_of (node_snapshot xs) i = node_at s i" "keyed (node_snapshot xs)"
    using node_snapshot_lookup [OF law(2) node_kvs_decode [OF assms(1) _ assms(2)], of i] by (simp_all add: node_at_def)
qed

lemma buildClusterView_of:
  assumes "nodes_ok s" and "topics_ok s"
    and "range_result s (RangePrefix NodesDiscoveryPath) xs" and "range_result s (RangeKey StatePath) ys"
    and "range_result s (RangePrefix TopicPath) zs"
  shows "view_of s (buildClusterView xs ys zs)"
proof -
  note nodes = node_snapshot_of [OF assms(1,3)]
  have ctl: "(case ys of [] \<Rightarrow> None | x # _ \<Rightarrow> as_controller (kvValue (snd x))) = controller_of s"
    using range_key [OF assms(4)] by (simp add: controller_of_def split: option.splits)
  note topics = view_topics_of [OF assms(2,5)]
  have "distinct (map tpName (sort_key tpName (List.map_filter view_topic zs)))"
    using topics(2) by (metis distinct_map distinct_sort set_sort)
  moreover have "t \<in> set (sort_key tpName (List.map_filter view_topic zs)) \<longleftrightarrow> stored_topic (tpName t) s = Some t" for t
    using topics(1) by simp
  ultimately show ?thesis
    using nodes by (auto simp: view_of_def buildClusterView_def Let_def view_node_def ctl controller_epoch_def
        split: option.splits)
qed

lemma fetchClusterView_of:
  assumes "etcd_ok E view P" and "fetchClusterView E e = (r, e')"
  shows "client_steps P (view e) (view e')"
    and "r = Inr v \<Longrightarrow> nodes_ok (view e') \<Longrightarrow> topics_ok (view e') \<Longrightarrow> view_of (view e') v"
proof -
  let ?rs = "[RangePrefix NodesDiscoveryPath, RangeKey StatePath, RangePrefix TopicPath]"
  obtain g e1 where g: "eRanges E ?rs e = (g, e1)" by (cases "eRanges E ?rs e")
  note law = etcd_ranges [OF assms(1) g]
  have e: "e' = e1" using assms(2) g by (auto simp: fetchClusterView_def split: sum.splits list.splits)
  show "client_steps P (view e) (view e')" using law(1) e by simp
  assume v: "r = Inr v" "nodes_ok (view e')" "topics_ok (view e')"
  obtain xss where x: "g = Inr xss" using assms(2) g v(1) by (cases g) (auto simp: fetchClusterView_def)
  obtain xs ys zs where l: "xss = [xs, ys, zs]" "range_result (view e1) (RangePrefix NodesDiscoveryPath) xs"
    "range_result (view e1) (RangeKey StatePath) ys" "range_result (view e1) (RangePrefix TopicPath) zs"
    using law(2) [OF x] by (auto simp: list_all2_three)
  have "v = buildClusterView xs ys zs" using assms(2) g v(1) x l(1) by (simp add: fetchClusterView_def)
  then show "view_of (view e') v" using buildClusterView_of [of "view e1" xs ys zs] v(2,3) l e by simp
qed

section \<open>What the overview says of a view\<close>

lemma overview_nodes:
  fixes self :: int
  assumes "view_of s v"
  defines "ids \<equiv> map cnID (coNodes (mapClusterOverview v self))"
  shows "sorted ids" and "distinct ids" and "set ids = {i. node_at s i \<noteq> None}"
proof -
  have nodes: "view_node v i = node_at s i" "keyed (vNodes v)" for i using assms(1) by (auto simp: view_of_def)
  have own: "nsID st = i" if "(i, st) \<in> set (vNodes v)" for i st using nodes(2) that by (auto simp: keyed_def)
  have cn: "map cnID (map (\<lambda>(i, st). mapClusterNode st c) (vNodes v)) = map fst (vNodes v)" for c
    using own by (auto simp: mapClusterNode_def)
  show "sorted ids" by (simp add: ids_def mapClusterOverview_def mapClusterNodes_def)
  have "distinct (map cnID (map (\<lambda>(i, st). mapClusterNode st (controllerID v)) (vNodes v)))"
    unfolding cn using nodes(2) by (simp add: keyed_def)
  then show "distinct ids"
    by (simp only: ids_def mapClusterOverview_def mapClusterNodes_def ClusterOverview.simps)
      (metis distinct_map distinct_sort set_sort)
  have "set ids = fst ` set (vNodes v)"
    using own by (force simp: ids_def mapClusterOverview_def mapClusterNodes_def mapClusterNode_def)
  moreover have "i \<in> fst ` set (vNodes v) \<longleftrightarrow> node_at s i \<noteq> None" for i
    using nodes(1) [of i] map_of_eq_None_iff [of "vNodes v" i] by (auto simp: view_node_def)
  ultimately show "set ids = {i. node_at s i \<noteq> None}" by blast
qed

lemma overview_controller:
  assumes "view_of s v" and "x \<in> set (coNodes (mapClusterOverview v self))"
  shows "cnIsController x \<longleftrightarrow> cnID x \<noteq> 0 \<and> map_option csLeaderId (controller_of s) = Some (cnID x)"
proof -
  have "cnID x \<in> set (map cnID (coNodes (mapClusterOverview v self)))" using assms(2) by simp
  then have at: "node_at s (cnID x) \<noteq> None" unfolding overview_nodes(3) [OF assms(1)] by simp
  have "controllerID v = i \<and> i \<noteq> 0 \<longleftrightarrow> i \<noteq> 0 \<and> map_option csLeaderId (controller_of s) = Some i"
    if "node_at s i \<noteq> None" for i
  proof -
    have "nsID st = j" if "node_at s j = Some st" for j st using that by (auto simp: node_at_def split: option.splits)
    moreover have "vController v = (case controller_of s of None \<Rightarrow> None | Some c \<Rightarrow>
        if csLeaderId c = 0 then None else node_at s (csLeaderId c))" using assms(1) by (simp add: view_of_def)
    ultimately show ?thesis using that by (fastforce simp: controllerID_def split: option.splits if_splits)
  qed
  from this [OF at] have "controllerID v = cnID x \<and> cnID x \<noteq> 0 \<longleftrightarrow>
      cnID x \<noteq> 0 \<and> map_option csLeaderId (controller_of s) = Some (cnID x)" .
  moreover have "cnIsController x \<longleftrightarrow> controllerID v = cnID x \<and> cnID x \<noteq> 0"
    using assms(2) by (auto simp: mapClusterOverview_def mapClusterNodes_def mapClusterNode_def)
  ultimately show ?thesis by simp
qed

lemma overview_topics:
  fixes self :: int
  assumes "view_of s v" and "topics_ok s"
  defines "names \<equiv> map ctName (coTopics (mapClusterOverview v self))"
  shows "sorted names" and "set names = {name. stored_topic name s \<noteq> None}"
proof -
  have names: "names = map tpName (vTopics v)"
    by (simp add: names_def mapClusterOverview_def mapClusterTopics_def mapClusterTopic_def)
  have t: "t \<in> set (vTopics v) \<longleftrightarrow> stored_topic (tpName t) s = Some t" for t using assms(1) by (simp add: view_of_def)
  show "sorted names" unfolding names using assms(1) by (simp add: view_of_def)
  have "name \<in> tpName ` set (vTopics v) \<longleftrightarrow> stored_topic name s \<noteq> None" for name
  proof
    assume "stored_topic name s \<noteq> None"
    then obtain t0 where t0: "stored_topic name s = Some t0" by blast
    moreover have "tpName t0 = name" using stored_topic_ok [OF assms(2) t0] by simp
    ultimately have "t0 \<in> set (vTopics v)" unfolding t by simp
    then show "name \<in> tpName ` set (vTopics v)" using \<open>tpName t0 = name\<close> by (rule rev_image_eqI [OF _ sym])
  next
    assume "name \<in> tpName ` set (vTopics v)"
    then obtain t0 where "t0 \<in> set (vTopics v)" "name = tpName t0" by (rule imageE)
    then show "stored_topic name s \<noteq> None" unfolding t by simp
  qed
  then show "set names = {name. stored_topic name s \<noteq> None}" unfolding names set_map by blast
qed

lemma overview_alive:
  assumes "view_of s v" and "T \<in> set (coTopics (mapClusterOverview v self))" and "q \<in> set (ctPartitions T)"
  shows "cpLeaderAlive q \<longleftrightarrow> cpLeaderNodeID q \<in> set (map cnID (coNodes (mapClusterOverview v self)))"
proof -
  have "view_node v i = node_at s i" for i using assms(1) by (simp add: view_of_def)
  then show ?thesis
    using assms(2,3) unfolding overview_nodes(3) [OF assms(1)]
    by (auto simp: mapClusterOverview_def mapClusterTopics_def mapClusterTopic_def mapClusterPartition_def Let_def)
qed

section \<open>Properties\<close>

text \<open>C30. A cluster overview is one state of the cluster. An answer that does not come from the cache
  describes the store at the moment of its only request: it lists exactly the registered nodes, in
  the order of their ids, and the answering node is one of them (a node that lost its registration
  returns an error instead); a node is flagged as the controller exactly when the controller key
  names it and its own key is present; the topics are all the stored ones, by name; and a partition
  says its leader is alive exactly when the list holds that node. The last flag can be false, for a
  partition whose leader died, although a comment on the type says the leader is always in the list.\<close>

theorem overview_is_snapshot:
  assumes "etcd_ok E view P" and "nodes_ok (view e')" and "topics_ok (view e')" and "vcView vc = None"
    and "GetClusterOverview E clock n vc e = (Inr ov, vc', e')"
  shows "client_steps P (view e) (view e') \<and>
    sorted (map cnID (coNodes ov)) \<and> distinct (map cnID (coNodes ov)) \<and>
    set (map cnID (coNodes ov)) = {i. node_at (view e') i \<noteq> None} \<and> nodeID n \<in> set (map cnID (coNodes ov)) \<and>
    (\<forall>x\<in>set (coNodes ov). cnIsController x \<longleftrightarrow>
       cnID x \<noteq> 0 \<and> map_option csLeaderId (controller_of (view e')) = Some (cnID x)) \<and>
    coControllerEpoch ov = controller_epoch (view e') \<and>
    sorted (map ctName (coTopics ov)) \<and> set (map ctName (coTopics ov)) = {name. stored_topic name (view e') \<noteq> None} \<and>
    (\<forall>T\<in>set (coTopics ov). \<forall>q\<in>set (ctPartitions T).
       cpLeaderAlive q \<longleftrightarrow> cpLeaderNodeID q \<in> set (map cnID (coNodes ov)))"
proof -
  obtain g e1 where g: "fetchClusterView E e = (g, e1)" by (cases "fetchClusterView E e")
  note fetch = fetchClusterView_of [OF assms(1) g]
  have rd: "readClusterView E clock clusterViewTTL vc e =
      (case g of Inl x \<Rightarrow> (Inl x, vc, e1) | Inr v \<Rightarrow> (Inr v, \<lparr>vcView = Some v, vcFetchedAt = snd clock\<rparr>, e1))"
    using g assms(4) by (simp add: readClusterView_def split: sum.splits)
  then obtain v where v: "g = Inr v" "ensureMember v (nodeID n) = None" "ov = mapClusterOverview v (nodeID n)" "e' = e1"
    using assms(5) by (auto simp: GetClusterOverview_def readMemberView_def split: sum.splits option.splits)
  have vo: "view_of (view e') v" using fetch(2) [OF v(1)] assms(2,3) v(4) by simp
  have "node_at (view e') (nodeID n) \<noteq> None"
    using v(2) vo by (auto simp: ensureMember_def view_of_def split: if_splits)
  moreover have "coControllerEpoch ov = controller_epoch (view e')" using vo by (simp add: v(3) mapClusterOverview_def view_of_def)
  ultimately show ?thesis
    using fetch(1) v(4) overview_nodes [OF vo, of "nodeID n"] overview_controller [OF vo, of _ "nodeID n"]
      overview_topics [OF vo assms(3), of "nodeID n"] overview_alive [OF vo, of _ "nodeID n"]
    unfolding v(3) by simp
qed

text \<open>The store after the first election holds the controller, node 1, and no topics.\<close>

lemma elected_get:
  "store_get k elected_store =
     (if k = nodeKey 1 then Some \<lparr>kvValue = VNode (blank_node\<lparr>nsRole := Controller\<rparr>), kvModRevision = 1, kvVersion = 1, kvLease = 7\<rparr>
      else if k = StatePath then Some \<lparr>kvValue = VController \<lparr>csLeaderId = 1, csLeaderEpoch = 1\<rparr>, kvModRevision = 1,
        kvVersion = 1, kvLease = 0\<rparr>
      else None)"
  by (simp add: elected_store_def nodeKey_puts empty_store_def next_version_def)

lemma topicKey_other [simp]: "topicKey name \<noteq> nodeKey i" "topicKey name \<noteq> StatePath"
proof -
  have "topicKey name ! 7 = CHR ''t''" "nodeKey i ! 7 = CHR ''n''" "StatePath ! 7 = CHR ''c''"
    by (simp_all add: topicKey_def TopicPath_def nodeKey_def NodesDiscoveryPath_def StatePath_def)
  then show "topicKey name \<noteq> nodeKey i" "topicKey name \<noteq> StatePath" by auto
qed

lemma state_no_node [simp]: "\<not> has_prefix NodesDiscoveryPath StatePath"
  by (simp add: has_prefix_def NodesDiscoveryPath_def StatePath_def)

lemma elected_ok: "nodes_ok elected_store" "topics_ok elected_store"
proof -
  show "nodes_ok elected_store"
    unfolding nodes_ok_def by (auto simp: elected_get blank_node_def split: if_splits intro!: exI [of _ "1 :: int"])
  have "store_ok elected_store"
    unfolding elected_store_def by (rule store_commit_ok) (simp add: empty_store_def store_ok_def revs_below_def)
  then show "topics_ok elected_store" by (simp add: topics_ok_def elected_get)
qed

theorem overview_is_snapshot_witness:
  "\<exists>ov vc'. GetClusterOverview calm_etcd (0, 0) (fresh_coordinator 1) \<lparr>vcView = None, vcFetchedAt = 0\<rparr> elected_store =
      (Inr ov, vc', elected_store) \<and> set (map cnID (coNodes ov)) = {1} \<and> (\<forall>x\<in>set (coNodes ov). cnIsController x)"
proof -
  let ?vc = "\<lparr>vcView = None, vcFetchedAt = 0\<rparr>"
  have quiet: "etcd_ok calm_etcd (\<lambda>s. s) (\<lambda>_ _. False)" using calm_etcd_quiet by (simp add: etcd_quiet_def)
  obtain v where v: "fetchClusterView calm_etcd elected_store = (Inr v, elected_store)"
    by (simp add: fetchClusterView_def)
  have at: "node_at elected_store i \<noteq> None \<longleftrightarrow> i = 1" for i by (simp add: node_at_def elected_get)
  have "view_node v 1 = node_at elected_store 1"
    using fetchClusterView_of(2) [OF quiet v, of v] elected_ok by (simp add: view_of_def)
  then have mem: "ensureMember v (nodeID (fresh_coordinator 1)) = None"
    using at [of 1] by (simp add: ensureMember_def fresh_coordinator_def NewNodeCoordinator_def)
  then obtain ov vc' where run: "GetClusterOverview calm_etcd (0, 0) (fresh_coordinator 1) ?vc elected_store =
      (Inr ov, vc', elected_store)"
    using v by (simp add: GetClusterOverview_def readMemberView_def readClusterView_def)
  have c: "controller_of elected_store = Some \<lparr>csLeaderId = 1, csLeaderEpoch = 1\<rparr>"
    by (simp add: controller_of_def elected_get)
  note facts = overview_is_snapshot [OF quiet elected_ok _ run]
  have "set (map cnID (coNodes ov)) = {1}" using facts unfolding at by simp
  moreover from this have "cnID x = 1" if "x \<in> set (coNodes ov)" for x using that by auto
  ultimately show ?thesis using facts run c by auto
qed

end
