(* ===== verification/Placement.thy ===== *)
theory Placement
  imports ClusterView
begin

text \<open>
  Creating a topic: \<open>CreateTopic\<close> of \<open>server/cluster/control_api.go\<close> with its placement of replicas and
  leaders, and the routing to the controller, \<open>server/cluster/control_forward.go\<close>. The call of another
  node's control service is the argument \<open>remote\<close>; its request carries the counts as \<open>int32\<close>.
\<close>

record CreateTopicRequest =
  rqTopicName :: string
  rqNumPartitions :: int
  rqReplicationFactor :: int

record CreateTopicResponse =
  rpSuccess :: bool
  rpError :: "cluster_error option"
  rpNotController :: bool
  rpControllerAddress :: string

definition refused :: "cluster_error \<Rightarrow> CreateTopicResponse" where
  "refused x = \<lparr>rpSuccess = False, rpError = Some x, rpNotController = False, rpControllerAddress = []\<rparr>"

section \<open>Placement\<close>

definition pick_leader :: "(int \<Rightarrow> nat) \<Rightarrow> int list \<Rightarrow> int" where
  "pick_leader leaderCount chosen =
     fold (\<lambda>i leader. if leaderCount i < leaderCount leader \<or> (leaderCount i = leaderCount leader \<and> i < leader)
        then i else leader) (tl chosen) (hd chosen)"

text \<open>
  The loop over the partitions \<open>i, i + 1, \<dots>\<close>: the number still to be placed, the node ids in the
  order the last sort left them, and the two counters.
\<close>

fun place_partitions ::
  "nat \<Rightarrow> int \<Rightarrow> nat \<Rightarrow> int list \<Rightarrow> (int \<Rightarrow> nat) \<Rightarrow> (int \<Rightarrow> nat) \<Rightarrow> PartitionsParams list" where
  "place_partitions 0 i rf aliveIDs partitionCount leaderCount = []"
| "place_partitions (Suc k) i rf aliveIDs partitionCount leaderCount =
     (let sorted_ids = sort_key (\<lambda>j. (partitionCount j, j)) aliveIDs;
          chosen = take rf sorted_ids;
          leader = pick_leader leaderCount chosen
      in \<lparr>PartitionId = i, LeaderNodeId = leader, ReplicasNodeId = chosen, IsrNodeId = [leader]\<rparr>
         # place_partitions k (i + 1) rf sorted_ids (fold bump chosen partitionCount) (bump leader leaderCount))"

section \<open>The request\<close>

definition CreateTopic ::
  "'e etcd \<Rightarrow> int \<times> int \<Rightarrow> coordinator \<Rightarrow> CreateTopicRequest \<Rightarrow> view_cache \<Rightarrow> 'e
   \<Rightarrow> (cluster_error + CreateTopicResponse) \<times> view_cache \<times> 'e" where
  "CreateTopic E clock n req vc e =
     (if ReadRole (cbroker n) \<noteq> Controller then
        (case FindControllerAddress E clock vc e of
           (addr, vc1, e1) \<Rightarrow>
             (Inr \<lparr>rpSuccess = False, rpError = Some ENotClusterController, rpNotController = True,
                   rpControllerAddress = (case addr of Inl x \<Rightarrow> [] | Inr a \<Rightarrow> a)\<rparr>, vc1, e1))
      else if rqTopicName req = [] then (Inr (refused ETopicCredential), vc, e)
      else if rqNumPartitions req \<le> 0 then (Inr (refused ETopicCredential), vc, e)
      else
        let rf = (if rqReplicationFactor req \<le> 0 then 3 else rqReplicationFactor req)
        in case GetTopic E (rqTopicName req) e of
          (Inl x, e1) \<Rightarrow> (Inl x, vc, e1)
        | (Inr (Some t), e1) \<Rightarrow> (Inr (refused ETopicAlreadyExists), vc, e1)
        | (Inr None, e1) \<Rightarrow>
            (case readClusterView E clock 0 vc e1 of
               (Inl x, vc1, e2) \<Rightarrow> (Inl x, vc1, e2)
             | (Inr v, vc1, e2) \<Rightarrow>
                 let aliveIDs = map fst (vNodes v)
                 in if int (length aliveIDs) < rf then
                      (Inr (refused (ENotEnoughAliveNodes (length aliveIDs) rf)), vc1, e2)
                    else
                      let counts = computeNodeLoadFrom (vTopics v);
                          params = \<lparr>tpName = rqTopicName req, DesiredReplicationFactor = rf,
                            Partitions = place_partitions (nat (rqNumPartitions req)) 0 (nat rf) aliveIDs
                              (fst counts) (snd counts)\<rparr>
                      in case PutTopicCAS E params 0 e2 of
                        (Inl x, e3) \<Rightarrow> (Inl x, vc1, e3)
                      | (Inr False, e3) \<Rightarrow> (Inr (refused ERaceCondition), vc1, e3)
                      | (Inr True, e3) \<Rightarrow>
                          (Inr \<lparr>rpSuccess = True, rpError = None, rpNotController = False, rpControllerAddress = []\<rparr>,
                           invalidateClusterView vc1, e3)))"

definition to_int32 :: "int \<Rightarrow> int" where
  "to_int32 i = sint (of_int i :: 32 word)"

definition CreateTopicRouted ::
  "'e etcd \<Rightarrow> int \<times> int \<Rightarrow> (string \<Rightarrow> bool) \<Rightarrow>
   (string \<Rightarrow> CreateTopicRequest \<Rightarrow> 'e \<Rightarrow> (cluster_error + CreateTopicResponse) \<times> 'e) \<Rightarrow> coordinator
   \<Rightarrow> CreateTopicRequest \<Rightarrow> view_cache \<Rightarrow> 'e \<Rightarrow> (cluster_error + CreateTopicResponse) \<times> view_cache \<times> 'e" where
  "CreateTopicRouted E clock dial remote n req vc e =
     (if ReadRole (cbroker n) = Controller then CreateTopic E clock n req vc e
      else case readClusterView E clock 0 vc e of
        (Inl x, vc1, e1) \<Rightarrow> (Inl x, vc1, e1)
      | (Inr v, vc1, e1) \<Rightarrow>
          (case vController v of
             None \<Rightarrow> (Inr \<lparr>rpSuccess = False, rpError = Some EControllerUnavailable, rpNotController = True,
                           rpControllerAddress = []\<rparr>, vc1, e1)
           | Some c \<Rightarrow>
               if nsID c = nodeID n then CreateTopic E clock n req vc1 e1
               else if nsControlAddress c = [] then
                 (Inr \<lparr>rpSuccess = False, rpError = Some EControllerAddressMissing, rpNotController = True,
                       rpControllerAddress = []\<rparr>, vc1, e1)
               else if \<not> dial (nsControlAddress c) then (Inl EDial, vc1, e1)
               else (case remote (nsControlAddress c)
                         \<lparr>rqTopicName = rqTopicName req, rqNumPartitions = to_int32 (rqNumPartitions req),
                          rqReplicationFactor = to_int32 (rqReplicationFactor req)\<rparr> e1 of
                       (Inl x, e2) \<Rightarrow> (Inl x, vc1, e2)
                     | (Inr resp, e2) \<Rightarrow> (Inr resp, if rpSuccess resp then invalidateClusterView vc1 else vc1, e2))))"

section \<open>The placement is well formed and balanced\<close>

lemma pick_leader_in: "chosen \<noteq> [] \<Longrightarrow> pick_leader lc chosen \<in> set chosen"
proof -
  have "fold (\<lambda>i leader. if lc i < lc leader \<or> (lc i = lc leader \<and> i < leader) then i else leader) xs l \<in> insert l (set xs)" for xs l
    by (induction xs arbitrary: l) auto
  from this [of "tl chosen" "hd chosen"] show "chosen \<noteq> [] \<Longrightarrow> ?thesis"
    by (cases chosen) (auto simp: pick_leader_def)
qed

text \<open>The leader has the fewest leaderships among the chosen, the smallest id breaking ties.\<close>

lemma pick_leader_least:
  assumes "j \<in> set chosen"
  shows "(lc (pick_leader lc chosen), pick_leader lc chosen) \<le> (lc j, j)"
proof -
  let ?f = "\<lambda>i leader. if lc i < lc leader \<or> (lc i = lc leader \<and> i < leader) then i else leader"
  have "(lc (fold ?f xs l), fold ?f xs l) \<le> (lc x, x)" if "x \<in> insert l (set xs)" for xs l x
    using that
  proof (induction xs arbitrary: l x)
    case Nil
    then show ?case by simp
  next
    case (Cons y xs)
    define m where "m = ?f y l"
    have step: "(lc m, m) \<le> (lc y, y)" "(lc m, m) \<le> (lc l, l)" by (auto simp: m_def)
    have least: "(lc (fold ?f xs m), fold ?f xs m) \<le> (lc m, m)" by (rule Cons.IH) simp
    have fold: "fold ?f (y # xs) l = fold ?f xs m" by (simp add: m_def)
    consider "x = y" | "x = l" | "x \<in> set xs" using Cons.prems by auto
    then show ?case
    proof cases
      case 1
      show ?thesis unfolding fold 1 using least step(1) by (rule order.trans)
    next
      case 2
      show ?thesis unfolding fold 2 using least step(2) by (rule order.trans)
    next
      case 3
      show ?thesis unfolding fold by (rule Cons.IH) (use 3 in simp)
    qed
  qed
  from this [of j "hd chosen" "tl chosen"] show ?thesis using assms
    by (cases chosen) (auto simp: pick_leader_def)
qed

definition placed :: "int list \<Rightarrow> nat \<Rightarrow> PartitionsParams \<Rightarrow> bool" where
  "placed aliveIDs rf p \<longleftrightarrow> distinct (ReplicasNodeId p) \<and> length (ReplicasNodeId p) = rf \<and>
     set (ReplicasNodeId p) \<subseteq> set aliveIDs \<and> LeaderNodeId p \<in> set (ReplicasNodeId p) \<and> IsrNodeId p = [LeaderNodeId p]"

lemma place_partitions_placed:
  assumes "distinct aliveIDs" and "0 < rf" and "rf \<le> length aliveIDs"
  shows "(\<forall>p\<in>set (place_partitions k i rf aliveIDs pc lc). placed aliveIDs rf p) \<and>
    map PartitionId (place_partitions k i rf aliveIDs pc lc) = map (\<lambda>j. i + int j) [0..<k]"
  using assms
proof (induction k arbitrary: i aliveIDs pc lc)
  case 0
  then show ?case by simp
next
  case (Suc k)
  define ids where "ids = sort_key (\<lambda>j. (pc j, j)) aliveIDs"
  have ids: "distinct ids" "set ids = set aliveIDs" "length ids = length aliveIDs" using Suc.prems(1) by (simp_all add: ids_def)
  define chosen where "chosen = take rf ids"
  have c: "distinct chosen" "length chosen = rf" "set chosen \<subseteq> set aliveIDs" "chosen \<noteq> []"
    using ids Suc.prems(2,3) set_take_subset [of rf ids] by (auto simp: chosen_def)
  let ?l = "pick_leader lc chosen"
  have own: "placed aliveIDs rf \<lparr>PartitionId = i, LeaderNodeId = ?l, ReplicasNodeId = chosen, IsrNodeId = [?l]\<rparr>"
    using c pick_leader_in [OF c(4)] by (simp add: placed_def)
  have rest: "(\<forall>p\<in>set (place_partitions k (i + 1) rf ids (fold bump chosen pc) (bump ?l lc)). placed aliveIDs rf p) \<and>
      map PartitionId (place_partitions k (i + 1) rf ids (fold bump chosen pc) (bump ?l lc)) = map (\<lambda>j. i + 1 + int j) [0..<k]"
    using Suc.IH [of ids "i + 1" "fold bump chosen pc" "bump ?l lc"] ids Suc.prems(2,3) by (simp add: placed_def)
  have shift: "map (\<lambda>j. i + int j) [0..<Suc k] = i # map (\<lambda>j. i + 1 + int j) [0..<k]"
    by (simp add: upt_conv_Cons map_Suc_upt [symmetric] del: upt_Suc)
  show ?case using own rest unfolding place_partitions.simps Let_def ids_def [symmetric] chosen_def [symmetric] shift
    by simp
qed

lemma fold_bump: "distinct xs \<Longrightarrow> fold bump xs f j = (if j \<in> set xs then Suc (f j) else f j)"
  by (induction xs arbitrary: f) (auto simp: bump_def)

text \<open>Taking the least loaded nodes keeps the loads of the nodes within \<open>d\<close> of each other.\<close>

definition spread :: "nat \<Rightarrow> int list \<Rightarrow> (int \<Rightarrow> nat) \<Rightarrow> bool" where
  "spread d aliveIDs pc \<longleftrightarrow> (\<forall>a\<in>set aliveIDs. \<forall>b\<in>set aliveIDs. pc a \<le> pc b + d)"

lemma least_loaded_first:
  assumes "a \<in> set (take rf (sort_key (\<lambda>j. (pc j, j)) ids))" and "b \<in> set ids"
    and "b \<notin> set (take rf (sort_key (\<lambda>j :: int. (pc j :: nat, j)) ids))"
  shows "pc a \<le> pc b"
proof -
  let ?f = "\<lambda>j. (pc j, j)" and ?xs = "sort_key (\<lambda>j. (pc j, j)) ids"
  have "sorted (map ?f (take rf ?xs) @ map ?f (drop rf ?xs))"
    using sorted_sort_key [of ?f ids] by (metis append_take_drop_id map_append)
  moreover have "b \<in> set (drop rf ?xs)"
    using assms(2,3) set_append [of "take rf ?xs" "drop rf ?xs"] by (simp del: set_append)
  ultimately have "?f a \<le> ?f b" using assms(1) by (auto simp: sorted_append)
  then show ?thesis by (auto simp: less_eq_prod_def)
qed

lemma spread_step:
  assumes "spread d ids pc" and "0 < d" and "distinct ids"
  shows "spread d ids (fold bump (take rf (sort_key (\<lambda>j. (pc j, j)) ids)) pc)"
  unfolding spread_def
proof (intro ballI)
  fix a b assume m: "a \<in> set ids" "b \<in> set ids"
  let ?c = "take rf (sort_key (\<lambda>j. (pc j, j)) ids)"
  have d: "distinct ?c" using assms(3) by simp
  have s: "pc a \<le> pc b + d" using assms(1) m by (simp add: spread_def)
  show "fold bump ?c pc a \<le> fold bump ?c pc b + d"
  proof (cases "a \<in> set ?c \<and> b \<notin> set ?c")
    case True
    then have "pc a \<le> pc b" using least_loaded_first m(2) by blast
    then show ?thesis using True assms(2) by (simp add: fold_bump [OF d])
  qed (use s in \<open>auto simp: fold_bump [OF d]\<close>)
qed

text \<open>The load of the nodes once the partitions are placed.\<close>

definition add_load :: "PartitionsParams list \<Rightarrow> (int \<Rightarrow> nat) \<Rightarrow> (int \<Rightarrow> nat)" where
  "add_load ps pc = fold (\<lambda>p. fold bump (ReplicasNodeId p)) ps pc"

lemma place_partitions_spread:
  assumes "distinct aliveIDs" and "0 < d" and "spread d aliveIDs pc"
  shows "spread d aliveIDs (add_load (place_partitions k i rf aliveIDs pc lc) pc)"
  using assms
proof (induction k arbitrary: i aliveIDs pc lc)
  case 0
  then show ?case by (simp add: add_load_def)
next
  case (Suc k)
  define ids where "ids = sort_key (\<lambda>j. (pc j, j)) aliveIDs"
  have ids: "distinct ids" "set ids = set aliveIDs" using Suc.prems(1) by (simp_all add: ids_def)
  then have same: "spread d ids f \<longleftrightarrow> spread d aliveIDs f" for f by (simp add: spread_def)
  have "spread d aliveIDs (fold bump (take rf ids) pc)"
    unfolding ids_def by (rule spread_step [OF Suc.prems(3,2,1)])
  then have "spread d ids (add_load (place_partitions k (i + 1) rf ids (fold bump (take rf ids) pc)
      (bump (pick_leader lc (take rf ids)) lc)) (fold bump (take rf ids) pc))"
    using Suc.IH [of ids "fold bump (take rf ids) pc"] ids(1) Suc.prems(2) same by blast
  then show ?case unfolding same place_partitions.simps Let_def ids_def [symmetric] by (simp add: add_load_def)
qed

section \<open>What a creation does to the store\<close>

definition meta_ok :: "etcd_store \<Rightarrow> bool" where
  "meta_ok s \<longleftrightarrow> topics_ok s \<and> nodes_ok s"

definition meta_clients :: "etcd_store \<Rightarrow> etcd_op list \<Rightarrow> bool" where
  "meta_clients s ops \<longleftrightarrow> (meta_ok s \<longrightarrow> meta_ok (store_commit ops s))"

lemma meta_ok_steps: "client_steps meta_clients s t \<Longrightarrow> meta_ok s \<Longrightarrow> meta_ok t"
  by (rule client_steps_keep [where I = meta_ok and P = meta_clients]) (auto simp: meta_clients_def)

lemma topic_no_node: "\<not> has_prefix NodesDiscoveryPath (topicKey name)"
proof
  assume "has_prefix NodesDiscoveryPath (topicKey name)"
  then have "take (length NodesDiscoveryPath) (topicKey name) ! 7 = NodesDiscoveryPath ! 7"
    by (simp add: has_prefix_def)
  then show False by (simp add: NodesDiscoveryPath_def topicKey_def TopicPath_def)
qed

lemma meta_ok_put_topic:
  "meta_ok s \<Longrightarrow> topic_ok t \<Longrightarrow> meta_ok (store_commit [OpPut (topicKey (tpName t)) (VTopic t) 0] s)"
  using topics_ok_put [of s t] topic_no_node by (auto simp: meta_ok_def nodes_ok_def split: if_splits)

lemma placed_partition_ok: "placed ids rf p \<Longrightarrow> partition_ok p"
  by (auto simp: placed_def partition_ok_def)

lemma placed_topic_ok:
  assumes "distinct ids" and "0 < rf" and "rf \<le> length ids"
  shows "topic_ok \<lparr>tpName = name, DesiredReplicationFactor = d, Partitions = place_partitions k 0 rf ids pc lc\<rparr>"
  using place_partitions_placed [OF assms, of k 0 pc lc] placed_partition_ok
  by (auto simp: topic_ok_def distinct_map inj_on_def)

text \<open>The topic a creation commits: what it was asked for, on nodes registered at the snapshot it read.\<close>

definition created_topic :: "CreateTopicRequest \<Rightarrow> etcd_store \<Rightarrow> TopicParams \<Rightarrow> bool" where
  "created_topic req s t \<longleftrightarrow> tpName t = rqTopicName req \<and>
     DesiredReplicationFactor t = (if rqReplicationFactor req \<le> 0 then 3 else rqReplicationFactor req) \<and>
     map PartitionId (Partitions t) = map int [0..<nat (rqNumPartitions req)] \<and>
     (\<forall>p\<in>set (Partitions t). distinct (ReplicasNodeId p) \<and>
        int (length (ReplicasNodeId p)) = DesiredReplicationFactor t \<and>
        (\<forall>i\<in>set (ReplicasNodeId p). node_at s i \<noteq> None) \<and>
        LeaderNodeId p \<in> set (ReplicasNodeId p) \<and> IsrNodeId p = [LeaderNodeId p])"

lemma readClusterView_fresh:
  assumes "etcd_ok E view P" and "readClusterView E clock 0 vc e = (r, vc', e')"
  shows "client_steps P (view e) (view e')"
    and "r = Inr v \<Longrightarrow> nodes_ok (view e') \<Longrightarrow> topics_ok (view e') \<Longrightarrow> view_of (view e') v"
proof -
  obtain g e1 where g: "fetchClusterView E e = (g, e1)" by (cases "fetchClusterView E e")
  note f = fetchClusterView_of [OF assms(1) g]
  have e: "e' = e1" "r = Inr v \<Longrightarrow> g = Inr v" for v
    using assms(2) g by (auto simp: readClusterView_def split: sum.splits)
  show "client_steps P (view e) (view e')" using f(1) e by simp
  show "r = Inr v \<Longrightarrow> nodes_ok (view e') \<Longrightarrow> topics_ok (view e') \<Longrightarrow> view_of (view e') v" using f(2) e by simp
qed

lemma readClusterView_steps:
  assumes "etcd_ok E view P" and "readClusterView E clock age vc e = (r, vc', e')"
  shows "client_steps P (view e) (view e')"
proof -
  obtain g e1 where g: "fetchClusterView E e = (g, e1)" by (cases "fetchClusterView E e")
  have "e' = e \<or> e' = e1" using assms(2) g by (auto simp: readClusterView_def split: sum.splits option.splits if_splits)
  then show ?thesis using fetchClusterView_of(1) [OF assms(1) g] by (auto intro: client_refl)
qed

text \<open>The creation after its checks: the snapshot is read and the topic it places is put.\<close>

lemma create_commit:
  assumes E: "etcd_ok E view meta_clients" and ok: "meta_ok (view e)"
    and "view_of (view e) v" and rf: "rf = (if rqReplicationFactor req \<le> 0 then 3 else rqReplicationFactor req)"
    and "rf \<le> int (length (vNodes v))"
    and "params = \<lparr>tpName = rqTopicName req, DesiredReplicationFactor = rf,
      Partitions = place_partitions (nat (rqNumPartitions req)) 0 (nat rf) (map fst (vNodes v)) pc lc\<rparr>"
    and put: "PutTopicCAS E params 0 e = (r, e')"
  shows "created_topic req (view e) params" and "client_steps meta_clients (view e) (view e')"
    and "r = Inr True \<Longrightarrow> \<exists>s. client_steps meta_clients (view e) s \<and> store_get (topicKey (rqTopicName req)) s = None
      \<and> view e' = store_commit [OpPut (topicKey (rqTopicName req)) (VTopic params) 0] s"
proof -
  let ?ids = "map fst (vNodes v)" and ?key = "topicKey (rqTopicName req)"
  have d: "distinct ?ids" "\<And>i. i \<in> set ?ids \<longleftrightarrow> node_at (view e) i \<noteq> None"
    using assms(3) map_of_eq_None_iff [of "vNodes v"] by (auto simp: view_of_def keyed_def view_node_def)
  have n: "0 < nat rf" "nat rf \<le> length ?ids" using rf assms(5) by auto
  note placed = place_partitions_placed [OF d(1) n, of "nat (rqNumPartitions req)" 0 pc lc]
  have alive: "node_at (view e) i \<noteq> None" if "p \<in> set (Partitions params)" "i \<in> set (ReplicasNodeId p)" for p i
  proof -
    have "set (ReplicasNodeId p) \<subseteq> set ?ids" using placed that(1) unfolding placed_def assms(6) by simp
    then show ?thesis using that(2) d(2) by blast
  qed
  show "created_topic req (view e) params"
    using placed alive n(1) unfolding created_topic_def assms(6) placed_def rf by auto
  have tok: "topic_ok params" unfolding assms(6) by (rule placed_topic_ok [OF d(1) n])
  have txn: "eTxn E [VersionZero ?key] [OpPut ?key (VTopic params) 0] e = (r, e')"
    using put by (simp add: PutTopicCAS_def Let_def assms(6))
  have client: "meta_clients s [OpPut ?key (VTopic params) 0]" for s
    using meta_ok_put_topic [OF _ tok] by (simp add: meta_clients_def assms(6))
  note st = etcd_txn_steps [OF E txn client]
  show "client_steps meta_clients (view e) (view e')" using st(1) .
  show "\<exists>s. client_steps meta_clients (view e) s \<and> store_get ?key s = None \<and>
      view e' = store_commit [OpPut ?key (VTopic params) 0] s" if "r = Inr True"
    using st(2) [OF that] by auto
qed

text \<open>An answer is a refusal, or the outcome of the conditional write of a placement.\<close>

lemma CreateTopic_cases:
  assumes "etcd_ok E view meta_clients" and "meta_ok (view e)"
    and "CreateTopic E clock n req vc e = (Inr resp, vc', e')"
  defines "rf \<equiv> if rqReplicationFactor req \<le> 0 then 3 else rqReplicationFactor req"
  obtains (refusal) "client_steps meta_clients (view e) (view e')" "\<not> rpSuccess resp" "rpError resp \<noteq> None"
  | (placed) e2 v pc lc where
      "ReadRole (cbroker n) = Controller" "rqTopicName req \<noteq> []" "0 < rqNumPartitions req"
      "client_steps meta_clients (view e) (view e2)" "view_of (view e2) v" "rf \<le> int (length (vNodes v))"
      "PutTopicCAS E \<lparr>tpName = rqTopicName req, DesiredReplicationFactor = rf,
         Partitions = place_partitions (nat (rqNumPartitions req)) 0 (nat rf) (map fst (vNodes v)) pc lc\<rparr> 0 e2 =
         (Inr (rpSuccess resp), e')"
      "\<not> rpSuccess resp \<longrightarrow> rpError resp \<noteq> None"
proof -
  consider (foreign) "ReadRole (cbroker n) \<noteq> Controller" | (bad) "ReadRole (cbroker n) = Controller" "rqTopicName req = [] \<or> rqNumPartitions req \<le> 0"
    | (good) "ReadRole (cbroker n) = Controller" "rqTopicName req \<noteq> []" "0 < rqNumPartitions req"
    by linarith
  then show thesis
  proof cases
    case foreign
    obtain g vc1 e1 where g: "readClusterView E clock clusterViewTTL vc e = (g, vc1, e1)" by (metis prod_cases3)
    have "e' = e1" "\<not> rpSuccess resp" "rpError resp \<noteq> None"
      using assms(3) foreign g by (auto simp: CreateTopic_def FindControllerAddress_def split: sum.splits)
    then show thesis using refusal readClusterView_steps [OF assms(1) g] by simp
  next
    case bad
    then have "e' = e" "\<not> rpSuccess resp" "rpError resp \<noteq> None"
      using assms(3) by (auto simp: CreateTopic_def refused_def split: if_splits)
    then show thesis using refusal client_refl by simp
  next
    case good
    obtain g e1 where g: "GetTopic E (rqTopicName req) e = (g, e1)" by (cases "GetTopic E (rqTopicName req) e")
    note get = GetTopic_read(1) [OF assms(1) g]
    obtain b where b: "g = Inr b" using assms(3) good g by (cases g) (auto simp: CreateTopic_def Let_def)
    show thesis
    proof (cases b)
      case (Some t)
      then have "e' = e1" "\<not> rpSuccess resp" "rpError resp \<noteq> None"
        using assms(3) good g b by (auto simp: CreateTopic_def refused_def Let_def)
      then show thesis using refusal get by simp
    next
      case new: None
      obtain h vc1 e2 where h: "readClusterView E clock 0 vc e1 = (h, vc1, e2)" by (metis prod_cases3)
      obtain v where v: "h = Inr v" using assms(3) good g b new h by (cases h) (auto simp: CreateTopic_def Let_def)
      note read = readClusterView_fresh [OF assms(1) h]
      have st2: "client_steps meta_clients (view e) (view e2)" using client_steps_trans [OF get read(1)] .
      have vo: "view_of (view e2) v" using read(2) [OF v] meta_ok_steps [OF st2 assms(2)] by (simp add: meta_ok_def)
      show thesis
      proof (cases "rf \<le> int (length (vNodes v))")
        case False
        then have "e' = e2" "\<not> rpSuccess resp" "rpError resp \<noteq> None"
          using assms(3) good g b new h v by (auto simp: CreateTopic_def refused_def Let_def rf_def split: if_splits)
        then show thesis using refusal st2 by simp
      next
        case True
        let ?counts = "computeNodeLoadFrom (vTopics v)"
        let ?params = "\<lparr>tpName = rqTopicName req, DesiredReplicationFactor = rf,
          Partitions = place_partitions (nat (rqNumPartitions req)) 0 (nat rf) (map fst (vNodes v)) (fst ?counts) (snd ?counts)\<rparr>"
        obtain r e3 where put: "PutTopicCAS E ?params 0 e2 = (r, e3)" by (cases "PutTopicCAS E ?params 0 e2")
        have "CreateTopic E clock n req vc e = (case r of Inl x \<Rightarrow> (Inl x, vc1, e3)
            | Inr False \<Rightarrow> (Inr (refused ERaceCondition), vc1, e3)
            | Inr True \<Rightarrow> (Inr \<lparr>rpSuccess = True, rpError = None, rpNotController = False, rpControllerAddress = []\<rparr>,
                invalidateClusterView vc1, e3))"
          using good g b new h v True put by (simp add: CreateTopic_def Let_def rf_def split: sum.splits bool.splits)
        then have "r = Inr (rpSuccess resp)" "e' = e3" "\<not> rpSuccess resp \<longrightarrow> rpError resp \<noteq> None"
          using assms(3) by (auto simp: refused_def split: sum.splits bool.splits)
        with placed [OF good st2 vo True] put show thesis by simp
      qed
    qed
  qed
qed

section \<open>Properties\<close>

text \<open>C11. A topic is created once, whole, and as asked. Whatever other clients write meanwhile, success
  means that the key of the topic did not exist at the moment of the write, and now holds exactly the
  requested number of partitions, numbered from 0, each with as many distinct replicas as the
  replication factor (3 when none is given), all registered at the snapshot, the leader among them and
  alone in the in-sync set. A refusal gives its reason, and the metadata stays well formed in any case.\<close>

theorem create_topic_places:
  assumes "etcd_ok E view meta_clients" and "meta_ok (view e)"
    and "CreateTopic E clock n req vc e = (Inr resp, vc', e')"
  shows "meta_ok (view e') \<and>
    (if rpSuccess resp then
       ReadRole (cbroker n) = Controller \<and> rqTopicName req \<noteq> [] \<and> 0 < rqNumPartitions req \<and>
       (\<exists>s0 s t. client_steps meta_clients (view e) s0 \<and> client_steps meta_clients s0 s \<and>
          created_topic req s0 t \<and> store_get (topicKey (rqTopicName req)) s = None \<and>
          view e' = store_commit [OpPut (topicKey (rqTopicName req)) (VTopic t) 0] s)
     else rpError resp \<noteq> None) \<and>
    client_steps meta_clients (view e) (view e')"
proof -
  show ?thesis
    using assms
  proof (cases rule: CreateTopic_cases)
    case refusal
    then show ?thesis using meta_ok_steps assms(2) by auto
  next
    case (placed e2 v pc lc)
    have ok2: "meta_ok (view e2)" using meta_ok_steps [OF placed(4) assms(2)] .
    note com = create_commit [OF assms(1) ok2 placed(5) refl placed(6) refl placed(7)]
    have st: "client_steps meta_clients (view e) (view e')" using client_steps_trans [OF placed(4) com(2)] .
    show ?thesis
    proof (cases "rpSuccess resp")
      case True
      with placed(1-4,8) st com(1,3) show ?thesis using meta_ok_steps [OF st assms(2)] by auto
    next
      case False
      with placed(8) st show ?thesis using meta_ok_steps [OF st assms(2)] by simp
    qed
  qed
qed

definition one_node :: etcd_store where
  "one_node = store_commit [OpPut (nodeKey 1) (VNode (sample_node 1)) 7] empty_store"

lemma one_node_get:
  "store_get k one_node =
     (if k = nodeKey 1 then Some \<lparr>kvValue = VNode (sample_node 1), kvModRevision = 1, kvVersion = 1, kvLease = 7\<rparr> else None)"
  by (simp add: one_node_def empty_store_def next_version_def)

lemma one_node_ok: "meta_ok one_node"
proof -
  have "store_ok one_node"
    unfolding one_node_def by (rule store_commit_ok) (simp add: empty_store_def store_ok_def revs_below_def)
  moreover have "nodes_ok one_node"
    unfolding nodes_ok_def by (auto simp: one_node_get sample_node_def split: if_splits intro!: exI [of _ "1 :: int"])
  ultimately show ?thesis by (simp add: meta_ok_def topics_ok_def one_node_get)
qed

definition sample_request :: CreateTopicRequest where
  "sample_request = \<lparr>rqTopicName = ''t'', rqNumPartitions = 2, rqReplicationFactor = 1\<rparr>"

lemma meta_calm: "etcd_ok calm_etcd (\<lambda>s. s) meta_clients"
  by (auto simp: etcd_ok_def calm_etcd_def with_prefix_in store_get_def distinct_clearjunk ranges_of_result
      intro: client_refl split: prod.splits)

lemma sample_create:
  "\<exists>resp vc' s'. CreateTopic calm_etcd (0, 0) sample_coordinator sample_request \<lparr>vcView = None, vcFetchedAt = 0\<rparr> one_node =
     (Inr resp, vc', s') \<and> rpSuccess resp"
proof -
  obtain v where v: "fetchClusterView calm_etcd one_node = (Inr v, one_node)" by (simp add: fetchClusterView_def)
  have vo: "view_of one_node v"
    using fetchClusterView_of(2) [OF meta_calm v, of v] one_node_ok by (simp add: meta_ok_def)
  then have d: "distinct (map fst (vNodes v))" and m: "map_of (vNodes v) i = node_at one_node i" for i
    by (auto simp: view_of_def keyed_def view_node_def)
  have "i \<in> set (map fst (vNodes v)) \<longleftrightarrow> i = 1" for i
    using m [of i] map_of_eq_None_iff [of "vNodes v" i] by (auto simp: node_at_def one_node_get split: if_splits)
  then have "set (map fst (vNodes v)) = {1}" by blast
  then have len: "length (vNodes v) = 1" using distinct_card [OF d] by simp
  have role: "ReadRole (cbroker sample_coordinator) = Controller"
    by (simp add: sample_coordinator_def NewNodeCoordinator_def ReadRole_def ToController_def)
  show ?thesis
    using v len role
    by (simp add: CreateTopic_def sample_request_def GetTopic_def readClusterView_def Let_def
        PutTopicCAS_def one_node_get store_txn_def)
qed

theorem create_topic_places_witness:
  "\<exists>resp vc' s' t. CreateTopic calm_etcd (0, 0) sample_coordinator sample_request \<lparr>vcView = None, vcFetchedAt = 0\<rparr> one_node =
     (Inr resp, vc', s') \<and> stored_topic ''t'' s' = Some t \<and> map PartitionId (Partitions t) = [0, 1]"
proof -
  obtain resp vc' s' where run: "CreateTopic calm_etcd (0, 0) sample_coordinator sample_request
      \<lparr>vcView = None, vcFetchedAt = 0\<rparr> one_node = (Inr resp, vc', s')" "rpSuccess resp"
    using sample_create by blast
  obtain s0 s t where t: "created_topic sample_request s0 t"
    "s' = store_commit [OpPut (topicKey ''t'') (VTopic t) 0] s"
    using create_topic_places [OF meta_calm one_node_ok run(1)] run(2) by (auto simp: sample_request_def)
  have "stored_topic ''t'' s' = Some t" by (simp add: t(2) stored_topic_def)
  moreover have "map PartitionId (Partitions t) = [0, 1]"
    using t(1) by (simp add: created_topic_def sample_request_def upt_rec)
  ultimately show ?thesis using run(1) by (intro exI conjI)
qed

text \<open>C31. Placement keeps the cluster balanced. If the numbers of partitions of the registered nodes lie
  within \<open>d \<ge> 1\<close> of each other, they still do after the partitions of a new topic are placed, for any
  number of partitions, replication factor and leader counts. In particular an empty cluster stays
  within one partition per node however many topics are created.\<close>

theorem placement_balanced:
  assumes "distinct aliveIDs" and "0 < d" and "spread d aliveIDs (fst (computeNodeLoadFrom topics))"
    and "Partitions t = place_partitions k 0 rf aliveIDs (fst (computeNodeLoadFrom topics)) lc"
  shows "spread d aliveIDs (fst (computeNodeLoadFrom (topics @ [t])))"
proof -
  have load: "fst (fold (\<lambda>p (pc, lc). (fold bump (ReplicasNodeId p) pc, bump (LeaderNodeId p) lc)) ps x) = add_load ps (fst x)" for ps x
    by (induction ps arbitrary: x) (auto simp: add_load_def split: prod.splits)
  have "fst (computeNodeLoadFrom (topics @ [t])) = add_load (Partitions t) (fst (computeNodeLoadFrom topics))"
    by (simp add: computeNodeLoadFrom_def load)
  then show ?thesis using place_partitions_spread [OF assms(1-3)] assms(4) by simp
qed

theorem placement_balanced_witness:
  "spread 1 [1, 2, 3] (fst (computeNodeLoadFrom
     [\<lparr>tpName = ''t'', DesiredReplicationFactor = 2,
       Partitions = place_partitions 5 0 2 [1, 2, 3] (\<lambda>_. 0) (\<lambda>_. 0)\<rparr>]))"
proof -
  let ?t = "\<lparr>tpName = ''t'', DesiredReplicationFactor = 2,
    Partitions = place_partitions 5 0 2 [1, 2, 3] (\<lambda>_. 0) (\<lambda>_. 0)\<rparr>"
  have e: "computeNodeLoadFrom [] = (\<lambda>_. 0, \<lambda>_. 0)" by (simp add: computeNodeLoadFrom_def)
  show ?thesis
    using placement_balanced [of "[1, 2, 3]" 1 "[]" ?t 5 2 "\<lambda>_. 0"] by (simp add: e spread_def)
qed

end
