(* ===== verification/Cluster.thy ===== *)
theory Cluster
  imports Broker
begin

text \<open>
  Several brokers and the network between them: the \<open>ClusterPeerProvider\<close> of the source built from
  the brokers' own handlers, and what the replicated write and catch-up achieve across nodes.

  The world maps node ids to brokers. For each remote call the network decides whether it reaches
  the node and whether the answer comes back; an answer can be lost although the call took effect.
  The partition of a topic is fixed by \<open>t\<close> and \<open>i\<close>; ids on the wire are 32 bits wide.
\<close>

section \<open>The network\<close>

type_synonym world = "int \<Rightarrow> broker"

datatype delivery = NotDelivered | AckLost | Delivered

record network =
  appendNet :: "int \<Rightarrow> delivery"
  invalidateNet :: "int \<Rightarrow> delivery"

definition perfect_net :: network where
  "perfect_net = \<lparr>appendNet = (\<lambda>_. Delivered), invalidateNet = (\<lambda>_. Delivered)\<rparr>"

definition deliver :: "delivery \<Rightarrow> int \<Rightarrow> (broker \<Rightarrow> 'a \<times> broker) \<Rightarrow> world \<Rightarrow> 'a option \<times> world" where
  "deliver d i handler W =
     (case handler (W i) of (a, b') \<Rightarrow>
        (case d of
           NotDelivered \<Rightarrow> (None, W)
         | AckLost \<Rightarrow> (None, W(i := b'))
         | Delivered \<Rightarrow> (Some a, W(i := b'))))"

text \<open>The peers of the leading broker \<open>b\<close>; the replicas' disks work.\<close>

definition net_of :: "network \<Rightarrow> broker \<Rightarrow> world cluster_net" where
  "net_of N b =
     \<lparr>netNodeId = Broker.GetNodeId b, netEpoch = Broker.GetEpoch b,
      netHasClient = (\<lambda>i. GetGrpcClient i b),
      netAppendEntries = (\<lambda>i req. deliver (appendNet N i) i (ReplicationLogHandler good_io req)),
      netInvalidate = (\<lambda>i req. deliver (invalidateNet N i) i (InvalidateLogHandler good_trunc req))\<rparr>"

section \<open>Logs on nodes\<close>

definition node_log :: "broker \<Rightarrow> string \<Rightarrow> int \<Rightarrow> u64 \<Rightarrow> message list \<Rightarrow> bool" where
  "node_log b t i base ms \<longleftrightarrow> broker_ok b \<and> (\<exists>p. get_local (t, i) b = Some p \<and> part_rep p base ms)"

definition node_read :: "broker \<Rightarrow> string \<Rightarrow> int \<Rightarrow> u64 \<Rightarrow> message option" where
  "node_read b t i off = (case get_local (t, i) b of None \<Rightarrow> None | Some p \<Rightarrow> part_read p off)"

lemma node_log_read: "node_log b t i base ms \<Longrightarrow> node_read b t i off = log_at base ms off"
  by (auto simp: node_log_def node_read_def part_read_log_at)

definition wire_id :: "int \<Rightarrow> bool" where
  "wire_id i \<longleftrightarrow> 0 \<le> i \<and> i < 2 ^ 32"

lemma uint_wire_id: "wire_id i \<Longrightarrow> uint (of_int i :: u32) = i"
  by (simp add: wire_id_def uint_word_of_int_eq take_bit_int_eq_self)

text \<open>What a push does to the partition of one node.\<close>

lemma ReplicationLogHandler_node:
  assumes "broker_ok b" and "get_local (t, i) b = Some p" and "wire_id i"
    and "arTopicName req = t" and "arPartitionId req = of_int i"
    and "TryApplyPush good_io (arTargetOffset req) (arTimestamp req) (arPayload req) p = ((oc, mo), p')"
  shows "Success (fst (ReplicationLogHandler good_io req b)) \<longleftrightarrow> oc = PushAccepted"
    and "broker_ok (snd (ReplicationLogHandler good_io req b))"
    and "get_local k (snd (ReplicationLogHandler good_io req b)) = (if k = (t, i) then Some p' else get_local k b)"
proof -
  have lp: "local_partition t i b = Inr p" using assms(2) by (simp add: local_partition_get)
  have h: "snd (ReplicationLogHandler good_io req b) = set_local (t, i) p' b"
    using assms(4-6) lp uint_wire_id [OF assms(3)]
    by (simp add: ReplicationLogHandler_def set_local_def split: PushOutcome.splits)
  show "Success (fst (ReplicationLogHandler good_io req b)) \<longleftrightarrow> oc = PushAccepted"
    using assms(4-6) lp uint_wire_id [OF assms(3)]
    by (simp add: ReplicationLogHandler_def split: PushOutcome.splits)
  show "broker_ok (snd (ReplicationLogHandler good_io req b))"
    unfolding h by (rule locals.put_ok [OF assms(1,2) TrueI])
  show "get_local k (snd (ReplicationLogHandler good_io req b)) = (if k = (t, i) then Some p' else get_local k b)"
    unfolding h by (rule locals.get_put [OF assms(1,2) TrueI])
qed

lemma InvalidateLogHandler_node:
  assumes "broker_ok b" and "get_local (t, i) b = Some p" and "wire_id i"
    and "irTopicName req = t" and "irPartitionId req = of_int i"
    and "InvalidateOffset good_trunc (irTargetOffset req) p = (e, p')"
  shows "broker_ok (snd (InvalidateLogHandler good_trunc req b))"
    and "get_local k (snd (InvalidateLogHandler good_trunc req b)) = (if k = (t, i) then Some p' else get_local k b)"
proof -
  have lp: "local_partition t i b = Inr p" using assms(2) by (simp add: local_partition_get)
  then have h: "snd (InvalidateLogHandler good_trunc req b) = set_local (t, i) p' b"
    using assms(4-6) uint_wire_id [OF assms(3)]
    by (cases e) (auto simp: InvalidateLogHandler_def set_local_def local_partition_def sbind_Inr_conv)
  show "broker_ok (snd (InvalidateLogHandler good_trunc req b))"
    unfolding h by (rule locals.put_ok [OF assms(1,2) TrueI])
  show "get_local k (snd (InvalidateLogHandler good_trunc req b)) = (if k = (t, i) then Some p' else get_local k b)"
    unfolding h by (rule locals.get_put [OF assms(1,2) TrueI])
qed

section \<open>The push to all replicas\<close>

text \<open>The replicas a write calls, and what the call leaves at a node.\<close>

definition called :: "broker \<Rightarrow> replica list \<Rightarrow> int set" where
  "called b rs = Id ` {r \<in> set rs. Id r \<noteq> Broker.GetNodeId b \<and> GetGrpcClient (Id r) b}"

definition after_push :: "network \<Rightarrow> append_request \<Rightarrow> int \<Rightarrow> broker \<Rightarrow> broker" where
  "after_push N req j b = (if appendNet N j = NotDelivered then b else snd (ReplicationLogHandler good_io req b))"

definition push_acks :: "network \<Rightarrow> append_request \<Rightarrow> int \<Rightarrow> broker \<Rightarrow> bool" where
  "push_acks N req j b \<longleftrightarrow> appendNet N j = Delivered \<and> Success (fst (ReplicationLogHandler good_io req b))"

lemma deliver_append:
  "netAppendEntries (net_of N b) j req W =
     ((if appendNet N j = Delivered then Some (fst (ReplicationLogHandler good_io req (W j))) else None),
      W(j := after_push N req j (W j)))"
  by (cases "appendNet N j") (auto simp: net_of_def deliver_def after_push_def split: prod.splits)

lemma push_all_world:
  "distinct (map Id rs) \<Longrightarrow> push_all (net_of N b) req rs W = (pushed, acked, W') \<Longrightarrow>
   set pushed = called b rs \<and> set acked = {j \<in> called b rs. push_acks N req j (W j)}
   \<and> (\<forall>j. W' j = (if j \<in> called b rs then after_push N req j (W j) else W j))"
proof (induction rs arbitrary: W pushed acked W')
  case Nil
  then show ?case by (simp add: called_def)
next
  case (Cons r rs)
  have ids: "netNodeId (net_of N b) = Broker.GetNodeId b" "netHasClient (net_of N b) j = GetGrpcClient j b" for j
    by (simp_all add: net_of_def)
  have d: "distinct (map Id rs)" "Id r \<notin> called b rs" using Cons.prems(1) by (auto simp: called_def)
  show ?case
  proof (cases "Id r = Broker.GetNodeId b \<or> \<not> GetGrpcClient (Id r) b")
    case True
    then have "called b (r # rs) = called b rs" by (auto simp: called_def)
    moreover have "push_all (net_of N b) req rs W = (pushed, acked, W')"
      using True Cons.prems(2) ids by (auto split: if_splits)
    ultimately show ?thesis using Cons.IH [OF d(1)] by simp
  next
    case False
    then have c: "called b (r # rs) = insert (Id r) (called b rs)" by (auto simp: called_def)
    let ?W = "W(Id r := after_push N req (Id r) (W (Id r)))"
    obtain pd ak W2 where rest: "push_all (net_of N b) req rs ?W = (pd, ak, W2)" by (metis prod_cases3)
    have IH: "set pd = called b rs" "set ak = {j \<in> called b rs. push_acks N req j (?W j)}"
      "\<forall>j. W2 j = (if j \<in> called b rs then after_push N req j (?W j) else ?W j)"
      using Cons.IH [OF d(1) rest] by auto
    have r: "pushed = Id r # pd" "W' = W2"
      "acked = (if push_acks N req (Id r) (W (Id r)) then Id r # ak else ak)"
      using Cons.prems(2) False rest by (auto simp: ids deliver_append push_acks_def split: if_splits)
    have "?W j = W j" if "j \<in> called b rs" for j using that d(2) by auto
    then show ?thesis
      using IH d(2) unfolding r c by (auto simp: push_acks_def)
  qed
qed

text \<open>The effect of one push on the log of a node.\<close>

definition new_record :: "u64 \<Rightarrow> i64 \<Rightarrow> bytes \<Rightarrow> message" where
  "new_record off now payload = \<lparr>Offset = off, Timestamp = now, Payload = payload\<rparr>"

lemma node_logE:
  assumes "node_log b t i base ms"
  obtains p where "broker_ok b" "get_local (t, i) b = Some p" "part_rep p base ms"
    "nextOffset p = base + of_nat (length ms)" "unat (nextOffset p) = unat base + length ms"
proof -
  obtain p where p: "broker_ok b" "get_local (t, i) b = Some p" "part_rep p base ms"
    using assms by (auto simp: node_log_def)
  have n: "nextOffset p = base + of_nat (length ms)" using part.rep_nxt [OF p(3)] .
  then show ?thesis using that p log_from_next_unat [OF part.rep_log [OF p(3)]] by simp
qed

lemma push_node_log:
  assumes "node_log b t i base ns" and "wire_id i" and "payload_ok payload" and "unat base + length ns + 1 < 2 ^ 64"
    and "req = append_req net t i off payload now"
  shows "\<exists>ns'. node_log (after_push N req j b) t i base ns'
     \<and> (ns' = ns \<or> ns' = ns @ [new_record off now payload] \<and> off = base + of_nat (length ns))
     \<and> (push_acks N req j b \<longrightarrow> ns' = ns @ [new_record off now payload])"
proof -
  obtain p where p: "broker_ok b" "get_local (t, i) b = Some p" "part_rep p base ns"
    "nextOffset p = base + of_nat (length ns)" "unat (nextOffset p) = unat base + length ns"
    by (rule node_logE [OF assms(1)])
  obtain oc mo p' where t: "TryApplyPush good_io off now payload p = ((oc, mo), p')" by (metis prod.collapse)
  have rq: "arTopicName req = t" "arPartitionId req = of_int i"
    "TryApplyPush good_io (arTargetOffset req) (arTimestamp req) (arPayload req) p = ((oc, mo), p')"
    using assms(5) t by (simp_all add: append_req_def)
  note h = ReplicationLogHandler_node [OF p(1,2) assms(2) rq]
  obtain ns' where ns': "ns' \<in> log_outcomes base (OpTryApplyPush off now payload) (syncState p) ns"
    "part_rep p' base ns'" "oc = PushAccepted \<longleftrightarrow> syncState p = StateInSync \<and> off = nextOffset p"
    using TryApplyPush_rep [OF p(3) assms(3), of off now] p(5) assms(4) t by auto
  have out: "ns' = (if oc = PushAccepted then ns @ [new_record off now payload] else ns)"
    using ns'(1,3) p(4) by (auto simp: new_record_def)
  have log: "node_log (snd (ReplicationLogHandler good_io req b)) t i base ns'"
    using h(2,3) ns'(2) by (simp add: node_log_def)
  show ?thesis
  proof (cases "appendNet N j = NotDelivered")
    case True
    with assms(1) show ?thesis by (intro exI [of _ ns]) (simp add: after_push_def push_acks_def)
  next
    case False
    with log out ns'(3) p(4) h(1) show ?thesis
      by (intro exI [of _ ns']) (auto simp: after_push_def push_acks_def)
  qed
qed

lemma gap_push_node:
  assumes "node_log b t i base ns" and "wire_id i" and "off \<noteq> base + of_nat (length ns)"
    and "req = append_req net t i off payload now"
  shows "node_log (after_push N req j b) t i base ns \<and> \<not> push_acks N req j b"
proof -
  obtain p where p: "broker_ok b" "get_local (t, i) b = Some p" "part_rep p base ns"
    "nextOffset p = base + of_nat (length ns)" "unat (nextOffset p) = unat base + length ns"
    by (rule node_logE [OF assms(1)])
  obtain oc mo p' where t: "TryApplyPush good_io off now payload p = ((oc, mo), p')" by (metis prod.collapse)
  have same: "p' = p" "oc \<noteq> PushAccepted"
    using t assms(3) p(4) by (auto simp: TryApplyPush_def split: if_splits)
  have rq: "arTopicName req = t" "arPartitionId req = of_int i"
    "TryApplyPush good_io (arTargetOffset req) (arTimestamp req) (arPayload req) p = ((oc, mo), p')"
    using assms(4) t by (simp_all add: append_req_def)
  note h = ReplicationLogHandler_node [OF p(1,2) assms(2) rq]
  show ?thesis
    using assms(1) h same p(3) by (auto simp: node_log_def after_push_def push_acks_def)
qed

section \<open>The replicated write\<close>

lemma length_filter_less_all: "length (filter P xs) < length xs \<longleftrightarrow> (\<exists>x \<in> set xs. \<not> P x)"
  by (induction xs) (auto simp: less_Suc_eq_le)

lemma isr_all_acked:
  "\<not> isrAcked l acked rs < isrTotal l rs \<longleftrightarrow> (\<forall>r \<in> set rs. Id r \<noteq> l \<and> InSync r \<longrightarrow> Id r \<in> set acked)"
  using length_filter_less_all [of "\<lambda>r. Id r \<in> set acked" "isr_others l rs"]
  by (auto simp: isrAcked_def isrTotal_def isr_others_def)

lemma GetPartition_put: "GetPartition j (put_partition i p tp) = (if j = i then Inr p else GetPartition j tp)"
  by (simp add: GetPartition_def put_partition_def update_conv')

lemma produce_replicate_Inr:
  assumes "produce_replicate (net_of N b) req rs W = (r, W')" and "distinct (map Id rs)"
  shows "(\<exists>pushed. r = Inr pushed) \<longleftrightarrow> (\<forall>x \<in> set rs. Id x \<noteq> Broker.GetNodeId b \<and> InSync x \<longrightarrow>
        Id x \<in> called b rs \<and> push_acks N req (Id x) (W (Id x)))"
    and "r = Inr pushed \<Longrightarrow> set pushed = called b rs"
    and "(\<exists>pushed. r = Inr pushed) \<or> (\<exists>a n. r = Inl (EQuorumBroken a n))"
    and "W' j = (if j \<in> called b rs then after_push N req j (W j) else W j)"
proof -
  obtain pd ak W2 where p: "push_all (net_of N b) req rs W = (pd, ak, W2)" by (metis prod_cases3)
  note w = push_all_world [OF assms(2) p]
  have id: "netNodeId (net_of N b) = Broker.GetNodeId b" by (simp add: net_of_def)
  have r: "r = (if isrAcked (Broker.GetNodeId b) ak rs < isrTotal (Broker.GetNodeId b) rs
      then Inl (EQuorumBroken (isrAcked (Broker.GetNodeId b) ak rs) (isrTotal (Broker.GetNodeId b) rs)) else Inr pd)" "W' = W2"
    using assms(1) p by (auto simp: produce_replicate_def id split: if_splits)
  show "(\<exists>pushed. r = Inr pushed) \<longleftrightarrow> (\<forall>x \<in> set rs. Id x \<noteq> Broker.GetNodeId b \<and> InSync x \<longrightarrow>
        Id x \<in> called b rs \<and> push_acks N req (Id x) (W (Id x)))"
    using isr_all_acked [of "Broker.GetNodeId b" ak rs] w r(1) by auto
  show "r = Inr pushed \<Longrightarrow> set pushed = called b rs" using w r(1) by (auto split: if_splits)
  show "(\<exists>pushed. r = Inr pushed) \<or> (\<exists>a n. r = Inl (EQuorumBroken a n))" using r(1) by auto
  show "W' j = (if j \<in> called b rs then after_push N req j (W j) else W j)" using w r(2) by simp
qed

text \<open>The leader's side of one write that reached its commit.\<close>

lemma produce_commit_good:
  assumes "GetPartition i tp = Inr p" and "part_rep p base ms" and "payload_ok payload"
    and "unat base + length ms + 1 < 2 ^ 64"
  shows "\<exists>p'. produce_commit net good_io i (nextOffset p) now payload pushed tp w
        = (Inr (nextOffset p), put_partition i p' tp, w)
     \<and> part_rep p' base (ms @ [new_record (nextOffset p) now payload])
     \<and> replicas p' = replicas p \<and> nextOffset p' = nextOffset p + 1"
proof -
  let ?m = "new_record (nextOffset p) now payload"
  note ok = part_okD [OF part_rep_okD [OF assms(2)]]
  have l: "log_from base (ms @ [?m])" using ok(1,3) assms(3,4) by (simp add: log_from_snoc new_record_def)
  obtain p' where p': "AppendEntry good_io (Offset ?m) (Timestamp ?m) (Payload ?m) p = ((Offset ?m, None), p')"
    "part_rep p' base (ms @ [?m])" "replicas p' = replicas p"
    using AppendEntry_rep [OF assms(2) l] by blast
  have "nextOffset p' = nextOffset p + 1"
    using part.rep_nxt [OF p'(2)] ok(3) by (simp add: add_one_of_nat del: of_nat_Suc)
  with p' assms(1) show ?thesis by (auto simp: produce_commit_def new_record_def)
qed

lemma ReplicateAndAppend_steps:
  assumes "GetPartition i tp = Inr p"
    and "ReplicateAndAppend net io now i payload tp w = (r, tp', w')"
    and "req = append_req net (Name tp) i (nextOffset p) payload now"
  obtains e where "produce_replicate net req (replicas p) w = (Inl e, w')" "r = Inl e" "tp' = tp"
  | pushed w1 where "produce_replicate net req (replicas p) w = (Inr pushed, w1)"
      "produce_commit net io i (nextOffset p) now payload pushed tp w1 = (r, tp', w')"
  using assms by (auto simp: ReplicateAndAppend_def produce_prepare_def GetReplicas_def GetNextOffset_def
      split: prod.splits sum.splits)

section \<open>A small cluster\<close>

text \<open>Leader 1 and replicas 2 and 3 of partition 0 of a topic, all with an empty log and in sync.\<close>

definition sample_replicas :: "replica list" where
  "sample_replicas = map (\<lambda>j. \<lparr>Id = j, BrokerID = [], InSync = True\<rparr>) [1, 2, 3]"

definition sample_partition :: "replica list \<Rightarrow> partition" where
  "sample_partition rs = (fresh_partition 0)\<lparr>replicas := rs, syncState := StateInSync\<rparr>"

definition sample_topic :: "replica list \<Rightarrow> topic_processor" where
  "sample_topic rs = \<lparr>id_t = 0, Name = ''orders'', partitions = [(0, sample_partition rs)], tdone = False\<rparr>"

definition sample_node :: "int \<Rightarrow> broker" where
  "sample_node j = (NewBroker j False)\<lparr>peers := [(1, True), (2, True), (3, True)],
     bpool := \<lparr>topicProcessor = [(''orders'', 0)], processors = [Some (sample_topic sample_replicas)],
       nextId = 1, pooldone = False\<rparr>\<rparr>"

lemma sample_partition_rep: "part_rep (sample_partition rs) 0 []"
  by (rule part_rep_other [OF fresh_partition_rep [of 0]]) (simp_all add: sample_partition_def)

lemma sample_partition_fields:
  "nextOffset (sample_partition rs) = 0" "replicas (sample_partition rs) = rs"
  "syncState (sample_partition rs) = StateInSync"
  by (simp_all add: sample_partition_def fresh_partition_next)

lemma sample_topic_get: "GetPartition 0 (sample_topic rs) = Inr (sample_partition rs)"
  and sample_topic_name: "Name (sample_topic rs) = ''orders''"
  by (simp_all add: GetPartition_def sample_topic_def)

lemma sample_node_get:
  "broker_ok (sample_node j)" "get_local (''orders'', 0) (sample_node j) = Some (sample_partition sample_replicas)"
  "Broker.GetNodeId (sample_node j) = j"
  "GetGrpcClient k (sample_node j) \<longleftrightarrow> k \<in> {1, 2, 3}"
  by (simp_all add: sample_node_def NewBroker_def broker_ok_def pool_ok_def sample_topic_name get_local_def
      local_partition_def GetTopicProcessor_def processor_at_def sample_topic_get Broker.GetNodeId_def
      GetGrpcClient_def sample_topic_def GetPartition_def)

lemma sample_node_log: "node_log (sample_node j) ''orders'' 0 0 []"
  using sample_node_get sample_partition_rep by (auto simp: node_log_def)

lemma sample_ids: "distinct (map Id sample_replicas)" "wire_id 0"
  by (simp_all add: sample_replicas_def wire_id_def)

text \<open>C1. A replicated write that succeeds. It returns the leader's next offset; the leader's log has
  the record at its end; every other in-sync replica returns that record, with the leader's timestamp,
  at that offset; and a replica that held the leader's log holds the extended log. This is so
  whatever the network does to the calls, since only acknowledged ones count.\<close>

theorem replicated_write_durable:
  assumes "GetPartition i tp = Inr p" and "part_rep p base ms" and "distinct (map Id (replicas p))"
    and "wire_id i" and "payload_ok payload" and "unat base + length ms + 1 < 2 ^ 64"
    and isr: "\<forall>r \<in> set (replicas p). InSync r \<and> Id r \<noteq> Broker.GetNodeId b \<longrightarrow>
      (\<exists>bs ns. node_log (W (Id r)) (Name tp) i bs ns \<and> unat bs + length ns + 1 < 2 ^ 64)"
    and run: "ReplicateAndAppend (net_of N b) good_io now i payload tp W = (Inr off, tp', W')"
  shows "off = nextOffset p
     \<and> (\<exists>p'. GetPartition i tp' = Inr p' \<and> part_rep p' base (ms @ [new_record off now payload]))
     \<and> (\<forall>r \<in> set (replicas p). InSync r \<and> Id r \<noteq> Broker.GetNodeId b \<longrightarrow>
          node_read (W' (Id r)) (Name tp) i off = Some (new_record off now payload)
          \<and> (node_log (W (Id r)) (Name tp) i base ms \<longrightarrow>
               node_log (W' (Id r)) (Name tp) i base (ms @ [new_record off now payload])))"
proof -
  let ?req = "append_req (net_of N b) (Name tp) i (nextOffset p) payload now"
  obtain pushed W1 where rep: "produce_replicate (net_of N b) ?req (replicas p) W = (Inr pushed, W1)"
    and com: "produce_commit (net_of N b) good_io i (nextOffset p) now payload pushed tp W1 = (Inr off, tp', W')"
    using ReplicateAndAppend_steps [OF assms(1) run refl] by (metis Inl_Inr_False)
  obtain p' where p': "off = nextOffset p" "tp' = put_partition i p' tp" "W' = W1"
    "part_rep p' base (ms @ [new_record (nextOffset p) now payload])"
    using produce_commit_good [OF assms(1,2,5,6), of "net_of N b" now pushed W1] com by auto
  note all = produce_replicate_Inr [OF rep assms(3)]
  have "node_read (W' (Id r)) (Name tp) i off = Some (new_record off now payload)
      \<and> (node_log (W (Id r)) (Name tp) i base ms \<longrightarrow> node_log (W' (Id r)) (Name tp) i base (ms @ [new_record off now payload]))"
    if r: "r \<in> set (replicas p)" "InSync r" "Id r \<noteq> Broker.GetNodeId b" for r
  proof -
    have c: "Id r \<in> called b (replicas p)" "push_acks N ?req (Id r) (W (Id r))" using all(1) r by auto
    have W': "W' (Id r) = after_push N ?req (Id r) (W (Id r))" using all(4) c(1) p'(3) by simp
    have ext: "node_log (W' (Id r)) (Name tp) i bs (ns @ [new_record off now payload]) \<and> off = bs + of_nat (length ns)"
      if "node_log (W (Id r)) (Name tp) i bs ns" "unat bs + length ns + 1 < 2 ^ 64" for bs ns
      using push_node_log [OF that(1) assms(4,5) that(2) refl, where N = N and j = "Id r"] c(2) p'(1) W' by auto
    obtain bs ns where n: "node_log (W (Id r)) (Name tp) i bs ns" "unat bs + length ns + 1 < 2 ^ 64"
      using isr r by blast
    have x: "node_log (W' (Id r)) (Name tp) i bs (ns @ [new_record off now payload])" "off = bs + of_nat (length ns)"
      using ext [OF n] by auto
    have "log_from bs (ns @ [new_record off now payload])"
      using x(1) part.rep_log by (auto simp: node_log_def)
    then have "node_read (W' (Id r)) (Name tp) i off = Some (new_record off now payload)"
      using node_log_read [OF x(1), of off] log_at_nth [of bs "ns @ [new_record off now payload]" "length ns"] x(2) by simp
    with ext assms(6) show ?thesis by blast
  qed
  with p' show ?thesis by (auto simp: GetPartition_put)
qed

lemma sample_replica_ids: "r \<in> set sample_replicas \<Longrightarrow> Id r = 1 \<or> Id r = 2 \<or> Id r = 3"
  by (auto simp: sample_replicas_def)

lemma sample_called: "j \<in> called (sample_node 1) sample_replicas \<longleftrightarrow> j = 2 \<or> j = 3"
  by (fastforce simp: called_def sample_node_get sample_replicas_def image_iff)

lemma sample_push_succeeds:
  "\<exists>pushed W1. produce_replicate (net_of perfect_net (sample_node 1))
     (append_req (net_of perfect_net (sample_node 1)) ''orders'' 0 0 [1] 7) sample_replicas sample_node = (Inr pushed, W1)"
proof -
  let ?req = "append_req (net_of perfect_net (sample_node 1)) ''orders'' 0 0 [1] 7"
  obtain r W1 where rep: "produce_replicate (net_of perfect_net (sample_node 1)) ?req sample_replicas sample_node = (r, W1)"
    by (metis prod.collapse)
  have "log_from 0 ([] @ [new_record 0 7 [1]])" by (simp add: new_record_def log_from_Cons payload_ok_def)
  from appendLocked_rep [OF sample_partition_rep [of sample_replicas] this]
  obtain p' where p': "TryApplyPush good_io 0 7 [1] (sample_partition sample_replicas) = ((PushAccepted, 0), p')"
    by (auto simp: TryApplyPush_def sample_partition_fields new_record_def)
  have rq: "arTopicName ?req = ''orders''" "arPartitionId ?req = of_int 0"
    "TryApplyPush good_io (arTargetOffset ?req) (arTimestamp ?req) (arPayload ?req) (sample_partition sample_replicas)
      = ((PushAccepted, 0), p')"
    using p' by (simp_all add: append_req_def)
  have "push_acks perfect_net ?req j (sample_node j)" for j
    using ReplicationLogHandler_node(1) [OF sample_node_get(1,2) sample_ids(2) rq, of j]
    by (simp add: push_acks_def perfect_net_def)
  then obtain pushed where "r = Inr pushed"
    using produce_replicate_Inr(1) [OF rep sample_ids(1)] sample_replica_ids
    by (auto simp: sample_called sample_node_get)
  with rep show ?thesis by blast
qed

lemma sample_write:
  "\<exists>pushed W1. ReplicateAndAppend (net_of perfect_net (sample_node 1)) io 7 0 [1] (sample_topic sample_replicas) sample_node
     = produce_commit (net_of perfect_net (sample_node 1)) io 0 0 7 [1] pushed (sample_topic sample_replicas) W1"
proof -
  obtain pushed W1 where "produce_replicate (net_of perfect_net (sample_node 1))
     (append_req (net_of perfect_net (sample_node 1)) ''orders'' 0 0 [1] 7) sample_replicas sample_node = (Inr pushed, W1)"
    using sample_push_succeeds by blast
  then have "ReplicateAndAppend (net_of perfect_net (sample_node 1)) io 7 0 [1] (sample_topic sample_replicas) sample_node
     = produce_commit (net_of perfect_net (sample_node 1)) io 0 0 7 [1] pushed (sample_topic sample_replicas) W1"
    by (simp add: ReplicateAndAppend_def produce_prepare_def sample_topic_get GetReplicas_def GetNextOffset_def
        sample_partition_fields sample_topic_name)
  then show ?thesis by blast
qed

lemma sample_write_succeeds:
  "\<exists>tp' W'. ReplicateAndAppend (net_of perfect_net (sample_node 1)) good_io 7 0 [1] (sample_topic sample_replicas) sample_node
     = (Inr 0, tp', W')"
  using sample_write [of good_io] produce_commit_good [OF sample_topic_get sample_partition_rep, of "[1]"]
  by (fastforce simp: payload_ok_def sample_partition_fields)

theorem replicated_write_durable_witness:
  "\<exists>tp' W'. ReplicateAndAppend (net_of perfect_net (sample_node 1)) good_io 7 0 [1] (sample_topic sample_replicas) sample_node
       = (Inr 0, tp', W')
     \<and> node_read (W' 2) ''orders'' 0 0 = Some (new_record 0 7 [1])"
proof -
  obtain tp' W' where r: "ReplicateAndAppend (net_of perfect_net (sample_node 1)) good_io 7 0 [1] (sample_topic sample_replicas) sample_node
     = (Inr 0, tp', W')"
    using sample_write_succeeds by blast
  have "\<forall>r \<in> set sample_replicas. InSync r \<and> Id r \<noteq> Broker.GetNodeId (sample_node 1) \<longrightarrow>
      (\<exists>bs ns. node_log (sample_node (Id r)) (Name (sample_topic sample_replicas)) 0 bs ns \<and> unat bs + length ns + 1 < 2 ^ 64)"
    using sample_node_log by (fastforce simp: sample_topic_name intro: exI [of _ 0] exI [of _ "[]"])
  then show ?thesis
    using replicated_write_durable [OF sample_topic_get sample_partition_rep _ sample_ids(2) _ _ _ r]
      sample_ids(1) r
    by (auto simp: sample_partition_fields sample_topic_name payload_ok_def sample_node_get sample_replicas_def)
qed


text \<open>A diverged in-sync replica makes every later write fail.\<close>

lemma diverged_replica_blocks:
  assumes "GetPartition i tp = Inr p" and "distinct (map Id (replicas p))" and "wire_id i"
    and r: "r \<in> set (replicas p)" "InSync r" "Id r \<noteq> Broker.GetNodeId b"
    and "node_log (W (Id r)) (Name tp) i bs ns" and "bs + of_nat (length ns) \<noteq> nextOffset p"
  shows "\<exists>a n W'. ReplicateAndAppend (net_of N b) io now i payload tp W = (Inl (EQuorumBroken a n), tp, W')
     \<and> node_log (W' (Id r)) (Name tp) i bs ns"
proof -
  let ?req = "append_req (net_of N b) (Name tp) i (nextOffset p) payload now"
  obtain q W1 where rep: "produce_replicate (net_of N b) ?req (replicas p) W = (q, W1)" by (metis prod.collapse)
  note all = produce_replicate_Inr [OF rep assms(2)]
  have g: "node_log (after_push N ?req (Id r) (W (Id r))) (Name tp) i bs ns" "\<not> push_acks N ?req (Id r) (W (Id r))"
    using gap_push_node [OF assms(7,3) assms(8) [symmetric] refl] by blast+
  then obtain a n where "q = Inl (EQuorumBroken a n)" using all(1,3) r by blast
  moreover have "node_log (W1 (Id r)) (Name tp) i bs ns" using all(4) g(1) assms(7) by simp
  ultimately show ?thesis
    using rep assms(1)
    by (simp add: ReplicateAndAppend_def produce_prepare_def GetReplicas_def GetNextOffset_def)
qed

text \<open>Any number of later writes, each with its own network, payload and time.\<close>

fun produce_all :: "broker \<Rightarrow> int \<Rightarrow> (network \<times> lock_io \<times> i64 \<times> bytes) list \<Rightarrow> topic_processor \<Rightarrow> world
    \<Rightarrow> (go_error + u64) list \<times> topic_processor \<times> world" where
  "produce_all b i [] tp W = ([], tp, W)"
| "produce_all b i ((N, io, now, payload) # xs) tp W =
     (case ReplicateAndAppend (net_of N b) io now i payload tp W of
        (r, tp1, W1) \<Rightarrow> (case produce_all b i xs tp1 W1 of (rs, tp2, W2) \<Rightarrow> (r # rs, tp2, W2)))"

lemma diverged_replica_blocks_all:
  assumes "GetPartition i tp = Inr p" and "distinct (map Id (replicas p))" and "wire_id i"
    and "r \<in> set (replicas p)" "InSync r" "Id r \<noteq> Broker.GetNodeId b"
    and "node_log (W (Id r)) (Name tp) i bs ns" and "bs + of_nat (length ns) \<noteq> nextOffset p"
  shows "\<exists>rs W'. produce_all b i xs tp W = (rs, tp, W') \<and> (\<forall>x \<in> set rs. \<exists>a n. x = Inl (EQuorumBroken a n))"
  using assms(7)
proof (induction xs arbitrary: W)
  case (Cons x xs)
  obtain N io now payload where x: "x = (N, io, now, payload)" by (cases x)
  obtain a n W1 where 1: "ReplicateAndAppend (net_of N b) io now i payload tp W = (Inl (EQuorumBroken a n), tp, W1)"
    "node_log (W1 (Id r)) (Name tp) i bs ns"
    using diverged_replica_blocks [where W = W, OF assms(1-6) Cons.prems assms(8)] by blast
  from Cons.IH [of W1, OF 1(2)] 1(1) x show ?case by auto
qed simp

text \<open>C22. A write that misses its quorum leaves its trace. If one in-sync replica applied the push and
  another did not acknowledge, the write fails and the leader's log is unchanged, but nothing takes
  the record back from the replica that applied it: from then on that replica is one record ahead, and every
  later write, with any payload and over any network, fails its quorum too.\<close>

theorem quorum_failure_blocks_partition:
  assumes "GetPartition i tp = Inr p" and "distinct (map Id (replicas p))" and "wire_id i"
    and "payload_ok payload" and "unat base + length ms + 1 < 2 ^ 64" and "part_rep p base ms"
    and "r1 \<in> set (replicas p)" "InSync r1" "Id r1 \<noteq> Broker.GetNodeId b" "GetGrpcClient (Id r1) b"
    and "get_local (Name tp, i) (W (Id r1)) = Some p1" "broker_ok (W (Id r1))" "part_rep p1 base ms"
    and "syncState p1 = StateInSync" and "appendNet N (Id r1) \<noteq> NotDelivered"
    and "r2 \<in> set (replicas p)" "InSync r2" "Id r2 \<noteq> Broker.GetNodeId b"
    and "appendNet N (Id r2) \<noteq> Delivered"
  shows "\<exists>a n W'. ReplicateAndAppend (net_of N b) io now i payload tp W = (Inl (EQuorumBroken a n), tp, W')
     \<and> node_log (W' (Id r1)) (Name tp) i base (ms @ [new_record (nextOffset p) now payload])
     \<and> (\<exists>rs W2. produce_all b i later tp W' = (rs, tp, W2) \<and> (\<forall>x \<in> set rs. \<exists>a n. x = Inl (EQuorumBroken a n)))"
proof -
  let ?req = "append_req (net_of N b) (Name tp) i (nextOffset p) payload now"
  obtain q W1 where rep: "produce_replicate (net_of N b) ?req (replicas p) W = (q, W1)" by (metis prod.collapse)
  note all = produce_replicate_Inr [OF rep assms(2)]
  have n: "nextOffset p = base + of_nat (length ms)" "nextOffset p1 = nextOffset p"
    using part.rep_nxt [OF assms(6)] part.rep_nxt [OF assms(13)] by auto
  have "\<not> push_acks N ?req (Id r2) (W (Id r2))" using assms(19) by (simp add: push_acks_def)
  then obtain a k where q: "q = Inl (EQuorumBroken a k)" using all(1,3) assms(16-18) by blast
  have c: "Id r1 \<in> called b (replicas p)" using assms(7,9,10) by (auto simp: called_def)
  let ?m = "new_record (nextOffset p) now payload"
  have "log_from base (ms @ [?m])"
    using part.rep_log [OF assms(6)] n(1) assms(4,5) by (simp add: log_from_snoc new_record_def)
  from appendLocked_rep [OF assms(13) this]
  obtain p1' where p1': "TryApplyPush good_io (nextOffset p) now payload p1 = ((PushAccepted, nextOffset p), p1')"
    "part_rep p1' base (ms @ [?m])"
    using assms(14) n(2) by (auto simp: TryApplyPush_def new_record_def)
  have rq: "arTopicName ?req = Name tp" "arPartitionId ?req = of_int i"
    "TryApplyPush good_io (arTargetOffset ?req) (arTimestamp ?req) (arPayload ?req) p1 = ((PushAccepted, nextOffset p), p1')"
    using p1'(1) by (simp_all add: append_req_def)
  have l1: "node_log (W1 (Id r1)) (Name tp) i base (ms @ [?m])"
    using ReplicationLogHandler_node [OF assms(12,11,3) rq] p1'(2) all(4) c assms(15)
    by (simp add: node_log_def after_push_def)
  have "base + of_nat (length (ms @ [?m])) \<noteq> nextOffset p" using n(1) by simp
  from diverged_replica_blocks_all [where W = W1, OF assms(1-3,7-9) l1 this, of later]
  show ?thesis
    using rep assms(1) q l1
    by (simp add: ReplicateAndAppend_def produce_prepare_def GetReplicas_def GetNextOffset_def)
qed

theorem quorum_failure_blocks_partition_witness:
  "\<exists>a n W'. ReplicateAndAppend (net_of (perfect_net\<lparr>appendNet := (\<lambda>j. if j = 3 then NotDelivered else Delivered)\<rparr>) (sample_node 1))
       good_io 7 0 [1] (sample_topic sample_replicas) sample_node = (Inl (EQuorumBroken a n), sample_topic sample_replicas, W')
     \<and> node_log (W' 2) ''orders'' 0 0 ([] @ [new_record 0 7 [1]])"
  using quorum_failure_blocks_partition [OF sample_topic_get [of sample_replicas] _ sample_ids(2) _ _ sample_partition_rep,
      where W = sample_node and b = "sample_node 1" and ?r1.0 = "\<lparr>Id = 2, BrokerID = [], InSync = True\<rparr>"
        and ?r2.0 = "\<lparr>Id = 3, BrokerID = [], InSync = True\<rparr>" and payload = "[1]" and ?p1.0 = "sample_partition sample_replicas"
        and N = "perfect_net\<lparr>appendNet := (\<lambda>j. if j = 3 then NotDelivered else Delivered)\<rparr>"
        and now = 7 and io = good_io and later = "[]"]
    sample_ids(1) sample_partition_rep
  by (simp add: sample_partition_fields sample_topic_name payload_ok_def sample_node_get) (auto simp: sample_replicas_def)


section \<open>Rolling a write back\<close>

lemma deliver_invalidate:
  "snd (netInvalidate (net_of N b) j req W) =
     (if invalidateNet N j = NotDelivered then W else W(j := snd (InvalidateLogHandler good_trunc req (W j))))"
  by (cases "invalidateNet N j") (auto simp: net_of_def deliver_def split: prod.splits)

lemma invalidateReplicas_world:
  "j \<notin> set ts \<Longrightarrow> invalidateReplicas (net_of N b) req ts W j = W j"
  by (induction ts arbitrary: W) (auto simp: deliver_invalidate)

text \<open>A rollback that reaches a node leaves the log it had before the push.\<close>

lemma invalidate_node_log:
  assumes "node_log b t i base ns'" and "wire_id i" and "req = invalidate_req net t i off"
    and "ns' = ns \<and> unat base + length ns \<le> unat off
      \<or> ns' = ns @ [m] \<and> off = base + of_nat (length ns)
        \<and> (\<forall>p. get_local (t, i) b = Some p \<longrightarrow> cuttable p)"
  shows "node_log (snd (InvalidateLogHandler good_trunc req b)) t i base ns"
proof -
  obtain p where p: "broker_ok b" "get_local (t, i) b = Some p" "part_rep p base ns'"
    "nextOffset p = base + of_nat (length ns')" "unat (nextOffset p) = unat base + length ns'"
    by (rule node_logE [OF assms(1)])
  have act: "state p = PartitionActive" using part_okD(5) [OF part_rep_okD [OF p(3)]] .
  obtain e p' where t: "InvalidateOffset good_trunc off p = (e, p')" by (metis prod.collapse)
  have "part_rep p' base ns"
    using assms(4)
  proof
    assume "ns' = ns \<and> unat base + length ns \<le> unat off"
    with p(3,5) act t show ?thesis by (auto simp: InvalidateOffset_def word_le_nat_alt)
  next
    assume a: "ns' = ns @ [m] \<and> off = base + of_nat (length ns) \<and> (\<forall>p. get_local (t, i) b = Some p \<longrightarrow> cuttable p)"
    then have "off = nextOffset p - 1" "ns' \<noteq> []" "cuttable p" using p(2,4) by auto
    then show ?thesis using InvalidateOffset_rep [OF p(3)] t a by auto
  qed
  moreover have "irTopicName req = t" "irPartitionId req = of_int i"
    "InvalidateOffset good_trunc (irTargetOffset req) p = (e, p')"
    using assms(3) t by (simp_all add: invalidate_req_def)
  ultimately show ?thesis
    using InvalidateLogHandler_node [OF p(1,2) assms(2)] by (simp add: node_log_def)
qed

text \<open>After a push that added a record, that record is in the active segment of the node.\<close>

lemma push_node_cuttable:
  assumes "node_log b t i base ns" and "wire_id i" and "payload_ok payload" and "unat base + length ns + 1 < 2 ^ 64"
    and "req = append_req net t i off payload now"
    and "node_log (after_push N req j b) t i base (ns @ [m])"
    and "get_local (t, i) (after_push N req j b) = Some p'"
  shows "cuttable p'"
proof -
  obtain p where p: "broker_ok b" "get_local (t, i) b = Some p" "part_rep p base ns"
    "nextOffset p = base + of_nat (length ns)" "unat (nextOffset p) = unat base + length ns"
    by (rule node_logE [OF assms(1)])
  obtain oc mo q where t: "TryApplyPush good_io off now payload p = ((oc, mo), q)" by (metis prod.collapse)
  have rq: "arTopicName req = t" "arPartitionId req = of_int i"
    "TryApplyPush good_io (arTargetOffset req) (arTimestamp req) (arPayload req) p = ((oc, mo), q)"
    using assms(5) t by (simp_all add: append_req_def)
  note h = ReplicationLogHandler_node [OF p(1,2) assms(2) rq]
  have rep': "part_rep p' base (ns @ [m])" using assms(6,7) by (auto simp: node_log_def)
  then have "p' \<noteq> p" using part.rep_unique [OF p(3)] by fastforce
  then have q: "p' = q" "q \<noteq> p"
    using assms(7) h(3) p(2) by (auto simp: after_push_def split: if_splits)
  then have st: "syncState p = StateInSync" "off = nextOffset p"
    using t by (auto simp: TryApplyPush_def split: if_splits)
  have "log_from base (ns @ [new_record off now payload])"
    using part.rep_log [OF p(3)] p(4) st(2) assms(3,4) by (simp add: log_from_snoc new_record_def)
  from appendLocked_rep [OF p(3) this] show ?thesis
    using t st q by (auto simp: TryApplyPush_def new_record_def)
qed

lemma invalidateReplicas_node:
  assumes "node_log (W j) t i base ns'" and "wire_id i" and "req = invalidate_req net t i off"
    and "ns' = ns \<and> unat base + length ns \<le> unat off
      \<or> ns' = ns @ [m] \<and> off = base + of_nat (length ns)
        \<and> (\<forall>p. get_local (t, i) (W j) = Some p \<longrightarrow> cuttable p)"
    and "j \<in> set ts" and "invalidateNet N j \<noteq> NotDelivered" and "unat base + length ns < 2 ^ 64"
  shows "node_log (invalidateReplicas (net_of N b) req ts W j) t i base ns"
  using assms(1,4,5)
proof (induction ts arbitrary: W ns')
  case (Cons x ts)
  let ?W = "snd (netInvalidate (net_of N b) x req W)"
  have step: "invalidateReplicas (net_of N b) req (x # ts) W = invalidateReplicas (net_of N b) req ts ?W" by simp
  show ?case
  proof (cases "x = j")
    case True
    have 1: "node_log (?W j) t i base ns"
      using invalidate_node_log [OF Cons.prems(1) assms(2,3) Cons.prems(2)] True assms(6)
      by (simp add: deliver_invalidate)
    have u: "unat (base + of_nat (length ns)) = unat base + length ns" by (rule unat_add_of_nat [OF assms(7)])
    have 2: "ns = ns \<and> unat base + length ns \<le> unat off" using Cons.prems(2) u by auto
    show ?thesis
    proof (cases "j \<in> set ts")
      case True
      then show ?thesis unfolding step using Cons.IH [of ?W, OF 1] 2 by blast
    next
      case False
      then show ?thesis unfolding step using 1 invalidateReplicas_world by simp
    qed
  next
    case False
    then have "?W j = W j" by (simp add: deliver_invalidate)
    with False Cons.IH [of ?W] Cons.prems show ?thesis unfolding step by simp
  qed
qed simp

text \<open>C23. A write whose replicas all acknowledged but whose commit on the leader's disk failed. Every
  replica that was called and that the rollback command reaches ends with exactly the log it had
  before the write, also when the push did not arrive, was refused, or its acknowledgement was
  lost, provided it was not ahead of the leader.\<close>

theorem commit_failure_rolled_back:
  assumes "GetPartition i tp = Inr p" and "distinct (map Id (replicas p))" and "wire_id i" and "payload_ok payload"
    and "ReplicateAndAppend (net_of N b) io now i payload tp W = (Inl (ELeaderCommit e), tp', W')"
    and "j \<in> called b (replicas p)" and "invalidateNet N j \<noteq> NotDelivered"
    and "node_log (W j) (Name tp) i bs ns" and "unat bs + length ns \<le> unat (nextOffset p)"
    and "unat bs + length ns + 1 < 2 ^ 64"
  shows "node_log (W' j) (Name tp) i bs ns \<and> node_read (W' j) (Name tp) i = node_read (W j) (Name tp) i"
proof -
  let ?req = "append_req (net_of N b) (Name tp) i (nextOffset p) payload now"
  obtain pushed W1 where rep: "produce_replicate (net_of N b) ?req (replicas p) W = (Inr pushed, W1)"
    and com: "produce_commit (net_of N b) io i (nextOffset p) now payload pushed tp W1 = (Inl (ELeaderCommit e), tp', W')"
  proof (rule ReplicateAndAppend_steps [OF assms(1,5) refl])
    fix x assume "produce_replicate (net_of N b) ?req (replicas p) W = (Inl x, W')" "Inl (ELeaderCommit e) = Inl x"
    then have False using produce_replicate_Inr(3) [OF _ assms(2)] by fastforce
    then show thesis ..
  qed
  note all = produce_replicate_Inr [OF rep assms(2)]
  have W': "W' = invalidateReplicas (net_of N b) (invalidate_req (net_of N b) (Name tp) i (nextOffset p)) pushed W1"
    using com assms(1) by (auto simp: produce_commit_def split: prod.splits option.splits)
  have j: "j \<in> set pushed" using all(2) assms(6) by simp
  have W1: "W1 j = after_push N ?req j (W j)" using all(4) assms(6) by simp
  obtain ns' where ns': "node_log (W1 j) (Name tp) i bs ns'"
    "ns' = ns \<or> ns' = ns @ [new_record (nextOffset p) now payload] \<and> nextOffset p = bs + of_nat (length ns)"
    using push_node_log [OF assms(8,3,4,10) refl, where N = N and j = j] W1 by metis
  have "ns' = ns \<and> unat bs + length ns \<le> unat (nextOffset p)
      \<or> ns' = ns @ [new_record (nextOffset p) now payload] \<and> nextOffset p = bs + of_nat (length ns)
        \<and> (\<forall>q. get_local (Name tp, i) (W1 j) = Some q \<longrightarrow> cuttable q)"
    using ns' assms(9) push_node_cuttable [OF assms(8,3,4,10) refl, where N = N and j = j] W1 by metis
  then have "node_log (W' j) (Name tp) i bs ns"
    unfolding W' by (rule invalidateReplicas_node [where W = W1, OF ns'(1) assms(3) refl _ j assms(7)]) (use assms(10) in simp)
  then show ?thesis using node_log_read assms(8) by (metis ext)
qed

definition broken_disk :: lock_io where
  "broken_disk = \<lparr>rotateIO = good_open\<lparr>openOk := False\<rparr>, writeIO = \<lparr>wr = WriteErr 0, repairOk = True, syncOk = True\<rparr>\<rparr>"

lemma broken_disk_fails:
  assumes "part_rep p base ms"
  shows "\<exists>e p'. AppendEntry broken_disk (nextOffset p) now payload p = ((nextOffset p', Some e), p')"
proof -
  obtain xs a ams where "part_chain p base xs a ams" using assms by (auto simp: part_rep_def)
  then have a: "activeSegment p = Some a" by (simp add: part_chain_def)
  have ap: "\<exists>e f' s'. Append (writeIO broken_disk) off now payload (f, s) = (Inl e, f', s')" for off f s
    by (simp add: Append_def broken_disk_def Let_def)
  have 1: "\<exists>e p'. append_active (writeIO broken_disk) off now payload a p = (Some e, p')" for off
    using ap [of off "dir_get (files p) (Path (segs p ! a))" "segs p ! a"]
    by (auto simp: append_active_def Let_def)
  have 2: "\<exists>e p'. rotate (rotateIO broken_disk) off a p = (Some e, p')" for off
    by (simp add: rotate_def broken_disk_def NewSegment_def Let_def)
  have "\<exists>e p'. appendLocked broken_disk (nextOffset p) now payload p = (Some e, p')"
    using 1 [of "nextOffset p"] 2 [of "nextOffset p"] a by (auto simp: appendLocked_def)
  then show ?thesis
    using part_okD(5) [OF part_rep_okD [OF assms]] by (auto simp: AppendEntry_def)
qed

theorem commit_failure_rolled_back_witness:
  "\<exists>e tp' W'. ReplicateAndAppend (net_of perfect_net (sample_node 1)) broken_disk 7 0 [1] (sample_topic sample_replicas) sample_node
       = (Inl (ELeaderCommit e), tp', W') \<and> node_log (W' 2) ''orders'' 0 0 []"
proof -
  obtain e tp' W' where r: "ReplicateAndAppend (net_of perfect_net (sample_node 1)) broken_disk 7 0 [1] (sample_topic sample_replicas) sample_node
       = (Inl (ELeaderCommit e), tp', W')"
    using sample_write [of broken_disk] broken_disk_fails [OF sample_partition_rep [of sample_replicas], of 7 "[1]"]
    by (auto simp: produce_commit_def sample_topic_get sample_partition_fields)
  have "node_log (W' 2) (Name (sample_topic sample_replicas)) 0 0 []"
    using commit_failure_rolled_back [OF sample_topic_get _ sample_ids(2) _ r, of 2 0 "[]"] sample_node_log
    by (simp add: sample_partition_fields sample_ids payload_ok_def sample_called perfect_net_def sample_topic_name)
  with r show ?thesis by (auto simp: sample_topic_name)
qed


section \<open>Two writers at once\<close>

lemma update_twice: "AList.update k v (AList.update k v al) = AList.update k v al"
  by (induction al) auto

text \<open>C24. Two writes to the same partition with no other in-sync replica, the second of which reads
  the target offset before the first commits. Both are acknowledged with the same offset, but only the first
  record is in the log: the commit of the second meets the idempotence check of \<open>AppendEntry\<close> and
  succeeds without writing, so an acknowledged message is lost.\<close>

theorem concurrent_writes_lose_one:
  assumes "GetPartition i tp = Inr p" and "part_rep p base ms" and "unat base + length ms + 2 < 2 ^ 64"
    and "payload_ok payload1" and "payload_ok payload2"
    and "produce_prepare i tp = Inr (rs1, off1)" and "produce_prepare i tp = Inr (rs2, off2)"
    and "isr_others (netNodeId net) rs1 = []"
    and "produce_replicate net (append_req net (Name tp) i off1 payload1 now1) rs1 w = (r1, w1)"
    and "produce_replicate net (append_req net (Name tp) i off2 payload2 now2) rs2 w1 = (r2, w2)"
  shows "\<exists>pushed1 pushed2 tp1. r1 = Inr pushed1 \<and> r2 = Inr pushed2
     \<and> produce_commit net good_io i off1 now1 payload1 pushed1 tp w2 = (Inr off1, tp1, w2)
     \<and> produce_commit net good_io i off2 now2 payload2 pushed2 tp1 w2 = (Inr off1, tp1, w2)
     \<and> (\<exists>p'. GetPartition i tp1 = Inr p' \<and> part_rep p' base (ms @ [new_record off1 now1 payload1]))"
proof -
  have pr: "rs1 = replicas p" "off1 = nextOffset p" "rs2 = rs1" "off2 = off1"
    using assms(1,6,7) by (auto simp: produce_prepare_def GetReplicas_def GetNextOffset_def)
  have inr: "\<exists>pushed. r = Inr pushed" if "produce_replicate net req rs1 v = (r, v')" for req v r v'
    using that assms(8) by (auto simp: produce_replicate_def isrAcked_def isrTotal_def split: prod.splits)
  obtain pushed1 pushed2 where r: "r1 = Inr pushed1" "r2 = Inr pushed2"
    using inr assms(9,10) pr(3) by metis
  have bd: "unat base + length ms + 1 < 2 ^ 64" using assms(3) by simp
  obtain p' where c: "produce_commit net good_io i off1 now1 payload1 pushed1 tp w2 = (Inr off1, put_partition i p' tp, w2)"
    "part_rep p' base (ms @ [new_record off1 now1 payload1])" "nextOffset p' = off1 + 1"
    unfolding pr(2) using produce_commit_good [OF assms(1,2,4) bd, of net now1 pushed1 w2] by blast
  have g: "GetPartition i (put_partition i p' tp) = Inr p'" by (simp add: GetPartition_put)
  have "unat off1 + 1 < 2 ^ 64"
    using log_from_next_unat [OF part.rep_log [OF assms(2)]] part.rep_nxt [OF assms(2)] bd pr(2) by simp
  then have "off1 < nextOffset p'" using c(3) unat_plus_one [of off1] by (simp add: word_less_nat_alt)
  then have "AppendEntry good_io off1 now2 payload2 p' = ((off1, None), p')"
    using part_okD(5) [OF part_rep_okD [OF c(2)]] by (simp add: AppendEntry_def)
  then have "produce_commit net good_io i off2 now2 payload2 pushed2 (put_partition i p' tp) w2
      = (Inr off1, put_partition i p' (put_partition i p' tp), w2)"
    using g pr(4) by (simp add: produce_commit_def)
  moreover have "put_partition i p' (put_partition i p' tp) = put_partition i p' tp"
    by (simp add: put_partition_def update_twice)
  ultimately show ?thesis using r c g by auto
qed

theorem concurrent_writes_lose_one_witness:
  "\<exists>pushed1 pushed2 tp1.
     produce_commit (net_of perfect_net (sample_node 1)) good_io 0 0 7 [1] pushed1 (sample_topic []) sample_node = (Inr 0, tp1, sample_node)
     \<and> produce_commit (net_of perfect_net (sample_node 1)) good_io 0 0 8 [2] pushed2 tp1 sample_node = (Inr 0, tp1, sample_node)"
  using concurrent_writes_lose_one [OF sample_topic_get [of "[]"] sample_partition_rep, of "[1]" "[2]" "[]" 0 "[]" 0
      "net_of perfect_net (sample_node 1)" 7 sample_node "Inr []" sample_node 8 "Inr []" sample_node]
  by (auto simp: payload_ok_def produce_prepare_def sample_topic_get GetReplicas_def GetNextOffset_def
      sample_partition_fields isr_others_def produce_replicate_def isrAcked_def isrTotal_def)


end
