(* ===== verification/CatchUp.thy ===== *)
theory CatchUp
  imports Cluster
begin

text \<open>
  What \<open>CatchUpPartition\<close> achieves against the leader's own \<open>FetchLog\<close> handler: it ends with a copy
  of the leader's log, also while the leader keeps writing, and the situations in which it does not.
  The leader's broker may differ at every call; \<open>Ln n\<close> is the broker that answers the \<open>n\<close>-th one.
\<close>

section \<open>One answer of the leader\<close>

definition fetch_from :: "(nat \<Rightarrow> broker) \<Rightarrow> nat \<Rightarrow> fetch_request \<Rightarrow> fetch_response option" where
  "fetch_from Ln n req = Some (FetchLogHandler no_faults req (Ln n))"

lemma FetchLog_answer:
  assumes "node_log L t i b ms" and "wire_id i" and "k \<le> length ms"
  shows "Entries (FetchLogHandler no_faults (fetch_req t i (b + of_nat k)) L) = take 500 (drop k ms)
     \<and> HighWatermark (FetchLogHandler no_faults (fetch_req t i (b + of_nat k)) L) = b + of_nat (length ms)"
proof -
  obtain p where p: "get_local (t, i) L = Some p" "part_rep p b ms"
    using assms(1) by (auto simp: node_log_def)
  then have "local_partition t i L = Inr p" by (simp add: local_partition_get)
  then show ?thesis
    using partition_read_batch_rep [OF p(2) assms(3), of 500] uint_wire_id [OF assms(2)]
    by (simp add: FetchLogHandler_def fetch_req_def)
qed

lemma FetchLog_missing:
  assumes "get_local (t, i) L = None" and "wire_id i"
  shows "Entries (FetchLogHandler f (fetch_req t i off) L) = []
     \<and> HighWatermark (FetchLogHandler f (fetch_req t i off) L) = 0"
  using assms uint_wire_id [OF assms(2)]
  by (auto simp: FetchLogHandler_def fetch_req_def get_local_def split: sum.splits)

text \<open>Below the leader's base offset the answer is empty, with a high watermark beyond the request.\<close>

lemma FetchLog_below_base:
  assumes "node_log L t i b ms" and "wire_id i" and "off < b"
  shows "Entries (FetchLogHandler no_faults (fetch_req t i off) L) = []
     \<and> HighWatermark (FetchLogHandler no_faults (fetch_req t i off) L) = b + of_nat (length ms)"
proof -
  obtain p where p: "get_local (t, i) L = Some p" "part_rep p b ms"
    using assms(1) by (auto simp: node_log_def)
  then have lp: "local_partition t i L = Inr p" by (simp add: local_partition_get)
  have "log_at b ms off = None" using assms(3) by (simp add: log_at_def word_less_nat_alt)
  then have "findSegment off p = None" using part_lookup [OF p(2), of off] by simp
  then have "ReadBatch no_faults off 500 p = ([], nextOffset p, None)"
    by (simp add: ReadBatch_def Let_def) (subst ReadBatch_loop.simps, simp)
  then show ?thesis
    using lp part.rep_nxt [OF p(2)] uint_wire_id [OF assms(2)]
    by (simp add: FetchLogHandler_def fetch_req_def)
qed

section \<open>Applying an answer\<close>

lemma apply_entries_rep:
  assumes "part_rep p b ns" and "log_from b (ns @ xs)"
  shows "\<exists>p'. apply_entries good_io xs p = (None, p') \<and> part_rep p' b (ns @ xs) \<and> syncState p' = syncState p"
  using assms
proof (induction xs arbitrary: p ns)
  case Nil
  then show ?case by simp
next
  case (Cons x xs)
  have l: "log_from b ((ns @ [x]) @ xs)" using Cons.prems(2) by simp
  then have "log_from b (ns @ [x])" by (simp only: log_from_append)
  from AppendEntry_rep [OF Cons.prems(1) this] obtain p1 where
    p1: "AppendEntry good_io (Offset x) (Timestamp x) (Payload x) p = ((Offset x, None), p1)"
    "part_rep p1 b (ns @ [x])" "syncState p1 = syncState p"
    by blast
  from Cons.IH [OF p1(2) l] p1 show ?case by auto
qed

lemma TryFinalize_rep:
  assumes "part_rep p b ns" and "unat b + h < 2 ^ 64"
  shows "TryFinalizeInSync (b + of_nat h) p = (if length ns < h then (False, p) else (True, p\<lparr>syncState := StateInSync\<rparr>))"
proof -
  have "unat (nextOffset p) = unat b + length ns"
    using log_from_next_unat [OF part.rep_log [OF assms(1)]] part.rep_nxt [OF assms(1)] by simp
  moreover have "unat (b + of_nat h) = unat b + h" by (rule unat_add_of_nat [OF assms(2)])
  ultimately show ?thesis by (simp add: TryFinalizeInSync_def word_less_nat_alt)
qed

lemma part_rep_sync: "part_rep p b ns \<Longrightarrow> part_rep (p\<lparr>syncState := x\<rparr>) b ns"
  by (erule part_rep_other) simp_all

section \<open>The loop against a growing leader\<close>

text \<open>
  The leader's log at call \<open>n\<close> is the first \<open>len n\<close> records of \<open>ms\<close>. Every round that does not
  finish applies 500 records, so \<open>(length ms - k) div 500 + 1\<close> rounds suffice.
\<close>

lemma catch_up_loop_completes:
  assumes "\<forall>n. node_log (Ln n) t i b (take (len n) ms) \<and> len n \<le> length ms" and "mono len"
    and "log_from b ms" and "wire_id i"
    and "part_rep p b (take k ms)" and "k \<le> len n" and "(length ms - k) div 500 < fuel"
  shows "\<exists>p' n'. catch_up_loop fuel good_io (\<lambda>_. False) (\<lambda>n off. fetch_from Ln n (fetch_req t i off)) n p = Some (None, p')
     \<and> n \<le> n' \<and> part_rep p' b (take (len n') ms) \<and> syncState p' = StateInSync"
  using assms(5-7)
proof (induction fuel arbitrary: p k n)
  case 0
  then show ?case by simp
next
  case (Suc fuel)
  have kl: "k \<le> length ms" and ll: "len n \<le> length ms" using Suc.prems(2) assms(1) le_trans by blast+
  let ?L = "take (len n) ms"
  let ?r = "FetchLogHandler no_faults (fetch_req t i (b + of_nat k)) (Ln n)"
  have next_p: "nextOffset p = b + of_nat k" using part.rep_nxt [OF Suc.prems(1)] kl by simp
  have nl: "node_log (Ln n) t i b ?L" using assms(1) by blast
  have ans: "Entries ?r = take 500 (drop k ?L)" "HighWatermark ?r = b + of_nat (len n)"
    using FetchLog_answer [OF nl assms(4), of k] Suc.prems(2) ll by simp_all
  let ?k = "min (k + 500) (len n)"
  have app: "take k ms @ take 500 (drop k ?L) = take ?k ms"
  proof -
    have "take 500 (drop k ?L) = take (?k - k) (drop k ms)"
      unfolding drop_take take_take by (rule arg_cong [where f = "\<lambda>j. take j (drop k ms)"]) simp
    moreover have "take ?k ms = take (k + (?k - k)) ms" using Suc.prems(2) by simp
    ultimately show ?thesis by (simp only: take_add)
  qed
  have "log_from b (take k ms @ take 500 (drop k ?L))"
    unfolding app using assms(3) by (rule log_from_take)
  from apply_entries_rep [OF Suc.prems(1) this] obtain q where
    q: "apply_entries good_io (Entries ?r) p = (None, q)" "part_rep q b (take ?k ms)"
    unfolding ans(1) app by blast
  have bd: "unat b + len n < 2 ^ 64" using log_from_bound [OF assms(3)] ll by simp
  have lk: "length (take ?k ms) = ?k" using ll by simp
  have fin: "TryFinalizeInSync (b + of_nat (len n)) q
      = (if k + 500 < len n then (False, q) else (True, q\<lparr>syncState := StateInSync\<rparr>))"
    unfolding TryFinalize_rep [OF q(2) bd] lk by (auto simp: min_def)
  have fetch: "fetch_from Ln n (fetch_req t i (GetNextOffset p)) = Some ?r"
    by (simp only: fetch_from_def GetNextOffset_def next_p)
  have step: "catch_up_loop (Suc fuel) good_io (\<lambda>_. False) (\<lambda>n off. fetch_from Ln n (fetch_req t i off)) n p =
     (if k + 500 < len n
      then catch_up_loop fuel good_io (\<lambda>_. False) (\<lambda>n off. fetch_from Ln n (fetch_req t i off)) (Suc n) q
      else Some (None, q\<lparr>syncState := StateInSync\<rparr>))"
    by (simp add: fetch q(1) ans(2) fin)
  show ?case
  proof (cases "k + 500 < len n")
    case True
    have 1: "part_rep q b (take (k + 500) ms)" using q(2) True by simp
    have 2: "k + 500 \<le> len (Suc n)"
      using True monoD [OF assms(2), of n "Suc n"] by (meson le_SucI le_refl less_imp_le order_trans)
    have round: "(r + 500) div 500 = r div 500 + 1" for r :: nat by simp
    have "length ms - k = (length ms - (k + 500)) + 500" using True ll by linarith
    then have 3: "(length ms - (k + 500)) div 500 < fuel"
      using Suc.prems(3) round [of "length ms - (k + 500)"] by linarith
    obtain p' n' where
      "catch_up_loop fuel good_io (\<lambda>_. False) (\<lambda>n off. fetch_from Ln n (fetch_req t i off)) (Suc n) q = Some (None, p')"
      "Suc n \<le> n'" "part_rep p' b (take (len n') ms)" "syncState p' = StateInSync"
      using Suc.IH [OF 1 2 3] by metis
    with True show ?thesis
      unfolding step by (intro exI [of _ p'] exI [of _ n']) (simp del: catch_up_loop.simps)
  next
    case False
    then have "part_rep q b (take (len n) ms)" using q(2) by (simp add: min_absorb2)
    with False show ?thesis
      unfolding step by (intro exI [of _ "q\<lparr>syncState := StateInSync\<rparr>"] exI [of _ n]) (simp add: part_rep_sync)
  qed
qed

lemma CatchUpPartition_joins:
  assumes "\<forall>n. node_log (Ln n) t i b (take (len n) ms) \<and> len n \<le> length ms" and "mono len"
    and "log_from b ms" and "wire_id i"
    and "get_local (t, i) B = Some p" and "part_rep p b (take k ms)" and "k \<le> len 0"
    and "syncState p = StateReplicating" and "GetGrpcClient leader B"
    and "(length ms - k) div 500 < fuel"
  shows "\<exists>p' n. CatchUpPartition fuel good_io (\<lambda>_. False) (fetch_from Ln) t i leader B = Some (None, set_local (t, i) p' B)
     \<and> part_rep p' b (take (len n) ms) \<and> syncState p' = StateInSync"
proof -
  obtain p' n where p': "catch_up_loop fuel good_io (\<lambda>_. False) (\<lambda>n off. fetch_from Ln n (fetch_req t i off)) 0 p = Some (None, p')"
    "part_rep p' b (take (len n) ms)" "syncState p' = StateInSync"
    using catch_up_loop_completes [OF assms(1-4,6,7,10)] by blast
  have "CatchUpPartition fuel good_io (\<lambda>_. False) (fetch_from Ln) t i leader B = Some (None, set_local (t, i) p' B)"
    using assms(5,8,9) p'(1)
    by (simp add: CatchUpPartition_def local_partition_get [symmetric] GetSyncState_def set_local_def)
  with p'(2,3) show ?thesis by blast
qed

text \<open>C8. \<open>CatchUpPartition\<close> against a leader that may keep appending. If the replica holds a prefix
  of the leader's log, the loop ends within one round per 500 missing records and one more, reports
  no error, and leaves the replica in sync with exactly the log the leader had when it answered the
  last fetch; no other partition of the node changes.\<close>

theorem catch_up_completes:
  assumes "\<forall>n. node_log (Ln n) t i b (take (len n) ms) \<and> len n \<le> length ms" and "mono len"
    and "log_from b ms" and "wire_id i"
    and "broker_ok B" and "get_local (t, i) B = Some p" and "part_rep p b (take k ms)" and "k \<le> len 0"
    and "syncState p = StateReplicating" and "GetGrpcClient leader B"
    and "(length ms - k) div 500 < fuel"
  shows "\<exists>B' n. CatchUpPartition fuel good_io (\<lambda>_. False) (fetch_from Ln) t i leader B = Some (None, B')
     \<and> node_log B' t i b (take (len n) ms) \<and> IsPartitionInSync t i B'
     \<and> (\<forall>k. k \<noteq> (t, i) \<longrightarrow> get_local k B' = get_local k B)"
proof -
  obtain p' n where p': "CatchUpPartition fuel good_io (\<lambda>_. False) (fetch_from Ln) t i leader B = Some (None, set_local (t, i) p' B)"
    "part_rep p' b (take (len n) ms)" "syncState p' = StateInSync"
    using CatchUpPartition_joins [OF assms(1-4,6-11)] by blast
  let ?B = "set_local (t, i) p' B"
  have get: "get_local k ?B = (if k = (t, i) then Some p' else get_local k B)" for k
    by (rule locals.get_put [OF assms(5,6) TrueI])
  moreover have "broker_ok ?B" by (rule locals.put_ok [OF assms(5,6) TrueI])
  ultimately show ?thesis
    using p' local_partition_get [of t i ?B p']
    by (intro exI [of _ ?B] exI [of _ n]) (simp add: node_log_def IsPartitionInSync_def GetSyncState_def)
qed

definition sample_joining :: broker where
  "sample_joining = set_local (''orders'', 0) ((sample_partition sample_replicas)\<lparr>syncState := StateReplicating\<rparr>) (sample_node 2)"

lemma sample_joining:
  "broker_ok sample_joining"
  "get_local (''orders'', 0) sample_joining = Some ((sample_partition sample_replicas)\<lparr>syncState := StateReplicating\<rparr>)"
  "GetGrpcClient 1 sample_joining"
proof -
  show "broker_ok sample_joining"
    unfolding sample_joining_def by (rule locals.put_ok [OF sample_node_get(1,2) TrueI])
  show "get_local (''orders'', 0) sample_joining = Some ((sample_partition sample_replicas)\<lparr>syncState := StateReplicating\<rparr>)"
    unfolding sample_joining_def by (rule locals.get_put_same [OF sample_node_get(1,2) TrueI])
  show "GetGrpcClient 1 sample_joining"
    using sample_node_get(4) [of 1 2]
    by (simp add: sample_joining_def GetGrpcClient_def set_local_def put_local_def split: sum.splits)
qed

theorem catch_up_completes_witness:
  "\<exists>B' n. CatchUpPartition 1 good_io (\<lambda>_. False) (fetch_from (\<lambda>_. sample_node 1)) ''orders'' 0 1 sample_joining = Some (None, B')
     \<and> IsPartitionInSync ''orders'' 0 B'"
  using catch_up_completes [OF _ _ _ sample_ids(2) sample_joining(1,2) _ _ _ sample_joining(3),
      of "\<lambda>_. sample_node 1" 0 "\<lambda>_. 0" "[]" 0 1]
    sample_node_log part_rep_sync [OF sample_partition_rep, of StateReplicating]
  by (auto simp: mono_def)

section \<open>When it goes wrong\<close>

lemma CatchUp_one_round:
  assumes "local_partition t i B = Inr p" and "syncState p = StateReplicating" and "GetGrpcClient leader B"
    and "Entries (FetchLogHandler no_faults (fetch_req t i (nextOffset p)) (Ln 0)) = []"
    and "HighWatermark (FetchLogHandler no_faults (fetch_req t i (nextOffset p)) (Ln 0)) \<le> nextOffset p"
    and "0 < fuel"
  shows "CatchUpPartition fuel io (\<lambda>_. False) (fetch_from Ln) t i leader B
     = Some (None, set_local (t, i) (p\<lparr>syncState := StateInSync\<rparr>) B)"
  using assms
  by (cases fuel) (auto simp: CatchUpPartition_def GetSyncState_def fetch_from_def GetNextOffset_def
      TryFinalizeInSync_def set_local_def)

text \<open>Catching up from a node that does not host the partition. The handler answers with no entries
  and high watermark zero instead of an error, so the first round declares the replica in sync with
  whatever log it happens to have.\<close>

theorem catch_up_from_missing_partition:
  assumes "broker_ok B" and "get_local (t, i) B = Some p" and "syncState p = StateReplicating"
    and "GetGrpcClient leader B" and "get_local (t, i) (Ln 0) = None" and "wire_id i" and "0 < fuel"
  shows "\<exists>B'. CatchUpPartition fuel io (\<lambda>_. False) (fetch_from Ln) t i leader B = Some (None, B')
     \<and> IsPartitionInSync t i B' \<and> get_local (t, i) B' = Some (p\<lparr>syncState := StateInSync\<rparr>)"
proof -
  have lp: "local_partition t i B = Inr p" using assms(2) by (simp add: local_partition_get)
  let ?B = "set_local (t, i) (p\<lparr>syncState := StateInSync\<rparr>) B"
  have g: "get_local (t, i) ?B = Some (p\<lparr>syncState := StateInSync\<rparr>)"
    by (rule locals.get_put_same [OF assms(1,2) TrueI])
  then have "IsPartitionInSync t i ?B"
    using local_partition_get [of t i ?B "p\<lparr>syncState := StateInSync\<rparr>"]
    by (simp add: IsPartitionInSync_def GetSyncState_def)
  with CatchUp_one_round [where Ln = Ln, OF lp assms(3,4) _ _ assms(7)] FetchLog_missing [OF assms(5,6)] g
  show ?thesis by auto
qed

theorem catch_up_from_missing_partition_witness:
  "\<exists>B'. CatchUpPartition 1 good_io (\<lambda>_. False) (fetch_from (\<lambda>_. NewBroker 1 False)) ''orders'' 0 1 sample_joining = Some (None, B')
     \<and> IsPartitionInSync ''orders'' 0 B'"
proof -
  have "get_local (''orders'', 0) (NewBroker 1 False) = None"
    by (simp add: get_local_def local_partition_def NewBroker_def NewProcessorPool_def GetTopicProcessor_def)
  from catch_up_from_missing_partition [OF sample_joining(1,2) _ sample_joining(3), of "\<lambda>_. NewBroker 1 False", OF _ this sample_ids(2), of 1 good_io]
  show ?thesis by auto
qed

text \<open>C25. Catching up from a leader whose retention has removed the replica's next offset. Every answer
  is empty with a high watermark above the replica's log, so the loop never ends, whatever the number of
  rounds; the partition stays out of sync for good.\<close>

theorem catch_up_below_base_never_ends:
  assumes "\<forall>n. node_log (Ln n) t i b ms" and "wire_id i" and "local_partition t i B = Inr p"
    and "syncState p = StateReplicating" and "GetGrpcClient leader B" and "nextOffset p < b"
  shows "CatchUpPartition fuel io (\<lambda>_. False) (fetch_from Ln) t i leader B = None"
proof -
  have "log_from b ms" using assms(1) part.rep_log by (auto simp: node_log_def)
  then have "unat (b + of_nat (length ms)) = unat b + length ms" by (rule log_from_next_unat)
  then have lt: "nextOffset p < b + of_nat (length ms)" using assms(6) by (simp add: word_less_nat_alt)
  have "catch_up_loop fuel io (\<lambda>_. False) (\<lambda>n off. fetch_from Ln n (fetch_req t i off)) n p = None" for n
  proof (induction fuel arbitrary: n)
    case (Suc fuel)
    have "Entries (FetchLogHandler no_faults (fetch_req t i (nextOffset p)) (Ln n)) = []"
      "HighWatermark (FetchLogHandler no_faults (fetch_req t i (nextOffset p)) (Ln n)) = b + of_nat (length ms)"
      using FetchLog_below_base [OF _ assms(2,6)] assms(1) by blast+
    with lt Suc show ?case by (simp add: fetch_from_def GetNextOffset_def TryFinalizeInSync_def)
  qed simp
  with assms(3-5) show ?thesis by (simp add: CatchUpPartition_def GetSyncState_def)
qed

theorem catch_up_below_base_never_ends_witness:
  "\<forall>fuel. CatchUpPartition fuel good_io (\<lambda>_. False)
     (fetch_from (\<lambda>_. set_local (''orders'', 0) (fresh_partition 9) (sample_node 1))) ''orders'' 0 1 sample_joining = None"
proof
  fix fuel
  have "node_log (set_local (''orders'', 0) (fresh_partition 9) (sample_node 1)) ''orders'' 0 9 []"
    using locals.get_put_same [OF sample_node_get(1,2) TrueI] locals.put_ok [OF sample_node_get(1,2) TrueI]
      fresh_partition_rep by (simp add: node_log_def)
  then show "CatchUpPartition fuel good_io (\<lambda>_. False)
     (fetch_from (\<lambda>_. set_local (''orders'', 0) (fresh_partition 9) (sample_node 1))) ''orders'' 0 1 sample_joining = None"
    using catch_up_below_base_never_ends [of "\<lambda>_. set_local (''orders'', 0) (fresh_partition 9) (sample_node 1)"
        "''orders''" 0 9 "[]" sample_joining _ 1 fuel good_io] sample_joining(2,3) sample_ids(2)
    by (simp add: local_partition_get sample_partition_fields)
qed

text \<open>Catch-up never shortens a log. A replica that has at least as many records as the leader,
  whatever they are (for example one kept from a write that missed its quorum), is declared in sync
  by the first round with its own records untouched.\<close>

theorem catch_up_keeps_longer_log:
  assumes "node_log (Ln 0) t i b ms" and "wire_id i" and "broker_ok B" and "get_local (t, i) B = Some p"
    and "part_rep p b ns" and "length ms \<le> length ns" and "syncState p = StateReplicating"
    and "GetGrpcClient leader B" and "0 < fuel"
  shows "\<exists>B'. CatchUpPartition fuel io (\<lambda>_. False) (fetch_from Ln) t i leader B = Some (None, B')
     \<and> IsPartitionInSync t i B' \<and> node_log B' t i b ns"
proof -
  have lp: "local_partition t i B = Inr p" using assms(4) by (simp add: local_partition_get)
  obtain q where q: "get_local (t, i) (Ln 0) = Some q" "part_rep q b ms" "nextOffset q = b + of_nat (length ms)"
    "unat (nextOffset q) = unat b + length ms"
    by (rule node_logE [OF assms(1)])
  have "unat (nextOffset p) = unat b + length ns"
    using log_from_next_unat [OF part.rep_log [OF assms(5)]] part.rep_nxt [OF assms(5)] by simp
  then have ge: "nextOffset q \<le> nextOffset p" using q(4) assms(6) by (simp add: word_le_nat_alt)
  then have "ReadBatch no_faults (nextOffset p) 500 q = ([], nextOffset q, None)"
    by (simp add: ReadBatch_def Let_def) (subst ReadBatch_loop.simps, auto simp: not_less)
  then have ans: "Entries (FetchLogHandler no_faults (fetch_req t i (nextOffset p)) (Ln 0)) = []"
    "HighWatermark (FetchLogHandler no_faults (fetch_req t i (nextOffset p)) (Ln 0)) \<le> nextOffset p"
    using q(1) ge uint_wire_id [OF assms(2)] local_partition_get [of t i "Ln 0" q]
    by (simp_all add: FetchLogHandler_def fetch_req_def)
  let ?B = "set_local (t, i) (p\<lparr>syncState := StateInSync\<rparr>) B"
  have g: "get_local (t, i) ?B = Some (p\<lparr>syncState := StateInSync\<rparr>)"
    by (rule locals.get_put_same [OF assms(3,4) TrueI])
  have "broker_ok ?B" by (rule locals.put_ok [OF assms(3,4) TrueI])
  with g part_rep_sync [OF assms(5)] have "node_log ?B t i b ns" by (auto simp: node_log_def)
  moreover have "IsPartitionInSync t i ?B"
    using g local_partition_get [of t i ?B "p\<lparr>syncState := StateInSync\<rparr>"]
    by (simp add: IsPartitionInSync_def GetSyncState_def)
  ultimately show ?thesis
    using CatchUp_one_round [where Ln = Ln, OF lp assms(7,8) ans assms(9)] by blast
qed

theorem catch_up_keeps_longer_log_witness:
  "\<exists>B'. CatchUpPartition 1 good_io (\<lambda>_. False) (fetch_from (\<lambda>_. sample_node 1)) ''orders'' 0 1 sample_joining = Some (None, B')
     \<and> IsPartitionInSync ''orders'' 0 B'"
  using catch_up_keeps_longer_log [of "\<lambda>_. sample_node 1", OF sample_node_log sample_ids(2) sample_joining(1,2)
      part_rep_sync [OF sample_partition_rep] _ _ sample_joining(3), of 1 good_io]
  by auto



end
