(* ===== verification/Assignment.thy ===== *)
theory Assignment
  imports CatchUp Rebalance
begin

text \<open>
  How a node applies the parameters of topics it reads from etcd: the topic watch of
  \<open>server/cluster/etcd.go\<close>, \<open>applyTopicParams\<close>, \<open>applyTopicDelete\<close> and \<open>startCatchUp\<close>.

  \<open>startCatchUp\<close> starts a goroutine; here it returns whether it does, and the operations return the
  list of started catch-ups (topic, partition, leader). The body of the goroutine is \<open>catch_up_job\<close>.
  \<open>env\<close> is the disk a created partition finds, \<open>removeAllOk\<close> whether \<open>os.RemoveAll\<close> succeeds.
\<close>

section \<open>Catch-ups\<close>

type_synonym job = "string \<times> int \<times> int"

definition startCatchUp :: "string \<Rightarrow> int \<Rightarrow> int \<Rightarrow> coordinator \<Rightarrow> job list \<times> coordinator" where
  "startCatchUp tname partitionID leaderNodeID n =
     (let key = tname @ ''/'' @ fmt_int partitionID
      in if map_of (syncing n) key = Some True then ([], n)
         else ([(tname, partitionID, leaderNodeID)], n\<lparr>syncing := AList.update key True (syncing n)\<rparr>))"

text \<open>\<open>catch\<close> is \<open>CatchUpPartition\<close> applied to its environment, as for \<open>RestoreData\<close>.\<close>

definition catch_up_job ::
  "'e etcd \<Rightarrow> (nat \<Rightarrow> bool) \<Rightarrow> (string \<Rightarrow> int \<Rightarrow> int \<Rightarrow> broker \<Rightarrow> (go_error option \<times> broker) option) \<Rightarrow> job
     \<Rightarrow> coordinator \<Rightarrow> 'e \<Rightarrow> (coordinator \<times> 'e) option" where
  "catch_up_job E ctxDone catch j n e =
     (case j of (tname, partitionID, leaderNodeID) \<Rightarrow>
        let key = tname @ ''/'' @ fmt_int partitionID;
            finish = (\<lambda>b. n\<lparr>cbroker := b, syncing := AList.delete key (syncing n)\<rparr>)
        in case catch tname partitionID leaderNodeID (cbroker n) of
             None \<Rightarrow> None
           | Some (Some x, b1) \<Rightarrow> Some (finish b1, e)
           | Some (None, b1) \<Rightarrow>
               Some (finish (MarkPartitionReplicaInSync tname partitionID (nodeID n) b1),
                     snd (MarkNodeInSync E ctxDone tname partitionID (nodeID n) e)))"

section \<open>One partition\<close>

definition part_replicas :: "PartitionsParams \<Rightarrow> replica list" where
  "part_replicas part =
     map (\<lambda>rid. \<lparr>Id = rid, BrokerID = [], InSync = IsInSync part rid\<rparr>) (ReplicasNodeId part)"

definition local_part :: "PartitionsParams \<Rightarrow> topic_partition" where
  "local_part part =
     \<lparr>Id_tp = PartitionId part, Replicas = part_replicas part, Retention = 3600000000000, StartOffset = 0\<rparr>"

definition unassigned_entry :: "string \<Rightarrow> int \<Rightarrow> delete_entry" where
  "unassigned_entry tname i =
     \<lparr>TopicName_de = tname, PartitionId_de = i, DelMap = Some (\<lambda>k. k = fmt_int i), Force = False\<rparr>"

definition apply_partition ::
  "disk_env \<Rightarrow> bool \<Rightarrow> string \<Rightarrow> PartitionsParams \<Rightarrow> coordinator \<Rightarrow> job list \<times> coordinator" where
  "apply_partition env removeAllOk tname part n =
     (let i = PartitionId part;
          b1 = SetPartitionLeader tname i (LeaderNodeId part) (cbroker n)
      in if \<not> ContainsNode part (nodeID n) then
           ([], n\<lparr>cbroker := (if snd (FindTopicPartition tname i b1)
                              then snd (DeleteTopicPartition removeAllOk (unassigned_entry tname i) b1) else b1)\<rparr>)
         else case EnsureLocalPartition env tname (local_part part) b1 of
           ((pp, created), b2) \<Rightarrow>
             let pp1 = SetReplicas (part_replicas part) pp;
                 upd = (\<lambda>p. n\<lparr>cbroker := put_local tname i p b2\<rparr>)
             in if LeaderNodeId part = nodeID n then ([], upd (ForceInSync pp1))
                else if IsInSync part (nodeID n) then
                  ([], n\<lparr>cbroker := MarkPartitionReplicaInSync tname i (nodeID n)
                          (cbroker (upd (ForceInSync pp1)))\<rparr>)
                else if GetSyncState pp1 \<noteq> StateInSync then startCatchUp tname i (LeaderNodeId part) (upd pp1)
                else ([], upd pp1))"

section \<open>The parameters of a topic\<close>

fun apply_partitions ::
  "disk_env \<Rightarrow> bool \<Rightarrow> string \<Rightarrow> PartitionsParams list \<Rightarrow> coordinator \<Rightarrow> job list \<times> coordinator" where
  "apply_partitions env removeAllOk tname [] n = ([], n)"
| "apply_partitions env removeAllOk tname (part # parts) n =
     (case apply_partition env removeAllOk tname part n of
        (jobs, n1) \<Rightarrow> (case apply_partitions env removeAllOk tname parts n1 of
           (later, n2) \<Rightarrow> (jobs @ later, n2)))"

definition applyTopicParams ::
  "disk_env \<Rightarrow> bool \<Rightarrow> TopicParams \<Rightarrow> coordinator \<Rightarrow> job list \<times> coordinator" where
  "applyTopicParams env removeAllOk params n =
     apply_partitions env removeAllOk (tpName params) (Partitions params) n"

definition applyTopicDelete :: "bool \<Rightarrow> string \<Rightarrow> coordinator \<Rightarrow> coordinator" where
  "applyTopicDelete removeAllOk name n =
     (if \<not> fst (FindTopicPartition name (-1) (cbroker n)) then n
      else n\<lparr>cbroker := snd (DeleteTopicPartition removeAllOk
        \<lparr>TopicName_de = name, PartitionId_de = -1, DelMap = Some (\<lambda>k. k = name), Force = False\<rparr> (cbroker n))\<rparr>)"

text \<open>A value of the topic prefix, at the start of the watch or in one of its events.\<close>

definition topic_of_key :: "string \<Rightarrow> string" where
  "topic_of_key key = (if take (length TopicPath) key = TopicPath then drop (length TopicPath) key else key)"

definition apply_topic_value ::
  "disk_env \<Rightarrow> bool \<Rightarrow> string \<Rightarrow> etcd_value \<Rightarrow> coordinator \<Rightarrow> job list \<times> coordinator" where
  "apply_topic_value env removeAllOk key v n =
     (case as_topic v of
        None \<Rightarrow> ([], n)
      | Some params \<Rightarrow> applyTopicParams env removeAllOk (params\<lparr>tpName := topic_of_key key\<rparr>) n)"

definition watch_topic_event ::
  "disk_env \<Rightarrow> bool \<Rightarrow> watch_event \<Rightarrow> coordinator \<Rightarrow> job list \<times> coordinator" where
  "watch_topic_event env removeAllOk ev n =
     (case ev of
        WatchPut key v \<Rightarrow> apply_topic_value env removeAllOk key v n
      | WatchDelete key prev \<Rightarrow> ([], applyTopicDelete removeAllOk (topic_of_key key) n))"

fun topic_bootstrap ::
  "disk_env \<Rightarrow> bool \<Rightarrow> (string \<times> etcd_kv) list \<Rightarrow> coordinator \<Rightarrow> job list \<times> coordinator" where
  "topic_bootstrap env removeAllOk [] n = ([], n)"
| "topic_bootstrap env removeAllOk ((key, kv) # kvs) n =
     (case apply_topic_value env removeAllOk key (kvValue kv) n of
        (jobs, n1) \<Rightarrow> (case topic_bootstrap env removeAllOk kvs n1 of (later, n2) \<Rightarrow> (jobs @ later, n2)))"

section \<open>What one partition's parameters do\<close>

lemma SetPartitionLeader_pool [simp]:
  "bpool (SetPartitionLeader t i l b) = bpool b" "bid (SetPartitionLeader t i l b) = bid b"
  "broker_ok (SetPartitionLeader t i l b) = broker_ok b" "get_local k (SetPartitionLeader t i l b) = get_local k b"
  by (simp_all add: SetPartitionLeader_def broker_ok_def get_local_def local_partition_def)

lemma get_leader_pool [simp]: "get_leader k (b\<lparr>bpool := pl\<rparr>) = get_leader k b"
  by (simp add: get_leader_def GetPartitionLeader_def)

lemma put_local_leader [simp]:
  "get_leader k (put_local t i p b) = get_leader k b" "bid (put_local t i p b) = bid b"
  by (simp_all add: put_local_def split: sum.splits)

lemma set_leader_get:
  "get_leader k (SetPartitionLeader t i l b) = (if k = (t, i) then Some l else get_leader k b)"
  by (auto simp: get_leader_def GetPartitionLeader_def SetPartitionLeader_def update_conv'
      partitionLeaderKey_inject prod_eq_iff)

text \<open>The topic processor a creation starts from has the partitions the topic had.\<close>

lemma EnsureTopic_partitions:
  assumes "pool_ok pl" and "EnsureTopic env t [] pl = (tp, pl')"
  shows "map_of (partitions tp) j = (case get_topic t pl of None \<Rightarrow> None | Some u \<Rightarrow> map_of (partitions u) j)"
proof (cases "get_topic t pl")
  case None
  then have "map_of (topicProcessor pl) t = None"
    using GetTopicProcessor_some [OF assms(1), of t]
    by (cases "map_of (topicProcessor pl) t") (auto simp: get_topic_def)
  with assms(2) None show ?thesis by (auto simp: EnsureTopic_def NewTopicProcessor_def Let_def)
qed (use EnsureTopic_present [OF assms(1), of t] assms(2) in auto)

lemma EnsureLocalPartition_get:
  assumes "broker_ok b" and "EnsureLocalPartition env t part b = ((p, created), b')"
  shows "broker_ok b'" and "get_local k b' = (if k = (t, Id_tp part) then Some p else get_local k b)"
    and "get_local (t, Id_tp part) b = Some q \<Longrightarrow> p = q" and "get_leader k b' = get_leader k b" and "bid b' = bid b"
proof -
  obtain tp pl where e: "EnsureTopic env t [] (bpool b) = (tp, pl)" by (cases "EnsureTopic env t [] (bpool b)")
  obtain tp' where e': "EnsurePartition env part tp = ((p, created), tp')" and b': "b' = b\<lparr>bpool := put_topic t tp' pl\<rparr>"
    using assms(2) e by (auto simp: EnsureLocalPartition_def split: prod.splits)
  have pok: "pool_ok (bpool b)" using assms(1) by (simp add: broker_ok_def)
  have g: "pool_ok pl" "get_topic t pl = Some tp" "\<forall>j. j \<noteq> t \<longrightarrow> get_topic j pl = get_topic j (bpool b)"
    using EnsureTopic_get [OF pok e] by auto
  note old = EnsureTopic_partitions [OF pok e]
  obtain i where "map_of (topicProcessor pl) t = Some i" "processors pl ! i = Some tp"
    using g(1,2) by (auto simp: get_topic_conv)
  then have dist: "distinct (map fst (partitions tp))" using pool_okD(2) [OF g(1), of t i] by auto
  have tp': "same_topic t tp tp'" "map_of (partitions tp') j = (if j = Id_tp part then Some p else map_of (partitions tp) j)" for j
    using e' dist
    by (auto simp: EnsurePartition_def same_topic_def put_partition_def Let_def update_conv' distinct_update split: option.splits)
  show ok: "broker_ok b'" unfolding broker_ok_def b' using topics.put_ok [OF g(1,2) tp'(1)] by simp
  have gt: "get_topic s (bpool b') = (if s = t then Some tp' else get_topic s (bpool b))" for s
    unfolding b' using topics.get_put [OF g(1,2) tp'(1)] g(3) by simp
  show "get_local k b' = (if k = (t, Id_tp part) then Some p else get_local k b)"
    using get_local_topic [OF ok, of "fst k" "snd k"] get_local_topic [OF assms(1), of "fst k" "snd k"] gt tp'(2) old
    by (cases k) (auto split: option.splits)
  show "p = q" if "get_local (t, Id_tp part) b = Some q"
    using that e' old [of "Id_tp part"] get_local_topic [OF assms(1), of t "Id_tp part"]
    by (auto simp: EnsurePartition_def Let_def split: option.splits)
  show "get_leader k b' = get_leader k b" "bid b' = bid b" using b' by simp_all
qed

text \<open>The deletion of a partition the node is not assigned to, unless the topic has its id for a name.\<close>

lemma delete_unassigned:
  assumes "broker_ok b" and "get_local (t, i) b = Some p" and "t \<noteq> fmt_int i"
    and "DeleteTopicPartition ra (unassigned_entry t i) b = (r, b')"
  shows "broker_ok b'" and "get_local k b' = (if k = (t, i) then None else get_local k b)"
    and "k \<noteq> (t, i) \<Longrightarrow> get_leader k b' = get_leader k b" and "bid b' = bid b"
proof -
  obtain tp where tp: "get_topic t (bpool b) = Some tp" "map_of (partitions tp) i = Some p"
    using assms(1,2) get_local_topic [OF assms(1), of t i] by (auto split: option.splits)
  have pok: "pool_ok (bpool b)" using assms(1) by (simp add: broker_ok_def)
  obtain e tp' old where d: "DeletePartition ra i False tp = (e, tp', old)" by (cases "DeletePartition ra i False tp")
  have tp': "partitions tp' = AList.delete i (partitions tp)" "Name tp' = Name tp"
    using d tp(2) by (auto simp: DeletePartition_def split: prod.splits)
  obtain j where "map_of (topicProcessor (bpool b)) t = Some j" "processors (bpool b) ! j = Some tp"
    using pok tp(1) by (auto simp: get_topic_conv)
  then have dist: "distinct (map fst (partitions tp))" using pool_okD(2) [OF pok, of t j] by auto
  have st: "same_topic t tp tp'" using tp' dist by (simp add: same_topic_def distinct_delete)
  let ?b1 = "b\<lparr>bpool := put_topic t tp' (bpool b)\<rparr>"
  have b': "b' = (if e = None then clear_own_leader t i ?b1 else ?b1)"
    using assms(3,4) tp(1) d pok
    by (auto simp: DeleteTopicPartition_def unassigned_entry_def GetTopicProcessor_get_topic split: option.splits)
  have pool': "bpool b' = put_topic t tp' (bpool b)" and bid': "bid b' = bid b"
    unfolding b' by (auto simp: clear_own_leader_def DeletePartitionLeader_def split: option.splits)
  show ok: "broker_ok b'" unfolding broker_ok_def pool' by (rule topics.put_ok [OF pok tp(1) st])
  have gt: "get_topic s (bpool b') = (if s = t then Some tp' else get_topic s (bpool b))" for s
    unfolding pool' by (rule topics.get_put [OF pok tp(1) st])
  show "get_local k b' = (if k = (t, i) then None else get_local k b)"
    using get_local_topic [OF ok, of "fst k" "snd k"] get_local_topic [OF assms(1), of "fst k" "snd k"] gt tp' tp
    by (cases k) (auto simp: delete_conv' split: option.splits)
  show "bid b' = bid b" by (rule bid')
  show "get_leader k b' = get_leader k b" if "k \<noteq> (t, i)"
    using that unfolding b'
    by (cases k) (auto simp: clear_own_leader_def DeletePartitionLeader_def get_leader_def GetPartitionLeader_def
        delete_conv' partitionLeaderKey_inject split: option.splits)
qed

text \<open>
  What the node has to be in afterwards: without the partition when it is not assigned to it; else
  with it, its leader and replicas as in the parameters, its log as before, in sync when it leads or
  etcd has it in the in-sync set, and otherwise unchanged with a catch-up running.
\<close>

definition follows :: "job list \<Rightarrow> coordinator \<Rightarrow> coordinator \<Rightarrow> string \<Rightarrow> PartitionsParams \<Rightarrow> bool" where
  "follows jobs n n' t part \<longleftrightarrow>
     (let k = (t, PartitionId part); key = partitionLeaderKey t (PartitionId part)
      in if ContainsNode part (nodeID n) then
           get_leader k (cbroker n') = Some (LeaderNodeId part) \<and>
           (\<exists>p. get_local k (cbroker n') = Some p \<and> replicas p = part_replicas part \<and>
              (\<forall>q. get_local k (cbroker n) = Some q \<longrightarrow> p = q\<lparr>replicas := replicas p, syncState := syncState p\<rparr>) \<and>
              (if LeaderNodeId part = nodeID n \<or> IsInSync part (nodeID n) then syncState p = StateInSync
               else (\<forall>q. get_local k (cbroker n) = Some q \<longrightarrow> syncState p = syncState q) \<and>
                 (syncState p = StateInSync \<or>
                  map_of (syncing n') key = Some True \<and>
                  ((t, PartitionId part, LeaderNodeId part) \<in> set jobs \<or> map_of (syncing n) key = Some True))))
         else get_local k (cbroker n') = None)"

definition may_start :: "int \<Rightarrow> string \<Rightarrow> PartitionsParams \<Rightarrow> job list \<Rightarrow> bool" where
  "may_start self t part jobs \<longleftrightarrow>
     set jobs \<subseteq> (if ContainsNode part self \<and> LeaderNodeId part \<noteq> self \<and> \<not> IsInSync part self
       then {(t, PartitionId part, LeaderNodeId part)} else {})"

text \<open>A partition's parameters touch nothing but that partition.\<close>

definition same_but :: "string \<Rightarrow> int set \<Rightarrow> coordinator \<Rightarrow> coordinator \<Rightarrow> bool" where
  "same_but t I n n' \<longleftrightarrow>
     nodeID n' = nodeID n \<and> broker_ok (cbroker n') \<and>
     (\<forall>s i. s \<noteq> t \<or> i \<notin> I \<longrightarrow> get_local (s, i) (cbroker n') = get_local (s, i) (cbroker n) \<and>
        get_leader (s, i) (cbroker n') = get_leader (s, i) (cbroker n) \<and>
        map_of (syncing n') (partitionLeaderKey s i) = map_of (syncing n) (partitionLeaderKey s i))"

lemma follows_frame:
  assumes "follows jobs n1 n2 t part" and "same_but t I n n1" and "same_but t J n2 n3"
    and "PartitionId part \<notin> I" and "PartitionId part \<notin> J" and "set jobs \<subseteq> set jobs'"
  shows "follows jobs' n n3 t part"
  using assms unfolding follows_def same_but_def Let_def
  by (auto split: if_splits)

lemma mark_own_replica:
  "IsInSync part i \<Longrightarrow> set_first_inSync i True (part_replicas part) = part_replicas part"
proof -
  have "set_first_inSync i True (map (\<lambda>rid. \<lparr>Id = rid, BrokerID = [], InSync = IsInSync part rid\<rparr>) xs) =
      map (\<lambda>rid. \<lparr>Id = rid, BrokerID = [], InSync = IsInSync part rid\<rparr>) xs" if "IsInSync part i" for xs
    using that by (induction xs) auto
  then show "IsInSync part i \<Longrightarrow> ?thesis" by (simp add: part_replicas_def)
qed

lemma MarkPartitionReplicaInSync_get:
  assumes "broker_ok b" and "get_local (t, i) b = Some p"
  shows "broker_ok (MarkPartitionReplicaInSync t i r b)"
    and "get_local k (MarkPartitionReplicaInSync t i r b) = (if k = (t, i) then Some (SetReplicaInSync r True p) else get_local k b)"
    and "get_leader k (MarkPartitionReplicaInSync t i r b) = get_leader k b"
proof -
  have m: "MarkPartitionReplicaInSync t i r b = set_local (t, i) (SetReplicaInSync r True p) b"
    using assms(2) by (simp add: MarkPartitionReplicaInSync_def set_local_def local_partition_get [symmetric])
  show "broker_ok (MarkPartitionReplicaInSync t i r b)"
    "get_local k (MarkPartitionReplicaInSync t i r b) = (if k = (t, i) then Some (SetReplicaInSync r True p) else get_local k b)"
    unfolding m by (rule locals.put_ok [OF assms TrueI], rule locals.get_put [OF assms TrueI])
  show "get_leader k (MarkPartitionReplicaInSync t i r b) = get_leader k b" unfolding m by (simp add: set_local_def)
qed

text \<open>The partition an assigned node ends with: \<open>pp\<close> is the one it had, or the one it creates.\<close>

lemma apply_assigned_partition:
  assumes "broker_ok (cbroker n)" and c: "ContainsNode part (nodeID n)"
    and e: "EnsureLocalPartition env t (local_part part)
        (SetPartitionLeader t (PartitionId part) (LeaderNodeId part) (cbroker n)) = ((pp, created), b2)"
    and a: "apply_partition env ra t part n = (jobs, n')"
  defines "plain \<equiv> LeaderNodeId part \<noteq> nodeID n \<and> \<not> IsInSync part (nodeID n)"
  defines "started \<equiv> (if plain \<and> syncState pp \<noteq> StateInSync
      then startCatchUp t (PartitionId part) (LeaderNodeId part) n else ([], n))"
  shows "nodeID n' = nodeID n" and "broker_ok (cbroker n')"
    and "get_leader k (cbroker n') = (if k = (t, PartitionId part) then Some (LeaderNodeId part) else get_leader k (cbroker n))"
    and "get_local k (cbroker n') = (if k = (t, PartitionId part)
      then Some (pp\<lparr>replicas := part_replicas part, syncState := (if plain then syncState pp else StateInSync)\<rparr>)
      else get_local k (cbroker n))"
    and "jobs = fst started" and "syncing n' = syncing (snd started)"
proof -
  let ?i = "PartitionId part"
  have id: "Id_tp (local_part part) = ?i" by (simp add: local_part_def)
  note E = EnsureLocalPartition_get [OF _ e, unfolded id, simplified, OF assms(1)]
  have in2: "get_local (t, ?i) b2 = Some pp" using E(2) [of "(t, ?i)"] by simp
  have put: "broker_ok (put_local t ?i p b2)"
    "get_local k (put_local t ?i p b2) = (if k = (t, ?i) then Some p else get_local k (cbroker n))" for p k
    using locals.put_ok [OF E(1) in2 TrueI, of p] locals.get_put [OF E(1) in2 TrueI, of k p] E(2)
    by (simp_all add: set_local_def)
  let ?in = "put_local t ?i (pp\<lparr>replicas := part_replicas part, syncState := StateInSync\<rparr>) b2"
  note M = MarkPartitionReplicaInSync_get [where b = ?in and t = t and i = ?i, OF put(1)]
  consider "LeaderNodeId part = nodeID n" | "LeaderNodeId part \<noteq> nodeID n" "IsInSync part (nodeID n)" | "plain"
    by (auto simp: plain_def)
  then have "nodeID n' = nodeID n \<and> broker_ok (cbroker n') \<and>
    (\<forall>k. get_leader k (cbroker n') = (if k = (t, ?i) then Some (LeaderNodeId part) else get_leader k (cbroker n))) \<and>
    (\<forall>k. get_local k (cbroker n') = (if k = (t, ?i)
      then Some (pp\<lparr>replicas := part_replicas part, syncState := (if plain then syncState pp else StateInSync)\<rparr>)
      else get_local k (cbroker n))) \<and> jobs = fst started \<and> syncing n' = syncing (snd started)"
  proof cases
    case 1
    then have n': "jobs = []" "n' = n\<lparr>cbroker := ?in\<rparr>" and "\<not> plain"
      using a c e by (auto simp: apply_partition_def Let_def plain_def ForceInSync_def SetReplicas_def)
    then show ?thesis by (simp add: put E(4) set_leader_get started_def)
  next
    case 2
    then have n': "jobs = []" "n' = n\<lparr>cbroker := MarkPartitionReplicaInSync t ?i (nodeID n) ?in\<rparr>" and "\<not> plain"
      using a c e by (auto simp: apply_partition_def Let_def plain_def ForceInSync_def SetReplicas_def)
    with 2 show ?thesis
      using M [of "pp\<lparr>replicas := part_replicas part, syncState := StateInSync\<rparr>"]
      by (simp add: put E(4) set_leader_get started_def SetReplicaInSync_def mark_own_replica)
  next
    case 3
    let ?p = "pp\<lparr>replicas := part_replicas part, syncState := syncState pp\<rparr>"
    have "cbroker n' = put_local t ?i ?p b2" "nodeID n' = nodeID n" "jobs = fst started"
      "syncing n' = syncing (snd started)"
      using 3 a c e by (auto simp: apply_partition_def Let_def plain_def SetReplicas_def GetSyncState_def
          started_def startCatchUp_def split: if_splits)
    with 3 show ?thesis by (simp add: put E(4) set_leader_get)
  qed
  then show "nodeID n' = nodeID n" "broker_ok (cbroker n')"
    "get_leader k (cbroker n') = (if k = (t, ?i) then Some (LeaderNodeId part) else get_leader k (cbroker n))"
    "get_local k (cbroker n') = (if k = (t, ?i)
      then Some (pp\<lparr>replicas := part_replicas part, syncState := (if plain then syncState pp else StateInSync)\<rparr>)
      else get_local k (cbroker n))"
    "jobs = fst started" "syncing n' = syncing (snd started)" by blast+
qed

lemma startCatchUp_key:
  "startCatchUp t i l n = (if map_of (syncing n) (partitionLeaderKey t i) = Some True then ([], n)
     else ([(t, i, l)], n\<lparr>syncing := AList.update (partitionLeaderKey t i) True (syncing n)\<rparr>))"
  by (simp add: startCatchUp_def partitionLeaderKey_def Let_def)

lemma apply_assigned:
  assumes "broker_ok (cbroker n)" and "ContainsNode part (nodeID n)"
    and "apply_partition env ra t part n = (jobs, n')"
  shows "same_but t {PartitionId part} n n'" and "follows jobs n n' t part" and "may_start (nodeID n) t part jobs"
proof -
  obtain pp created b2 where e: "EnsureLocalPartition env t (local_part part)
      (SetPartitionLeader t (PartitionId part) (LeaderNodeId part) (cbroker n)) = ((pp, created), b2)"
    by (metis prod.collapse)
  have old: "pp = q" if "get_local (t, PartitionId part) (cbroker n) = Some q" for q
    using EnsureLocalPartition_get(3) [OF _ e] assms(1) that by (simp add: local_part_def)
  note A = apply_assigned_partition [OF assms(1,2) e assms(3)]
  show "same_but t {PartitionId part} n n'"
    using A by (auto simp: same_but_def startCatchUp_key update_conv' partitionLeaderKey_inject)
  show "follows jobs n n' t part"
    using A old assms(2) by (auto simp: follows_def Let_def startCatchUp_key update_conv')
  show "may_start (nodeID n) t part jobs"
    using A assms(2) by (auto simp: may_start_def startCatchUp_key split: if_splits)
qed

lemma apply_unassigned:
  assumes "broker_ok (cbroker n)" and "\<not> ContainsNode part (nodeID n)" and "t \<noteq> fmt_int (PartitionId part)"
    and "apply_partition env ra t part n = (jobs, n')"
  shows "same_but t {PartitionId part} n n'" and "follows jobs n n' t part" and "may_start (nodeID n) t part jobs"
proof -
  let ?b1 = "SetPartitionLeader t (PartitionId part) (LeaderNodeId part) (cbroker n)"
  have ok: "broker_ok ?b1" using assms(1) by simp
  have found: "snd (FindTopicPartition t (PartitionId part) ?b1) = (get_local (t, PartitionId part) ?b1 \<noteq> None)"
    by (auto simp: FindTopicPartition_def get_local_def local_partition_def split: sum.splits)
  have n': "jobs = []" "n' = n\<lparr>cbroker := (if get_local (t, PartitionId part) (cbroker n) \<noteq> None
      then snd (DeleteTopicPartition ra (unassigned_entry t (PartitionId part)) ?b1) else ?b1)\<rparr>"
    using assms(2,4) found by (auto simp: apply_partition_def Let_def)
  note D = delete_unassigned [OF ok _ assms(3) prod.collapse [symmetric], where ra = ra]
  show "same_but t {PartitionId part} n n'"
    using D assms(1) n' by (auto simp: same_but_def set_leader_get)
  show "follows jobs n n' t part"
    using D assms(2) n' by (auto simp: follows_def Let_def)
  show "may_start (nodeID n) t part jobs" using n' by (simp add: may_start_def)
qed

lemma apply_partition_follows:
  assumes "broker_ok (cbroker n)" and "t \<noteq> fmt_int (PartitionId part)" and "apply_partition env ra t part n = (jobs, n')"
  shows "same_but t {PartitionId part} n n' \<and> follows jobs n n' t part \<and> may_start (nodeID n) t part jobs"
  using apply_assigned [OF assms(1) _ assms(3)] apply_unassigned [OF assms(1) _ assms(2,3)] by blast

lemma same_but_refl: "broker_ok (cbroker n) \<Longrightarrow> same_but t I n n"
  by (simp add: same_but_def)

lemma same_but_trans: "same_but t I n n1 \<Longrightarrow> same_but t J n1 n2 \<Longrightarrow> same_but t (I \<union> J) n n2"
  by (simp add: same_but_def)

lemma apply_partitions_follow:
  assumes "broker_ok (cbroker n)" and "distinct (map PartitionId parts)" and "t \<notin> fmt_int ` PartitionId ` set parts"
    and "apply_partitions env ra t parts n = (jobs, n')"
  shows "same_but t (PartitionId ` set parts) n n' \<and> (\<forall>part\<in>set parts. follows jobs n n' t part) \<and>
    (\<forall>j\<in>set jobs. \<exists>part\<in>set parts. j = (t, PartitionId part, LeaderNodeId part) \<and>
       may_start (nodeID n) t part [j])"
  using assms
proof (induction parts arbitrary: n jobs)
  case Nil
  then show ?case by (simp add: same_but_refl)
next
  case (Cons part parts)
  obtain jobs1 n1 where 1: "apply_partition env ra t part n = (jobs1, n1)" by (metis prod.collapse)
  obtain jobs2 where 2: "apply_partitions env ra t parts n1 = (jobs2, n')" "jobs = jobs1 @ jobs2"
    using Cons.prems(4) 1 by (auto split: prod.splits)
  have F: "same_but t {PartitionId part} n n1" "follows jobs1 n n1 t part" "may_start (nodeID n) t part jobs1"
    using apply_partition_follows [OF Cons.prems(1) _ 1] Cons.prems(3) by auto
  then have n1: "broker_ok (cbroker n1)" "nodeID n1 = nodeID n" by (simp_all add: same_but_def)
  note R = Cons.IH [OF n1(1) _ _ 2(1)]
  have R': "same_but t (PartitionId ` set parts) n1 n'" "\<forall>q\<in>set parts. follows jobs2 n1 n' t q"
    "\<forall>j\<in>set jobs2. \<exists>part\<in>set parts. j = (t, PartitionId part, LeaderNodeId part) \<and> may_start (nodeID n) t part [j]"
    using R Cons.prems(2,3) n1(2) by auto
  have new: "PartitionId part \<notin> PartitionId ` set parts" using Cons.prems(2) by simp
  have "same_but t (PartitionId ` set (part # parts)) n n'" using same_but_trans [OF F(1) R'(1)] by simp
  moreover have "follows jobs n n' t part"
    using follows_frame [OF F(2) same_but_refl [OF Cons.prems(1)] R'(1), of "{}"] new 2(2) by simp
  moreover have "follows jobs n n' t q" if "q \<in> set parts" for q
  proof -
    have "PartitionId q \<noteq> PartitionId part" using imageI [OF that, of PartitionId] new by metis
    with follows_frame [OF bspec [OF R'(2) that] F(1) same_but_refl, of "{}"] R'(1) 2(2)
    show ?thesis by (simp add: same_but_def)
  qed
  moreover have "\<exists>q\<in>set (part # parts). j = (t, PartitionId q, LeaderNodeId q) \<and> may_start (nodeID n) t q [j]"
    if "j \<in> set jobs" for j
    using that 2(2) R'(3) F(3) by (auto simp: may_start_def split: if_splits)
  ultimately show ?case by simp
qed

text \<open>C9. A node does what etcd says. After a node has applied the parameters of a topic, with distinct
  partition ids none of which is the topic's name, each partition is as etcd describes it: gone when
  the node is no replica; otherwise present, under the leader and with the replicas and in-sync flags
  of the parameters, its log untouched, in sync if the node leads it or is in its in-sync set, and if
  not, in the state it was in with one catch-up running for it. Catch-ups are started for such plain
  replicas only, and nothing changes for any other topic.\<close>

theorem assignment_applied:
  assumes "broker_ok (cbroker n)" and "distinct (map PartitionId (Partitions params))"
    and "tpName params \<notin> fmt_int ` PartitionId ` set (Partitions params)"
    and "applyTopicParams env ra params n = (jobs, n')" and "part \<in> set (Partitions params)"
  shows "broker_ok (cbroker n') \<and> follows jobs n n' (tpName params) part \<and>
    (\<forall>(t, i, l)\<in>set jobs. t = tpName params \<and> (\<exists>q\<in>set (Partitions params). i = PartitionId q \<and> l = LeaderNodeId q \<and>
       ContainsNode q (nodeID n) \<and> l \<noteq> nodeID n \<and> \<not> IsInSync q (nodeID n))) \<and>
    (\<forall>t i. t \<noteq> tpName params \<longrightarrow> get_local (t, i) (cbroker n') = get_local (t, i) (cbroker n) \<and>
       get_leader (t, i) (cbroker n') = get_leader (t, i) (cbroker n))"
proof -
  have A: "same_but (tpName params) (PartitionId ` set (Partitions params)) n n'"
    "\<forall>part\<in>set (Partitions params). follows jobs n n' (tpName params) part"
    "\<forall>j\<in>set jobs. \<exists>part\<in>set (Partitions params). j = (tpName params, PartitionId part, LeaderNodeId part) \<and>
       may_start (nodeID n) (tpName params) part [j]"
    using apply_partitions_follow [OF assms(1-3)] assms(4) unfolding applyTopicParams_def by blast+
  have "\<forall>(t, i, l)\<in>set jobs. t = tpName params \<and> (\<exists>q\<in>set (Partitions params). i = PartitionId q \<and> l = LeaderNodeId q \<and>
       ContainsNode q (nodeID n) \<and> l \<noteq> nodeID n \<and> \<not> IsInSync q (nodeID n))"
    using A(3) by (fastforce simp: may_start_def split: if_splits)
  with A assms(5) show ?thesis by (simp add: same_but_def)
qed

text \<open>Node 2 applies the parameters of topic \<open>t\<close>, where it is a plain replica and has nothing yet.\<close>

definition joining_node :: coordinator where
  "joining_node = NewNodeCoordinator 2 (NewBroker 2 False) sample_addresses"

theorem assignment_applied_witness:
  "\<exists>jobs n'. applyTopicParams sample_env True TopicMeta.sample_topic joining_node = (jobs, n') \<and>
     get_leader (''t'', 0) (cbroker n') = Some 1 \<and> get_local (''t'', 0) (cbroker n') \<noteq> None"
proof -
  let ?part = "TopicMeta.sample_part"
  obtain jobs n' where r: "applyTopicParams sample_env True TopicMeta.sample_topic joining_node = (jobs, n')"
    by (metis prod.collapse)
  have ok: "broker_ok (cbroker joining_node)"
    by (simp add: joining_node_def NewNodeCoordinator_def NewBroker_def broker_ok_def NewProcessorPool_ok)
  have zero: "fmt_int 0 = ''0''" by code_simp
  have d: "distinct (map PartitionId (Partitions TopicMeta.sample_topic))"
    "tpName TopicMeta.sample_topic \<notin> fmt_int ` PartitionId ` set (Partitions TopicMeta.sample_topic)"
    "?part \<in> set (Partitions TopicMeta.sample_topic)"
    using zero by (simp_all add: TopicMeta.sample_topic_def TopicMeta.sample_part_def)
  have "follows jobs joining_node n' (tpName TopicMeta.sample_topic) ?part"
    using assignment_applied [OF ok d(1,2) r d(3)] by blast
  then show ?thesis using r
    by (auto simp: follows_def Let_def joining_node_def NewNodeCoordinator_def TopicMeta.sample_part_def TopicMeta.sample_topic_def)
qed

text \<open>
  \<open>DeleteTopicPartition\<close> looks for the topic's name among the keys of the map before it looks for the
  partition's id, and \<open>applyTopicParams\<close> puts the id in that map: a topic whose name is the id loses
  all its partitions on the node when that one is reassigned.
\<close>

lemma numeric_topic_loses_all:
  assumes "broker_ok (cbroker n)" and "\<not> ContainsNode part (nodeID n)"
    and "get_local (fmt_int (PartitionId part), PartitionId part) (cbroker n) \<noteq> None"
    and "apply_partition env ra (fmt_int (PartitionId part)) part n = (jobs, n')"
  shows "get_local (fmt_int (PartitionId part), j) (cbroker n') = None"
proof -
  let ?t = "fmt_int (PartitionId part)"
  let ?b = "SetPartitionLeader ?t (PartitionId part) (LeaderNodeId part) (cbroker n)"
  have lp: "local_partition ?t i ?b = local_partition ?t i (cbroker n)" for i by (simp add: local_partition_def)
  have pok: "pool_ok (bpool ?b)" using assms(1) by (simp add: broker_ok_def)
  obtain tp where tp: "GetTopicProcessor ?t (bpool ?b) = Inr tp"
    using assms(3) by (auto simp: get_local_def local_partition_def sbind_Inr_conv split: sum.splits)
  have found: "snd (FindTopicPartition ?t (PartitionId part) ?b)"
    using assms(3) tp by (auto simp: FindTopicPartition_def get_local_def local_partition_def split: sum.splits)
  have pool: "bpool (fold (\<lambda>i. clear_own_leader ?t (int i)) is b) = bpool b" for "is" b
    by (induction "is" arbitrary: b) (auto simp: clear_own_leader_def DeletePartitionLeader_def split: option.splits)
  obtain r pl old where rt: "RemoveTopic ?t (bpool ?b) = (r, pl, old)" by (metis prod.collapse)
  have "bpool (cbroker n') = pl"
    using assms(2,4) found tp rt
    by (auto simp: apply_partition_def Let_def DeleteTopicPartition_def unassigned_entry_def pool)
  moreover have "pool_ok pl" "get_topic ?t pl = None" using RemoveTopic_ok [OF pok rt] by auto
  ultimately show ?thesis
    using get_local_topic [of "cbroker n'" ?t j] by (simp add: broker_ok_def)
qed

section \<open>Joining the in-sync set\<close>

text \<open>C10. A replica that is assigned a partition joins its in-sync set. The goroutine started for it,
  against a leader that may keep appending and a service that answers, ends within one round per 500
  missing records and one more: the node has the leader's log and accepts pushes, its mark in the
  running catch-ups is gone, and etcd lists it in the in-sync set, the replicas and the leader of the
  partition unchanged.\<close>

theorem replica_joins_isr:
  assumes "\<forall>n. node_log (Ln n) t i b (take (len n) ms) \<and> len n \<le> length ms" and "mono len"
    and "log_from b ms" and "wire_id i"
    and "broker_ok (cbroker N)" and "get_local (t, i) (cbroker N) = Some p" and "part_rep p b (take k ms)" and "k \<le> len 0"
    and "syncState p = StateReplicating" and "GetGrpcClient leader (cbroker N)" and "(length ms - k) div 500 < fuel"
    and "etcd_quiet E view" and "topics_ok (view e)" and "slots (view e) (t, i) = Some q" and "ContainsNode q (nodeID N)"
  shows "\<exists>N' e' n q'. catch_up_job E ctxDone (CatchUpPartition fuel good_io (\<lambda>_. False) (fetch_from Ln)) (t, i, leader) N e = Some (N', e')
    \<and> node_log (cbroker N') t i b (take (len n) ms) \<and> IsPartitionInSync t i (cbroker N')
    \<and> map_of (syncing N') (partitionLeaderKey t i) = None
    \<and> slots (view e') (t, i) = Some q' \<and> IsInSync q' (nodeID N)
    \<and> ReplicasNodeId q' = ReplicasNodeId q \<and> LeaderNodeId q' = LeaderNodeId q"
proof -
  obtain p' n where p': "CatchUpPartition fuel good_io (\<lambda>_. False) (fetch_from Ln) t i leader (cbroker N) = Some (None, set_local (t, i) p' (cbroker N))"
    "part_rep p' b (take (len n) ms)" "syncState p' = StateInSync"
    using CatchUpPartition_joins [OF assms(1-4,6-11)] by blast
  let ?B = "set_local (t, i) p' (cbroker N)" let ?B' = "MarkPartitionReplicaInSync t i (nodeID N) ?B"
  have B: "broker_ok ?B" "get_local (t, i) ?B = Some p'"
    using locals.put_ok [OF assms(5,6) TrueI] locals.get_put_same [OF assms(5,6) TrueI] by simp_all
  note M = MarkPartitionReplicaInSync_get [OF B, where r = "nodeID N"]
  have rep: "part_rep (SetReplicaInSync (nodeID N) True p') b (take (len n) ms)"
    unfolding SetReplicaInSync_def by (rule part_rep_other [OF p'(2)]) simp_all
  obtain q' where q': "mark_in_sync (nodeID N) q = Inr q'" "IsInSync q' (nodeID N)"
    "ReplicasNodeId q' = ReplicasNodeId q" "LeaderNodeId q' = LeaderNodeId q"
    using assms(15) by (cases "IsInSync q (nodeID N)") (auto simp: mark_in_sync_def)
  obtain e' where m: "mutateTopic E ctxDone t (on_partition i (mark_in_sync (nodeID N)) (Some (EPartitionNotFound i t))) e = (None, e')"
    and e': "view e' = put_slot (t, i) q' (view e)"
    using quiet_on_partition [OF assms(12-14) q'(1) mutators_keep(2)] .
  have "slots (view e') (t, i) = Some q'"
    using slots_put_slot(2) [OF assms(13,14)] mark_in_sync_ok [OF _ q'(1)] slots_partition_ok [OF assms(13,14)] e'
    by simp
  moreover have "catch_up_job E ctxDone (CatchUpPartition fuel good_io (\<lambda>_. False) (fetch_from Ln)) (t, i, leader) N e
      = Some (N\<lparr>cbroker := ?B', syncing := AList.delete (partitionLeaderKey t i) (syncing N)\<rparr>, e')"
    using p'(1) m by (simp add: catch_up_job_def Let_def partitionLeaderKey_def MarkNodeInSync_def)
  moreover have "node_log ?B' t i b (take (len n) ms)" "IsPartitionInSync t i ?B'"
    using M rep p'(3) local_partition_get [of t i ?B' "SetReplicaInSync (nodeID N) True p'"]
    by (simp_all add: node_log_def IsPartitionInSync_def GetSyncState_def SetReplicaInSync_def)
  ultimately show ?thesis using q' by (auto simp: delete_conv')
qed

definition orders_store :: etcd_store where
  "orders_store = store_commit [OpPut (topicKey ''orders'') (VTopic (TopicMeta.sample_topic\<lparr>tpName := ''orders''\<rparr>)) 0] sample_store"

lemma orders_store: "topics_ok orders_store" "slots orders_store (''orders'', 0) = Some TopicMeta.sample_part"
proof -
  let ?t = "TopicMeta.sample_topic\<lparr>tpName := ''orders''\<rparr>"
  have "topic_ok ?t" by (simp add: topic_ok_def TopicMeta.sample_topic_def TopicMeta.sample_part_def partition_ok_def)
  from topics_ok_put [OF sample_store_ok this] show "topics_ok orders_store" by (simp add: orders_store_def)
  show "slots orders_store (''orders'', 0) = Some TopicMeta.sample_part"
    by (simp add: slots_def stored_topic_def orders_store_def find_partition_def TopicMeta.sample_topic_def TopicMeta.sample_part_def)
qed

theorem replica_joins_isr_witness:
  "\<exists>N' e' n q'. catch_up_job calm_etcd (\<lambda>_. False) (CatchUpPartition 1 good_io (\<lambda>_. False) (fetch_from (\<lambda>_. Cluster.sample_node 1)))
      (''orders'', 0, 1) (NewNodeCoordinator 2 sample_joining sample_addresses) orders_store = Some (N', e') \<and>
     slots e' (''orders'', 0) = Some q' \<and> IsInSync q' 2"
proof -
  let ?N = "NewNodeCoordinator 2 sample_joining sample_addresses"
  have N: "cbroker ?N = sample_joining" "nodeID ?N = 2" by (simp_all add: NewNodeCoordinator_def)
  have "ContainsNode TopicMeta.sample_part (nodeID ?N)" by (simp add: N TopicMeta.sample_part_def)
  with replica_joins_isr [where N = ?N and Ln = "\<lambda>_. Cluster.sample_node 1" and len = "\<lambda>_. 0" and ms = "[]" and k = 0
      and fuel = 1 and view = "\<lambda>s. s" and e = orders_store and b = 0 and leader = 1 and ctxDone = "\<lambda>_. False",
      OF _ _ _ sample_ids(2) _ _ _ _ _ _ _ calm_etcd_quiet orders_store, unfolded N, OF _ _ _ sample_joining(1,2)]
    sample_node_log part_rep_sync [OF sample_partition_rep, of StateReplicating] sample_joining(3)
  show ?thesis by (auto simp: mono_def N)
qed

end
