(* ===== verification/Watch.thy ===== *)
theory Watch
  imports Placement Assignment
begin

text \<open>
  The watches of a node on etcd, \<open>server/cluster/etcd.go\<close>: \<open>WatchNodes\<close> with its sessions of a snapshot
  and the events after it, its waits between sessions, \<open>watchTopicLoop\<close>, \<open>watchMetadataLoop\<close>, and the
  start of the node that runs them. What etcd sends is data: the key-value pairs of a read (\<open>None\<close>
  when it failed) and the responses of a watch. Times are in nanoseconds.
\<close>

section \<open>Sessions of the node watch\<close>

record watch_response =
  wrCompactRevision :: int
  wrErr :: bool
  wrCanceled :: bool
  wrEvents :: "watch_event list"

datatype watch_end = BootstrapFailed | WatchCompacted | WatchFailed | WatchCanceled | ChannelClosed

fun node_responses :: "(string \<Rightarrow> bool) \<Rightarrow> watch_response list \<Rightarrow> coordinator \<Rightarrow> watch_end \<times> coordinator" where
  "node_responses dial [] n = (ChannelClosed, n)"
| "node_responses dial (r # rs) n =
     (if wrCompactRevision r \<noteq> 0 then (WatchCompacted, n)
      else if wrErr r then (WatchFailed, n)
      else if wrCanceled r then (WatchCanceled, n)
      else node_responses dial rs (fold (watch_node_event dial) (wrEvents r) n))"

text \<open>The second result is whether a recovery loop is started.\<close>

definition watchNodesOnce ::
  "(string \<Rightarrow> bool) \<Rightarrow> (string \<times> etcd_kv) list option \<Rightarrow> watch_response list \<Rightarrow> coordinator
     \<Rightarrow> watch_end \<times> bool \<times> coordinator" where
  "watchNodesOnce dial got rs n =
     (case got of
        None \<Rightarrow> (BootstrapFailed, False, n)
      | Some kvs \<Rightarrow>
          (case onNodesSnapshot dial (node_snapshot kvs) n of
             (started, n1) \<Rightarrow> (case node_responses dial rs n1 of (e, n2) \<Rightarrow> (e, started, n2))))"

definition watchRetryInitialDelay :: int where "watchRetryInitialDelay = 500000000"
definition watchRetryMaxDelay :: int where "watchRetryMaxDelay = 5000000000"

definition jitter :: "(int \<Rightarrow> int) \<Rightarrow> int \<Rightarrow> int" where
  "jitter rnd d = (if d \<le> 0 then 0 else d div 2 + rnd d)"

text \<open>
  One turn of the loop of \<open>WatchNodes\<close>: what the read and the watch give, whether the context is done
  after it or during the sleep, and the random number. An empty list is a loop still running. The
  results are the waits, whether each session started a recovery, and the coordinator.
\<close>

record watch_session =
  wsGot :: "(string \<times> etcd_kv) list option"
  wsResponses :: "watch_response list"
  wsDone :: bool
  wsSleepDone :: bool
  wsRandom :: "int \<Rightarrow> int"

fun watch_nodes_loop ::
  "(string \<Rightarrow> bool) \<Rightarrow> int \<Rightarrow> watch_session list \<Rightarrow> coordinator \<Rightarrow> int list \<times> bool list \<times> coordinator" where
  "watch_nodes_loop dial delay [] n = ([], [], n)"
| "watch_nodes_loop dial delay (w # ws) n =
     (case watchNodesOnce dial (wsGot w) (wsResponses w) n of
        (e, started, n1) \<Rightarrow>
          if wsDone w then ([], [started], n1)
          else if e = WatchCompacted then
            (case watch_nodes_loop dial delay ws n1 of (ts, ss, n2) \<Rightarrow> (ts, started # ss, n2))
          else if wsSleepDone w then ([jitter (wsRandom w) delay], [started], n1)
          else (case watch_nodes_loop dial (min (delay * 2) watchRetryMaxDelay) ws n1 of
              (ts, ss, n2) \<Rightarrow> (jitter (wsRandom w) delay # ts, started # ss, n2)))"

definition WatchNodes ::
  "(string \<Rightarrow> bool) \<Rightarrow> watch_session list \<Rightarrow> coordinator \<Rightarrow> int list \<times> bool list \<times> coordinator" where
  "WatchNodes dial ws n = watch_nodes_loop dial watchRetryInitialDelay ws n"

section \<open>The other watches\<close>

fun topic_events ::
  "disk_env \<Rightarrow> bool \<Rightarrow> watch_event list \<Rightarrow> coordinator \<Rightarrow> job list \<times> coordinator" where
  "topic_events env removeAllOk [] n = ([], n)"
| "topic_events env removeAllOk (ev # evs) n =
     (case watch_topic_event env removeAllOk ev n of
        (jobs, n1) \<Rightarrow> (case topic_events env removeAllOk evs n1 of (later, n2) \<Rightarrow> (jobs @ later, n2)))"

fun topic_responses ::
  "disk_env \<Rightarrow> bool \<Rightarrow> watch_response list \<Rightarrow> coordinator \<Rightarrow> job list \<times> coordinator" where
  "topic_responses env removeAllOk [] n = ([], n)"
| "topic_responses env removeAllOk (r # rs) n =
     (if wrCanceled r then ([], n)
      else case topic_events env removeAllOk (wrEvents r) n of
        (jobs, n1) \<Rightarrow> (case topic_responses env removeAllOk rs n1 of (later, n2) \<Rightarrow> (jobs @ later, n2)))"

text \<open>The revision the watch starts from is a result; \<open>got\<close> comes with the revision of the read.\<close>

definition watchTopicLoop ::
  "disk_env \<Rightarrow> bool \<Rightarrow> ((string \<times> etcd_kv) list \<times> int) option \<Rightarrow> watch_response list \<Rightarrow> coordinator
     \<Rightarrow> int \<times> job list \<times> coordinator" where
  "watchTopicLoop env removeAllOk got rs n =
     (case (case got of None \<Rightarrow> (1, [], n)
            | Some (kvs, revision) \<Rightarrow>
                (case topic_bootstrap env removeAllOk kvs n of (jobs, n1) \<Rightarrow> (revision + 1, jobs, n1))) of
        (startRev, jobs, n1) \<Rightarrow>
          (case topic_responses env removeAllOk rs n1 of (later, n2) \<Rightarrow> (startRev, jobs @ later, n2)))"

text \<open>Events other than puts are ignored, and so is everything else a response may say.\<close>

fun metadata_events :: "'e etcd \<Rightarrow> watch_event list \<Rightarrow> coordinator \<Rightarrow> 'e \<Rightarrow> coordinator \<times> 'e" where
  "metadata_events E [] n e = (n, e)"
| "metadata_events E (WatchPut key v # evs) n e =
     (case watch_metadata_event E v n e of (n1, e1) \<Rightarrow> metadata_events E evs n1 e1)"
| "metadata_events E (WatchDelete key prev # evs) n e = metadata_events E evs n e"

definition watchMetadataLoop :: "'e etcd \<Rightarrow> watch_response list \<Rightarrow> coordinator \<Rightarrow> 'e \<Rightarrow> coordinator \<times> 'e" where
  "watchMetadataLoop E rs n e = metadata_events E (concat (map wrEvents rs)) n e"

section \<open>Start\<close>

datatype worker = NodeWatch | RebalanceWorker | MetadataWatch | TopicWatch | ReconcileLoop | LocalReports | Elections

text \<open>
  \<open>PutNodeState\<close>: \<open>granted\<close> is the lease, if one was granted, \<open>put\<close> the write of the key under it and
  \<open>keepAlive\<close> whether the keep-alive started; the lease is kept even if a later call fails.
\<close>

definition PutNodeState ::
  "int option \<Rightarrow> (int \<Rightarrow> NodeState \<Rightarrow> 'e \<Rightarrow> (cluster_error + bool) \<times> 'e) \<Rightarrow> bool \<Rightarrow> NodeState \<Rightarrow> coordinator \<Rightarrow> 'e
     \<Rightarrow> cluster_error option \<times> coordinator \<times> 'e" where
  "PutNodeState granted put keepAlive st n e =
     (case granted of
        None \<Rightarrow> (Some EEtcd, n, e)
      | Some lease \<Rightarrow>
          (let n1 = n\<lparr>leaseId := lease\<rparr>
           in case put lease st e of
                (Inl x, e1) \<Rightarrow> (Some x, n1, e1)
              | (Inr _, e1) \<Rightarrow> (if keepAlive then None else Some EEtcd, n1, e1)))"

definition put_node_key :: "'e etcd \<Rightarrow> int \<Rightarrow> NodeState \<Rightarrow> 'e \<Rightarrow> (cluster_error + bool) \<times> 'e" where
  "put_node_key E lease st e = eTxn E [] [OpPut (nodeKey (nsID st)) (VNode st) lease] e"

definition Start ::
  "'e etcd \<Rightarrow> int option \<Rightarrow> bool \<Rightarrow> string \<Rightarrow> NodeAddresses \<Rightarrow> coordinator \<Rightarrow> 'e \<Rightarrow> worker list \<times> coordinator \<times> 'e" where
  "Start E granted keepAlive startTime addrs n e =
     (let n1 = n\<lparr>addresses := addrs\<rparr>;
          st = \<lparr>nsID = nodeID n, nsAddress = naReplication addrs, nsTcpAddress = naTCP addrs,
                nsControlAddress = naControl addrs, nsHttpAddress = naHTTP addrs, nsStartTime = startTime,
                nsRole = Unroled\<rparr>
      in case PutNodeState granted (put_node_key E) keepAlive st n1 e of
           (Some x, n2, e1) \<Rightarrow> ([], n2, e1)
         | (None, n2, e1) \<Rightarrow>
             ([NodeWatch, RebalanceWorker, MetadataWatch, TopicWatch, ReconcileLoop, LocalReports, Elections], n2, e1))"


section \<open>What a session tells\<close>

text \<open>The events of a session: those before the response that ends it.\<close>

fun seen :: "watch_response list \<Rightarrow> watch_event list" where
  "seen [] = []"
| "seen (r # rs) = (if wrCompactRevision r \<noteq> 0 \<or> wrErr r \<or> wrCanceled r then [] else wrEvents r @ seen rs)"

lemma node_responses_seen: "snd (node_responses dial rs n) = fold (watch_node_event dial) (seen rs) n"
  by (induction dial rs n rule: node_responses.induct) auto

text \<open>
  The documented order of a watch: its events are the changes of the keys in the order of their
  revisions. \<open>node_history s evs t\<close> says that \<open>evs\<close> are the changes of the node keys from \<open>s\<close> to \<open>t\<close>.
\<close>

definition node_change :: "etcd_store \<Rightarrow> watch_event \<Rightarrow> etcd_store \<Rightarrow> bool" where
  "node_change s ev t \<longleftrightarrow> nodes_ok t \<and>
     (case ev of
        WatchPut key v \<Rightarrow> has_prefix NodesDiscoveryPath key \<and> map_option kvValue (store_get key t) = Some v \<and>
          (\<forall>k. k \<noteq> key \<and> has_prefix NodesDiscoveryPath k \<longrightarrow> store_get k t = store_get k s)
      | WatchDelete key prev \<Rightarrow> has_prefix NodesDiscoveryPath key \<and> prev \<noteq> None \<and>
          map_option kvValue (store_get key s) = prev \<and> store_get key t = None \<and>
          (\<forall>k. k \<noteq> key \<and> has_prefix NodesDiscoveryPath k \<longrightarrow> store_get k t = store_get k s))"

inductive node_history :: "etcd_store \<Rightarrow> watch_event list \<Rightarrow> etcd_store \<Rightarrow> bool" where
  history_nil: "node_history s [] s"
| history_snoc: "node_history s evs t \<Longrightarrow> node_change t ev u \<Longrightarrow> node_history s (evs @ [ev]) u"

section \<open>The members follow the store\<close>

definition tracks :: "etcd_store \<Rightarrow> coordinator \<Rightarrow> bool" where
  "tracks s n \<longleftrightarrow> nodes_ok s \<and> (\<forall>i. map_of (members n) i = node_at s i)"

text \<open>Every replication client belongs to a member.\<close>

definition clients_members :: "coordinator \<Rightarrow> bool" where
  "clients_members n \<longleftrightarrow> keyed (members n) \<and> (\<forall>i. GetGrpcClient i (cbroker n) \<longrightarrow> map_of (members n) i \<noteq> None)"

lemma keyed_update: "keyed m \<Longrightarrow> keyed (AList.update (nsID st) st m)"
  using update_subset by (fastforce simp: keyed_def distinct_update)

lemma keyed_delete: "keyed m \<Longrightarrow> keyed (AList.delete i m)"
  by (auto simp: keyed_def AList.delete_eq distinct_map_filter)

lemma join_clients: "clients_members n \<Longrightarrow> clients_members (onNodeJoin dial st n)"
  by (auto simp: clients_members_def keyed_update update_conv')
    (auto simp: onNodeJoin_def Let_def GetGrpcClient_def AddPeers_def update_conv' split: if_splits)

lemma leave_clients: "clients_members n \<Longrightarrow> clients_members (onNodeLeave st n)"
  by (auto simp: clients_members_def keyed_delete delete_conv' GetGrpcClient_def RemovePeer_def split: if_splits)

lemma loss_clients [simp]:
  "clients_members (snd (handleSessionLoss n)) = clients_members n" "members (snd (handleSessionLoss n)) = members n"
  by (auto simp: clients_members_def handleSessionLoss_def GetGrpcClient_def ToFollower_def)

lemma fold_keeps: "P a \<Longrightarrow> (\<And>x b. x \<in> set xs \<Longrightarrow> P b \<Longrightarrow> P (f x b)) \<Longrightarrow> P (fold f xs a)"
  by (induction xs arbitrary: a) auto

lemma snapshot_clients:
  assumes "clients_members n"
  shows "clients_members (snd (onNodesSnapshot dial snapshot n))"
proof -
  obtain left joined where d: "diffMembers (members n) snapshot = (left, joined)" by fastforce
  have "clients_members (fold (onNodeJoin dial) joined (fold onNodeLeave left n))"
    by (rule fold_keeps [where P = clients_members], rule fold_keeps [where P = clients_members])
      (simp_all add: join_clients leave_clients assms)
  then show ?thesis using d by (simp add: onNodesSnapshot_def Let_def)
qed

lemma event_clients: "clients_members n \<Longrightarrow> clients_members (watch_node_event dial ev n)"
  by (auto simp: watch_node_event_def join_clients leave_clients split: watch_event.split option.split)

lemma session_clients:
  "clients_members n \<Longrightarrow> clients_members (snd (snd (watchNodesOnce dial got rs n)))"
proof -
  assume a: "clients_members n"
  have "clients_members (snd (node_responses dial rs m))" if "clients_members m" for m
    unfolding node_responses_seen by (rule fold_keeps [where P = clients_members, OF that]) (rule event_clients)
  then have "clients_members (snd (node_responses dial rs (snd (onNodesSnapshot dial (node_snapshot kvs) n))))" for kvs
    using snapshot_clients [OF a] by blast
  then show ?thesis by (simp add: watchNodesOnce_def a split_beta split: option.split)
qed

lemma nodes_ok_key:
  assumes "nodes_ok s" and "has_prefix NodesDiscoveryPath key" and "store_get key s = Some kv"
  obtains i st where "key = nodeKey i" "kvValue kv = VNode st" "decodeNodeState key (kvValue kv) = Some (st\<lparr>nsID := i\<rparr>)"
    "node_at s i = Some (st\<lparr>nsID := i\<rparr>)"
proof -
  obtain i st where st: "key = nodeKey i" "- (2 ^ 63) \<le> i" "i < 2 ^ 63" "kvValue kv = VNode st" "nsID st = i \<or> nsID st = 0"
    using assms unfolding nodes_ok_def by blast
  have "decodeNodeState key (kvValue kv) = Some (st\<lparr>nsID := i\<rparr>)"
    using st(5) ParseInt_fmt_int [OF st(2,3)] by (auto simp: decodeNodeState_def st(1,4))
  moreover have "node_at s i = Some (st\<lparr>nsID := i\<rparr>)" using assms(3) st(1,4) by (simp add: node_at_def)
  ultimately show thesis using that st(1,4) by blast
qed

lemma node_at_other:
  assumes "\<forall>k. k \<noteq> nodeKey i \<and> has_prefix NodesDiscoveryPath k \<longrightarrow> store_get k t = store_get k s" and "j \<noteq> i"
  shows "node_at t j = node_at s j"
proof -
  have "nodeKey j \<noteq> nodeKey i" using assms(2) by (simp add: nodeKey_def)
  then show ?thesis using assms(1) by (simp add: node_at_def)
qed

lemma event_tracks:
  assumes "tracks s n" and "node_change s ev t"
  shows "tracks t (watch_node_event dial ev n)"
proof (cases ev)
  case (WatchPut key v)
  with assms(2) have ok: "nodes_ok t" "has_prefix NodesDiscoveryPath key"
    and other: "\<forall>k. k \<noteq> key \<and> has_prefix NodesDiscoveryPath k \<longrightarrow> store_get k t = store_get k s"
    by (simp_all add: node_change_def)
  obtain kv where kv: "store_get key t = Some kv" "kvValue kv = v"
    using assms(2) WatchPut by (auto simp: node_change_def)
  obtain i st where st: "key = nodeKey i" "decodeNodeState key v = Some (st\<lparr>nsID := i\<rparr>)" "node_at t i = Some (st\<lparr>nsID := i\<rparr>)"
    using nodes_ok_key [OF ok kv(1)] kv(2) by metis
  have "map_of (members (watch_node_event dial ev n)) j = node_at t j" for j
    using assms(1) st node_at_other [OF other [unfolded st(1)], of j]
    by (simp add: WatchPut watch_node_event_def tracks_def update_conv')
  then show ?thesis using ok(1) by (simp add: tracks_def)
next
  case (WatchDelete key prev)
  with assms(2) obtain kv where kv: "store_get key s = Some kv" "prev = Some (kvValue kv)" "store_get key t = None"
    and ok: "nodes_ok t" "has_prefix NodesDiscoveryPath key"
    and other: "\<forall>k. k \<noteq> key \<and> has_prefix NodesDiscoveryPath k \<longrightarrow> store_get k t = store_get k s"
    by (auto simp: node_change_def)
  have "nodes_ok s" using assms(1) by (simp add: tracks_def)
  from nodes_ok_key [OF this ok(2) kv(1)] obtain i st where
    st: "key = nodeKey i" "decodeNodeState key (kvValue kv) = Some (st\<lparr>nsID := i\<rparr>)" by metis
  have "map_of (members (watch_node_event dial ev n)) j = node_at t j" for j
    using assms(1) st node_at_other [OF other [unfolded st(1)], of j] kv(3)
    by (auto simp: WatchDelete watch_node_event_def tracks_def kv(2) delete_conv' node_at_def)
  then show ?thesis using ok(1) by (simp add: tracks_def)
qed

lemma history_tracks:
  "node_history s evs t \<Longrightarrow> tracks s n \<Longrightarrow> tracks t (fold (watch_node_event dial) evs n)"
  by (induction rule: node_history.induct) (simp_all add: event_tracks)

lemma session_tracks:
  assumes "keyed (members n)" and "wsGot w = Some kvs" and "range_result s (RangePrefix NodesDiscoveryPath) kvs"
    and "nodes_ok s" and "node_history s (seen (wsResponses w)) t"
  shows "tracks t (snd (snd (watchNodesOnce dial (wsGot w) (wsResponses w) n)))"
proof -
  note snap = node_snapshot_of [OF assms(4,3)]
  obtain started n1 where n1: "onNodesSnapshot dial (node_snapshot kvs) n = (started, n1)" by fastforce
  have "map_of (members n1) i = node_at s i" for i
    using snapshot_replaces_members [OF assms(1) snap(2) n1, of i] snap(1) by simp
  then have "tracks s n1" using assms(4) by (simp add: tracks_def)
  from history_tracks [OF assms(5) this, of dial] show ?thesis
    using node_responses_seen [of dial "wsResponses w" n1] n1 assms(2) by (simp add: watchNodesOnce_def split_beta)
qed

text \<open>Earlier sessions that did not end the loop leave some coordinator for the next one.\<close>

lemma watch_nodes_loop_append:
  assumes "\<forall>w\<in>set ws. \<not> wsDone w \<and> \<not> wsSleepDone w" and "clients_members n"
  shows "\<exists>d m. clients_members m \<and>
    snd (snd (watch_nodes_loop dial delay (ws @ vs) n)) = snd (snd (watch_nodes_loop dial d vs m))"
  using assms
proof (induction ws arbitrary: delay n)
  case Nil
  then show ?case by auto
next
  case (Cons w ws)
  obtain e started n1 where o: "watchNodesOnce dial (wsGot w) (wsResponses w) n = (e, started, n1)" by (metis prod.exhaust)
  have "clients_members n1" using session_clients [OF Cons.prems(2), of dial "wsGot w" "wsResponses w"] o by simp
  then obtain d m where "clients_members m" "snd (snd (watch_nodes_loop dial
      (if e = WatchCompacted then delay else min (delay * 2) watchRetryMaxDelay) (ws @ vs) n1)) = snd (snd (watch_nodes_loop dial d vs m))"
    using Cons.IH Cons.prems(1) by fastforce
  then show ?case using o Cons.prems(1) by (intro exI [of _ d] exI [of _ m]) (auto simp: split_beta)
qed

lemma last_session:
  "snd (snd (watch_nodes_loop dial delay [w] n)) = snd (snd (watchNodesOnce dial (wsGot w) (wsResponses w) n))"
  by (simp add: split_beta)

text \<open>The \<open>k\<close>-th wait: doubled from the first delay up to the largest, and spread by half of it.\<close>

lemma watch_waits:
  assumes "0 < delay" and "delay \<le> watchRetryMaxDelay" and "\<forall>w\<in>set ws. \<forall>d>0. 0 \<le> wsRandom w d \<and> wsRandom w d < d"
    and "k < length (fst (watch_nodes_loop dial delay ws n))"
  shows "min (delay * 2 ^ k) watchRetryMaxDelay div 2 \<le> fst (watch_nodes_loop dial delay ws n) ! k \<and>
    fst (watch_nodes_loop dial delay ws n) ! k < min (delay * 2 ^ k) watchRetryMaxDelay div 2 + min (delay * 2 ^ k) watchRetryMaxDelay"
  using assms
proof (induction ws arbitrary: delay n k)
  case Nil
  then show ?case by simp
next
  case (Cons w ws)
  obtain e started n1 where o: "watchNodesOnce dial (wsGot w) (wsResponses w) n = (e, started, n1)" by (metis prod.exhaust)
  let ?next = "min (delay * 2) watchRetryMaxDelay"
  have j: "delay div 2 \<le> jitter (wsRandom w) delay \<and> jitter (wsRandom w) delay < delay div 2 + delay"
    using Cons.prems(1,3) by (simp add: jitter_def)
  have d0: "min (delay * 2 ^ 0) watchRetryMaxDelay = delay" using Cons.prems(2) by simp
  have step: "min (?next * 2 ^ i) watchRetryMaxDelay = min (delay * 2 ^ Suc i) watchRetryMaxDelay" for i
  proof -
    have "watchRetryMaxDelay * 1 \<le> watchRetryMaxDelay * 2 ^ i" "delay * 2 * 1 \<le> delay * 2 * 2 ^ i"
      using Cons.prems(1) by (intro mult_left_mono; simp add: watchRetryMaxDelay_def)+
    then show ?thesis by (cases "delay * 2 \<le> watchRetryMaxDelay") (simp_all add: min_def mult.assoc)
  qed
  have IH: "j < length (fst (watch_nodes_loop dial ?next ws n1)) \<Longrightarrow>
      min (delay * 2 ^ Suc j) watchRetryMaxDelay div 2 \<le> fst (watch_nodes_loop dial ?next ws n1) ! j \<and>
      fst (watch_nodes_loop dial ?next ws n1) ! j < min (delay * 2 ^ Suc j) watchRetryMaxDelay div 2 + min (delay * 2 ^ Suc j) watchRetryMaxDelay" for j
    using Cons.IH [of ?next j n1] Cons.prems(1,3) step by (simp add: watchRetryMaxDelay_def)
  show ?case
  proof (cases "wsDone w \<or> e = WatchCompacted")
    case True
    then show ?thesis using Cons.prems(1,2,3,4) Cons.IH [of delay k n1] o by (auto simp: split_beta split: if_splits)
  next
    case False
    then show ?thesis using Cons.prems(4) IH j d0 o by (cases k) (auto simp: split_beta split: if_splits)
  qed
qed


text \<open>C36. The membership follows etcd. Let the node watch go through any number of sessions, broken off by
  errors, cancellation or compaction at any point, and a last one. If the last session's snapshot is
  the node keys of some state of the store, and its events up to now are the changes from that state
  to a later one, then the members are exactly the nodes of the later state, whatever the earlier
  sessions missed; and only members have a replication client. The wait after the \<open>k\<close>-th failure lies
  within a half of 0.5 s doubled \<open>k\<close> times, at most 5 s; a compaction is not waited for.\<close>

theorem watch_tracks_members:
  assumes "clients_members n" and "\<forall>v\<in>set ws. \<not> wsDone v \<and> \<not> wsSleepDone v"
    and "wsGot w = Some kvs" and "range_result s (RangePrefix NodesDiscoveryPath) kvs" and "nodes_ok s"
    and "node_history s (seen (wsResponses w)) t"
    and "\<forall>v\<in>set (ws @ [w]). \<forall>d>0. 0 \<le> wsRandom v d \<and> wsRandom v d < d"
    and "WatchNodes dial (ws @ [w]) n = (waits, starts, n')"
  shows "map_of (members n') i = node_at t i \<and> (GetGrpcClient i (cbroker n') \<longrightarrow> node_at t i \<noteq> None)
    \<and> (\<forall>k<length waits. let d = min (500000000 * 2 ^ k) 5000000000
         in d div 2 \<le> waits ! k \<and> waits ! k < d div 2 + d)"
proof -
  obtain d m where m: "clients_members m" "n' = snd (snd (watchNodesOnce dial (wsGot w) (wsResponses w) m))"
    using watch_nodes_loop_append [OF assms(2,1), of dial watchRetryInitialDelay "[w]"] assms(8)
    unfolding WatchNodes_def last_session by (metis snd_conv)
  have "keyed (members m)" using m(1) by (simp add: clients_members_def)
  from session_tracks [OF this assms(3-6), of dial] m(2) have "tracks t n'" by simp
  moreover have "clients_members n'" using session_clients [OF m(1)] m(2) by simp
  moreover have "min (500000000 * 2 ^ k) 5000000000 div 2 \<le> waits ! k \<and>
      waits ! k < min (500000000 * 2 ^ k) 5000000000 div 2 + min (500000000 * 2 ^ k) 5000000000" if "k < length waits" for k
    using watch_waits [of watchRetryInitialDelay "ws @ [w]" k dial n] assms(7,8) that
    by (simp add: WatchNodes_def watchRetryInitialDelay_def watchRetryMaxDelay_def)
  ultimately show ?thesis unfolding Let_def by (auto simp: tracks_def clients_members_def)
qed


text \<open>The first read fails; then node 1 is found, and deleted.\<close>

definition sample_sessions :: "watch_session list" where
  "sample_sessions = [\<lparr>wsGot = None, wsResponses = [], wsDone = False, wsSleepDone = False, wsRandom = \<lambda>_. 0\<rparr>]"

definition sample_session :: watch_session where
  "sample_session = \<lparr>wsGot = Some (range_of one_node (RangePrefix NodesDiscoveryPath)),
     wsResponses = [\<lparr>wrCompactRevision = 0, wrErr = False, wrCanceled = False,
       wrEvents = [WatchDelete (nodeKey 1) (Some (VNode (Coordinator.sample_node 1)))]\<rparr>],
     wsDone = True, wsSleepDone = False, wsRandom = \<lambda>_. 0\<rparr>"

theorem watch_tracks_members_witness:
  "\<exists>starts n'. WatchNodes (\<lambda>_. True) (sample_sessions @ [sample_session]) sample_coordinator = ([250000000], starts, n')
     \<and> map_of (members n') 1 = None \<and> map_of (members n') 2 = None"
proof -
  let ?ev = "WatchDelete (nodeKey 1) (Some (VNode (Coordinator.sample_node 1)))"
  let ?t = "store_commit [OpDelete (nodeKey 1)] one_node"
  obtain starts n' where run: "WatchNodes (\<lambda>_. True) (sample_sessions @ [sample_session]) sample_coordinator = ([250000000], starts, n')"
    by (simp add: WatchNodes_def watchNodesOnce_def sample_sessions_def sample_session_def jitter_def watchRetryInitialDelay_def split_beta)
  have s0: "\<forall>v\<in>set sample_sessions. \<not> wsDone v \<and> \<not> wsSleepDone v"
    "\<forall>v\<in>set (sample_sessions @ [sample_session]). \<forall>d>0. 0 \<le> wsRandom v d \<and> wsRandom v d < d"
    by (simp_all add: sample_sessions_def sample_session_def)
  have s1: "wsGot sample_session = Some (range_of one_node (RangePrefix NodesDiscoveryPath))"
    by (simp add: sample_session_def)
  have ok: "nodes_ok one_node" "nodes_ok ?t" using one_node_ok by (auto simp: meta_ok_def nodes_ok_def one_node_get)
  have "node_change one_node ?ev ?t" using ok by (auto simp: node_change_def one_node_get)
  then have hist: "node_history one_node (seen (wsResponses sample_session)) ?t"
    using history_snoc [OF history_nil, of one_node ?ev ?t] by (simp add: sample_session_def)
  have c: "clients_members sample_coordinator"
    by (simp add: clients_members_def sample_coordinator_def keyed_def Coordinator.sample_node_def NewNodeCoordinator_def
        GetGrpcClient_def ToController_def NewBroker_def)
  have gone: "node_at ?t 1 = None" "node_at ?t 2 = None" by (simp_all add: node_at_def one_node_get nodeKey_def)
  have "map_of (members n') i = node_at ?t i" for i
    using watch_tracks_members [OF c s0(1) s1 range_of_result ok(1) hist s0(2) run] by blast
  with run gone show ?thesis by simp
qed

section \<open>What the watches do not do\<close>

text \<open>
  A node that is already a member gets no new connection: if its first record had no address, or it
  comes back under another one before its old key is deleted, its replication client stays as it was.
\<close>

lemma member_keeps_connection:
  "map_of (members n) (nsID st) \<noteq> None \<Longrightarrow> cbroker (onNodeJoin dial st n) = cbroker n"
  by (simp add: onNodeJoin_def Let_def)

text \<open>
  The topic watch is not restarted: after a cancelled response, which is also how a compaction is
  reported, no later change of a topic reaches the node. A watch whose initial read failed asks for the
  changes since revision 1, which a compacted store cancels at once.
\<close>

lemma topic_watch_ends:
  "wrCanceled r \<Longrightarrow> topic_responses env removeAllOk (rs @ r # rs') n = topic_responses env removeAllOk rs n"
  by (induction rs arbitrary: n) (auto split: prod.splits)

lemma topic_watch_without_read:
  "wrCanceled r \<Longrightarrow> watchTopicLoop env removeAllOk None (r # rs) n = (1, [], n)"
  by (simp add: watchTopicLoop_def)

text \<open>A node whose first registration fails starts none of its loops and does not try again.\<close>

lemma failed_start: "granted = None \<or> \<not> keepAlive \<Longrightarrow> fst (Start E granted keepAlive startTime addrs n e) = []"
  by (auto simp: Start_def PutNodeState_def Let_def split: option.splits sum.splits prod.splits)

end
