(* ===== verification/Session.thy ===== *)
theory Session
  imports Watch
begin

text \<open>
  The session of a node with etcd over time, \<open>server/cluster/etcd.go\<close>: the keep-alive goroutine of
  \<open>PutNodeState\<close>, the recovery loop, and how the two run beside each other. A registration that succeeds
  starts a goroutine, known by its lease. The context of the node is its flag; a ticker is its ticks.
\<close>

section \<open>The keep-alive goroutine\<close>

datatype keep_event = KeepAnswer | KeepClosed | KeepCancelled

text \<open>Results: whether the goroutine ends, the leases it revokes, whether a recovery loop is started.\<close>

definition keep_alive_event :: "keep_event \<Rightarrow> int \<Rightarrow> coordinator \<Rightarrow> (bool \<times> int list \<times> bool) \<times> coordinator" where
  "keep_alive_event ev lease n =
     (case ev of
        KeepCancelled \<Rightarrow> ((True, [lease], False), n)
      | KeepAnswer \<Rightarrow> ((False, [], False), n)
      | KeepClosed \<Rightarrow> (case keepAliveLost n of (started, n') \<Rightarrow> ((True, [], started), n')))"

section \<open>The recovery loop\<close>

definition recovery_state :: "string \<Rightarrow> coordinator \<Rightarrow> NodeState" where
  "recovery_state startTime n =
     \<lparr>nsID = nodeID n, nsAddress = naReplication (addresses n), nsTcpAddress = naTCP (addresses n),
      nsControlAddress = naControl (addresses n), nsHttpAddress = naHTTP (addresses n), nsStartTime = startTime,
      nsRole = Unroled\<rparr>"

definition recovery_put ::
  "'e etcd \<Rightarrow> int option \<Rightarrow> bool \<Rightarrow> string \<Rightarrow> coordinator \<Rightarrow> 'e \<Rightarrow> cluster_error option \<times> coordinator \<times> 'e" where
  "recovery_put E granted keepAlive startTime n e =
     PutNodeState granted (put_node_key E) keepAlive (recovery_state startTime n) n e"

text \<open>
  The loop when nothing else touches the node meanwhile. A tick has what etcd answers and \<open>CatchUpPartition\<close>;
  \<open>kept\<close> are the leases of the goroutines that run. \<open>RestoreData\<close> may never return.
\<close>

type_synonym catch_up = "string \<Rightarrow> int \<Rightarrow> int \<Rightarrow> broker \<Rightarrow> (go_error option \<times> broker) option"

datatype loop_event = LoopDone | LoopTick "int option" bool string catch_up
datatype loop_end = LoopWaiting | LoopStopped | LoopRestoring | LoopRecovered

fun recoveryLoop ::
  "'e etcd \<Rightarrow> loop_event list \<Rightarrow> coordinator \<Rightarrow> int list \<Rightarrow> 'e \<Rightarrow> loop_end \<times> coordinator \<times> int list \<times> 'e" where
  "recoveryLoop E [] n kept e = (LoopWaiting, n, kept, e)"
| "recoveryLoop E (LoopDone # ts) n kept e = (LoopStopped, n, kept, e)"
| "recoveryLoop E (LoopTick granted keepAlive startTime cu # ts) n kept e =
     (case recovery_put E granted keepAlive startTime n e of
        (Some x, n1, e1) \<Rightarrow> recoveryLoop E ts n1 kept e1
      | (None, n1, e1) \<Rightarrow>
          (case RestoreData cu (GetLeaderId n1) (cbroker n1) of
             None \<Rightarrow> (LoopRestoring, n1, kept @ [leaseId n1], e1)
           | Some (Some x, b) \<Rightarrow> recoveryLoop E ts (n1\<lparr>cbroker := b\<rparr>) (kept @ [leaseId n1]) e1
           | Some (None, b) \<Rightarrow>
               (LoopRecovered, snd (recoveryFinish True (n1\<lparr>cbroker := b\<rparr>)), kept @ [leaseId n1], e1)))"

text \<open>
  \<open>bootstrapAndSyncSequence\<close> of \<open>node.go\<close>, which nothing calls: after a second, \<open>RestoreData\<close> until it
  succeeds, then a new election context. An event is a wait that ends, with \<open>CatchUpPartition\<close> for the
  attempt after it, or the end of the node's context.
\<close>

datatype boot_event = BootDone | BootWaited catch_up

fun bootstrapAndSyncSequence :: "boot_event list \<Rightarrow> coordinator \<Rightarrow> loop_end \<times> coordinator" where
  "bootstrapAndSyncSequence [] n = (LoopWaiting, n)"
| "bootstrapAndSyncSequence (BootDone # ts) n = (LoopStopped, n)"
| "bootstrapAndSyncSequence (BootWaited cu # ts) n =
     (case RestoreData cu (GetLeaderId n) (cbroker n) of
        None \<Rightarrow> (LoopRestoring, n)
      | Some (Some x, b) \<Rightarrow> bootstrapAndSyncSequence ts (n\<lparr>cbroker := b\<rparr>)
      | Some (None, b) \<Rightarrow> (LoopRecovered, n\<lparr>cbroker := b, electionOn := True\<rparr>))"

section \<open>Steps of a session\<close>

text \<open>
  A recovery loop waits for a tick, restores data, or has opened the election and is about to leave the
  pause. \<open>seLost\<close> counts election contexts that were replaced while alive: nothing can cancel them.
  \<open>seGranted\<close> and \<open>seRevoked\<close> are the leases etcd granted and the node revoked.
\<close>

datatype loop_phase = Waiting | Restoring | Resuming

record 'e session =
  seNode :: coordinator
  seKept :: "int list"
  seLoops :: "loop_phase list"
  seLost :: nat
  seStopped :: bool
  seGranted :: "int list"
  seRevoked :: "int list"
  seEtcd :: 'e

definition fresh_grant :: "int option \<Rightarrow> 'e session \<Rightarrow> bool" where
  "fresh_grant granted s \<longleftrightarrow> (\<forall>l. granted = Some l \<longrightarrow> l \<noteq> 0 \<and> l \<notin> set (seGranted s))"

definition start_loop :: "bool \<Rightarrow> loop_phase list \<Rightarrow> loop_phase list" where
  "start_loop started loops = (if started then loops @ [Waiting] else loops)"

definition drop_nth :: "nat \<Rightarrow> 'a list \<Rightarrow> 'a list" where
  "drop_nth i xs = take i xs @ drop (Suc i) xs"

text \<open>What the rest of the node does leaves the session alone.\<close>

definition same_session :: "coordinator \<Rightarrow> coordinator \<Rightarrow> bool" where
  "same_session n n' \<longleftrightarrow> nodeID n' = nodeID n \<and> addresses n' = addresses n \<and> leaseId n' = leaseId n
     \<and> paused n' = paused n \<and> electionOn n' = electionOn n"

inductive session_step :: "'e etcd \<Rightarrow> 'e session \<Rightarrow> 'e session \<Rightarrow> bool" for E where
  kept: "l \<in> set (seKept s) \<Longrightarrow> ev = KeepCancelled \<longrightarrow> seStopped s \<Longrightarrow>
    keep_alive_event ev l (seNode s) = ((ended, revoked, started), n) \<Longrightarrow>
    session_step E s (s\<lparr>seNode := n, seKept := (if ended then remove1 l (seKept s) else seKept s),
      seRevoked := seRevoked s @ revoked, seLoops := start_loop started (seLoops s)\<rparr>)"
| snapshot: "onNodesSnapshot dial nodes (seNode s) = (started, n) \<Longrightarrow>
    session_step E s (s\<lparr>seNode := n, seLoops := start_loop started (seLoops s)\<rparr>)"
| tick: "i < length (seLoops s) \<Longrightarrow> seLoops s ! i = Waiting \<Longrightarrow> fresh_grant granted s \<Longrightarrow>
    recovery_put E granted keepAlive startTime (seNode s) (seEtcd s) = (err, n, e) \<Longrightarrow>
    session_step E s (s\<lparr>seNode := n, seEtcd := e, seGranted := seGranted s @ (case granted of None \<Rightarrow> [] | Some l \<Rightarrow> [l]),
      seKept := seKept s @ (if err = None then [leaseId n] else []),
      seLoops := (if err = None then (seLoops s)[i := Restoring] else seLoops s)\<rparr>)"
| restore_failed: "i < length (seLoops s) \<Longrightarrow> seLoops s ! i = Restoring \<Longrightarrow>
    RestoreData cu (GetLeaderId (seNode s)) (cbroker (seNode s)) = Some (Some x, b) \<Longrightarrow>
    session_step E s (s\<lparr>seNode := (seNode s)\<lparr>cbroker := b\<rparr>, seLoops := (seLoops s)[i := Waiting]\<rparr>)"
| restored: "i < length (seLoops s) \<Longrightarrow> seLoops s ! i = Restoring \<Longrightarrow>
    RestoreData cu (GetLeaderId (seNode s)) (cbroker (seNode s)) = Some (None, b) \<Longrightarrow>
    session_step E s (s\<lparr>seNode := (seNode s)\<lparr>cbroker := b, electionOn := \<not> seStopped s\<rparr>,
      seLost := seLost s + (if electionOn (seNode s) then 1 else 0), seLoops := (seLoops s)[i := Resuming]\<rparr>)"
| resumed: "i < length (seLoops s) \<Longrightarrow> seLoops s ! i = Resuming \<Longrightarrow>
    session_step E s (s\<lparr>seNode := (seNode s)\<lparr>paused := False\<rparr>, seLoops := drop_nth i (seLoops s)\<rparr>)"
| loop_stopped: "seStopped s \<Longrightarrow> i < length (seLoops s) \<Longrightarrow> seLoops s ! i = Waiting \<Longrightarrow>
    session_step E s (s\<lparr>seLoops := drop_nth i (seLoops s)\<rparr>)"
| closed: "session_step E s (s\<lparr>seNode := (seNode s)\<lparr>electionOn := False\<rparr>, seStopped := True\<rparr>)"
| elsewhere: "same_session (seNode s) n \<Longrightarrow> session_step E s (s\<lparr>seNode := n, seEtcd := e\<rparr>)"

text \<open>A node whose start has registered it under \<open>lease\<close>.\<close>

definition started_session :: "coordinator \<Rightarrow> int \<Rightarrow> 'e \<Rightarrow> 'e session" where
  "started_session n lease e =
     \<lparr>seNode = n, seKept = [lease], seLoops = [], seLost = 0, seStopped = False, seGranted = [lease], seRevoked = [], seEtcd = e\<rparr>"

section \<open>One recovery, one election\<close>

definition session_inv :: "'e session \<Rightarrow> bool" where
  "session_inv s \<longleftrightarrow> (let n = seNode s; ps = seLoops s in
     length ps \<le> 1 \<and> (ps \<noteq> [] \<longrightarrow> paused n) \<and> (paused n \<longrightarrow> ps \<noteq> [] \<or> seStopped s)
     \<and> (\<not> seStopped s \<and> (paused n \<longrightarrow> ps = [Resuming]) \<longleftrightarrow> electionOn n) \<and> seLost s = 0)"

definition leases_inv :: "'e session \<Rightarrow> bool" where
  "leases_inv s \<longleftrightarrow> distinct (seKept s) \<and> set (seKept s) \<subseteq> set (seGranted s) \<and> set (seRevoked s) \<subseteq> set (seGranted s)
     \<and> set (seKept s) \<inter> set (seRevoked s) = {} \<and> (seRevoked s \<noteq> [] \<longrightarrow> seStopped s)
     \<and> 0 \<notin> set (seGranted s) \<and> (leaseId (seNode s) = 0 \<or> leaseId (seNode s) \<in> set (seGranted s))"

lemma handleSessionLoss_same:
  "handleSessionLoss n = (started, n') \<Longrightarrow> leaseId n' = leaseId n \<and> started = (\<not> paused n) \<and> paused n' \<and>
     electionOn n' = (electionOn n \<and> paused n)"
  by (auto simp: handleSessionLoss_def split: if_splits)

lemma onNodeLeave_same: "leaseId (onNodeLeave st n) = leaseId n \<and> electionOn (onNodeLeave st n) = electionOn n"
  by (simp add: onNodeLeave_def Let_def enqueueRebalance_def)

lemma onNodeJoin_same: "leaseId (onNodeJoin dial st n) = leaseId n \<and> electionOn (onNodeJoin dial st n) = electionOn n"
  by (simp add: onNodeJoin_def Let_def)

lemma leaves_same: "leaseId (fold onNodeLeave xs n) = leaseId n \<and> electionOn (fold onNodeLeave xs n) = electionOn n"
  by (induction xs arbitrary: n) (simp_all add: onNodeLeave_same)

lemma joins_same: "leaseId (fold (onNodeJoin dial) xs n) = leaseId n \<and> electionOn (fold (onNodeJoin dial) xs n) = electionOn n"
  by (induction xs arbitrary: n) (simp_all add: onNodeJoin_same)

text \<open>A snapshot is a loss of the session or leaves it alone.\<close>

lemma snapshot_session:
  assumes "onNodesSnapshot dial nodes n = (started, n')"
  shows "leaseId n' = leaseId n"
    and "\<not> started \<and> paused n' = paused n \<and> electionOn n' = electionOn n \<or>
      started \<and> \<not> paused n \<and> paused n' \<and> \<not> electionOn n'"
proof -
  have "leaseId n' = leaseId n \<and> (\<not> started \<and> paused n' = paused n \<and> electionOn n' = electionOn n \<or>
      started \<and> \<not> paused n \<and> paused n' \<and> \<not> electionOn n')"
    using assms leaves_same joins_same leaves_frame(3) joins_frame(3)
    by (auto simp: onNodesSnapshot_def Let_def handleSessionLoss_def split: prod.splits if_splits)
  then show "leaseId n' = leaseId n"
    "\<not> started \<and> paused n' = paused n \<and> electionOn n' = electionOn n \<or>
      started \<and> \<not> paused n \<and> paused n' \<and> \<not> electionOn n'" by blast+
qed

lemma recovery_put_session:
  assumes "recovery_put E granted keepAlive startTime n e = (err, n', e')"
  shows "paused n' = paused n" and "electionOn n' = electionOn n" and "cbroker n' = cbroker n" and "coLeader n' = coLeader n"
    and "leaseId n' = (case granted of None \<Rightarrow> leaseId n | Some l \<Rightarrow> l)"
    and "err = None \<Longrightarrow> granted = Some (leaseId n')"
  using assms by (auto simp: recovery_put_def PutNodeState_def Let_def split: option.splits sum.splits prod.splits if_splits)

lemma one_loop: "length ps \<le> 1 \<Longrightarrow> i < length ps \<Longrightarrow> ps ! i = ph \<Longrightarrow> ps = [ph] \<and> i = 0"
  by (cases ps) auto

lemma the_loop: "session_inv s \<Longrightarrow> i < length (seLoops s) \<Longrightarrow> seLoops s ! i = ph \<Longrightarrow> seLoops s = [ph] \<and> i = 0"
  by (rule one_loop) (auto simp: session_inv_def Let_def)

lemma drop_one [simp]: "drop_nth 0 [x] = []"
  by (simp add: drop_nth_def)

lemma keep_alive_event_cases:
  assumes "keep_alive_event ev l n = ((ended, revoked, started), n')"
  shows "ev = KeepCancelled \<and> ended \<and> revoked = [l] \<and> \<not> started \<and> n' = n
    \<or> ev = KeepAnswer \<and> \<not> ended \<and> revoked = [] \<and> \<not> started \<and> n' = n
    \<or> ev = KeepClosed \<and> ended \<and> revoked = [] \<and> started = (\<not> paused n) \<and> paused n' \<and> electionOn n' = (electionOn n \<and> paused n)
        \<and> leaseId n' = 0"
  using assms by (auto simp: keep_alive_event_def keepAliveLost_def handleSessionLoss_def split: keep_event.splits prod.splits if_splits)

lemma session_step_inv:
  assumes "session_step E s s'" and "session_inv s"
  shows "session_inv s'"
  using assms(1)
proof cases
  case (kept l ev ended revoked started n)
  then show ?thesis using keep_alive_event_cases [OF kept(4)] assms(2)
    by (auto simp: session_inv_def Let_def start_loop_def)
next
  case (snapshot dial nodes started n)
  then show ?thesis using snapshot_session [OF snapshot(2)] assms(2)
    by (auto simp: session_inv_def Let_def start_loop_def)
next
  case (tick i granted keepAlive startTime err n e)
  have "seLoops s = [Waiting] \<and> i = 0" by (rule the_loop [OF assms(2) tick(2) tick(3)])
  then show ?thesis using tick(1) recovery_put_session(1,2) [OF tick(5)] assms(2) by (auto simp: session_inv_def Let_def)
next
  case (restore_failed i cu x b)
  have "seLoops s = [Restoring] \<and> i = 0" by (rule the_loop [OF assms(2) restore_failed(2) restore_failed(3)])
  then show ?thesis using restore_failed(1) assms(2) by (auto simp: session_inv_def Let_def)
next
  case (restored i cu b)
  have "seLoops s = [Restoring] \<and> i = 0" by (rule the_loop [OF assms(2) restored(2) restored(3)])
  then show ?thesis using restored(1) assms(2) by (auto simp: session_inv_def Let_def)
next
  case (resumed i)
  have "seLoops s = [Resuming] \<and> i = 0" by (rule the_loop [OF assms(2) resumed(2) resumed(3)])
  then show ?thesis using resumed(1) assms(2) by (auto simp: session_inv_def Let_def)
next
  case (loop_stopped i)
  have "seLoops s = [Waiting] \<and> i = 0" by (rule the_loop [OF assms(2) loop_stopped(3) loop_stopped(4)])
  then show ?thesis using loop_stopped(1,2) assms(2) by (auto simp: session_inv_def Let_def)
qed (use assms(2) in \<open>auto simp: session_inv_def Let_def same_session_def\<close>)

lemma step_leases:
  assumes "session_step E s s'" and "leases_inv s"
  shows "leases_inv s'"
  using assms(1)
proof cases
  case (kept l ev ended revoked started n)
  then show ?thesis using keep_alive_event_cases [OF kept(4)] assms(2)
    by (auto simp: leases_inv_def distinct_remove1 dest: notin_set_remove1 in_set_remove1)
next
  case (tick i granted keepAlive startTime err n e)
  then show ?thesis using recovery_put_session(5,6) [OF tick(5)] assms(2)
    by (cases granted) (auto simp: leases_inv_def fresh_grant_def)
next
  case (snapshot dial nodes started n)
  then show ?thesis using snapshot_session(1) [OF snapshot(2)] assms(2) by (simp add: leases_inv_def)
qed (use assms(2) in \<open>auto simp: leases_inv_def same_session_def\<close>)

lemma runs_inv:
  assumes "(session_step E)\<^sup>*\<^sup>* s s'" and "session_inv s" and "leases_inv s"
  shows "session_inv s' \<and> leases_inv s'"
  using assms by induction (auto intro: session_step_inv step_leases)

lemma started_inv:
  assumes "electionOn n" and "\<not> paused n" and "lease \<noteq> 0" and "leaseId n = lease"
  shows "session_inv (started_session n lease e)" and "leases_inv (started_session n lease e)"
  using assms by (simp_all add: session_inv_def leases_inv_def started_session_def)

section \<open>The loop is a run of steps\<close>

fun granted_of :: "loop_event \<Rightarrow> int option" where
  "granted_of LoopDone = None"
| "granted_of (LoopTick granted keepAlive startTime cu) = granted"

text \<open>The session a tick leaves running when the write of the key succeeds.\<close>

fun lease_of :: "loop_event \<Rightarrow> int option" where
  "lease_of LoopDone = None"
| "lease_of (LoopTick granted keepAlive startTime cu) = (if keepAlive then granted else None)"

definition grants_ok :: "loop_event list \<Rightarrow> 'e session \<Rightarrow> bool" where
  "grants_ok ts s \<longleftrightarrow> (let ls = List.map_filter granted_of ts in distinct ls \<and> 0 \<notin> set ls \<and> set ls \<inter> set (seGranted s) = {})"

definition phase_of :: "loop_end \<Rightarrow> loop_phase list" where
  "phase_of r = (case r of LoopWaiting \<Rightarrow> [Waiting] | LoopStopped \<Rightarrow> [] | LoopRestoring \<Rightarrow> [Restoring] | LoopRecovered \<Rightarrow> [])"

lemma grants_tick:
  assumes "grants_ok (LoopTick granted keepAlive startTime cu # ts) s"
  shows "fresh_grant granted s"
    and "seGranted s' = seGranted s @ (case granted of None \<Rightarrow> [] | Some l \<Rightarrow> [l]) \<Longrightarrow> grants_ok ts s'"
  using assms by (auto simp: grants_ok_def fresh_grant_def Let_def List.map_filter_def split: option.splits)

lemma recoveryLoop_steps:
  assumes "recoveryLoop E ts (seNode s) (seKept s) (seEtcd s) = (r, n', ks, e')" and "seLoops s = [Waiting]"
    and "\<not> seStopped s" and "\<not> electionOn (seNode s)" and "LoopDone \<notin> set ts" and "grants_ok ts s"
  shows "\<exists>s'. (session_step E)\<^sup>*\<^sup>* s s' \<and> seNode s' = n' \<and> seKept s' = ks \<and> seEtcd s' = e' \<and> seStopped s' = seStopped s
    \<and> seLoops s' = phase_of r"
  using assms
proof (induction ts arbitrary: s)
  case Nil
  then show ?case by (auto simp: phase_of_def intro!: exI [of _ s])
next
  case (Cons t ts)
  obtain granted keepAlive startTime cu where t: "t = LoopTick granted keepAlive startTime cu"
    using Cons.prems(5) by (cases t) auto
  obtain err n1 e1 where p: "recovery_put E granted keepAlive startTime (seNode s) (seEtcd s) = (err, n1, e1)"
    by (metis prod_cases3)
  note P = recovery_put_session(1-4) [OF p]
  note G = grants_tick [OF Cons.prems(6) [unfolded t]]
  define s1 where "s1 = s\<lparr>seNode := n1, seEtcd := e1, seGranted := seGranted s @ (case granted of None \<Rightarrow> [] | Some l \<Rightarrow> [l]),
      seKept := seKept s @ (if err = None then [leaseId n1] else []),
      seLoops := (if err = None then (seLoops s)[0 := Restoring] else seLoops s)\<rparr>"
  have "session_step E s s1"
    unfolding s1_def by (rule session_step.tick [OF _ _ G(1) p]) (simp_all add: Cons.prems(2))
  then have st1: "(session_step E)\<^sup>*\<^sup>* s s1" by (rule r_into_rtranclp)
  show ?case
  proof (cases err)
    case (Some x)
    have "\<exists>s'. (session_step E)\<^sup>*\<^sup>* s1 s' \<and> seNode s' = n' \<and> seKept s' = ks \<and> seEtcd s' = e' \<and> seStopped s' = seStopped s1
      \<and> seLoops s' = phase_of r"
      by (rule Cons.IH) (use Cons.prems p t Some P G(2) [of s1] in \<open>simp_all add: s1_def\<close>)
    then obtain s' where "(session_step E)\<^sup>*\<^sup>* s1 s'" and s': "seNode s' = n' \<and> seKept s' = ks \<and> seEtcd s' = e'
      \<and> seStopped s' = seStopped s1 \<and> seLoops s' = phase_of r" by blast
    from rtranclp_trans [OF st1 this(1)] s' show ?thesis by (intro exI [of _ s']) (simp add: s1_def)
  next
    case None
    consider (never) "RestoreData cu (GetLeaderId n1) (cbroker n1) = None"
      | (failed) x b where "RestoreData cu (GetLeaderId n1) (cbroker n1) = Some (Some x, b)"
      | (caught_up) b where "RestoreData cu (GetLeaderId n1) (cbroker n1) = Some (None, b)"
      by (metis option.exhaust prod.exhaust)
    then show ?thesis
    proof cases
      case never
      with st1 Cons.prems(1) None t p show ?thesis by (auto simp: s1_def phase_of_def Cons.prems(2) intro!: exI [of _ s1])
    next
      case failed
      define s2 where "s2 = s1\<lparr>seNode := (seNode s1)\<lparr>cbroker := b\<rparr>, seLoops := (seLoops s1)[0 := Waiting]\<rparr>"
      have "session_step E s1 s2"
        unfolding s2_def by (rule session_step.restore_failed) (use failed None Cons.prems(2) in \<open>simp_all add: s1_def\<close>)
      with st1 have st2: "(session_step E)\<^sup>*\<^sup>* s s2" by (rule rtranclp.rtrancl_into_rtrancl)
      have "\<exists>s'. (session_step E)\<^sup>*\<^sup>* s2 s' \<and> seNode s' = n' \<and> seKept s' = ks \<and> seEtcd s' = e' \<and> seStopped s' = seStopped s2
        \<and> seLoops s' = phase_of r"
        by (rule Cons.IH) (use Cons.prems p t None failed P G(2) [of s2] in \<open>simp_all add: s1_def s2_def\<close>)
      then obtain s' where "(session_step E)\<^sup>*\<^sup>* s2 s'" and s': "seNode s' = n' \<and> seKept s' = ks \<and> seEtcd s' = e'
        \<and> seStopped s' = seStopped s2 \<and> seLoops s' = phase_of r" by blast
      from rtranclp_trans [OF st2 this(1)] s' show ?thesis by (intro exI [of _ s']) (simp add: s2_def s1_def)
    next
      case caught_up
      define s2 where "s2 = s1\<lparr>seNode := (seNode s1)\<lparr>cbroker := b, electionOn := \<not> seStopped s1\<rparr>,
        seLost := seLost s1 + (if electionOn (seNode s1) then 1 else 0), seLoops := (seLoops s1)[0 := Resuming]\<rparr>"
      define s3 where "s3 = s2\<lparr>seNode := (seNode s2)\<lparr>paused := False\<rparr>, seLoops := drop_nth 0 (seLoops s2)\<rparr>"
      have "session_step E s1 s2"
        unfolding s2_def by (rule session_step.restored) (use caught_up None Cons.prems(2) in \<open>simp_all add: s1_def\<close>)
      with st1 have "(session_step E)\<^sup>*\<^sup>* s s2" by (rule rtranclp.rtrancl_into_rtrancl)
      moreover have "session_step E s2 s3"
        unfolding s3_def by (rule session_step.resumed) (use None Cons.prems(2) in \<open>simp_all add: s2_def s1_def\<close>)
      ultimately have "(session_step E)\<^sup>*\<^sup>* s s3" by (rule rtranclp.rtrancl_into_rtrancl)
      moreover have "seNode s3 = n' \<and> seKept s3 = ks \<and> seEtcd s3 = e' \<and> seStopped s3 = seStopped s \<and> seLoops s3 = phase_of r"
        using Cons.prems(1,2,3) t p None caught_up by (auto simp: s3_def s2_def s1_def recoveryFinish_def phase_of_def)
      ultimately show ?thesis by blast
    qed
  qed
qed

text \<open>What the loop leaves behind when it ends by itself.\<close>

lemma recoveryLoop_kept:
  assumes "\<forall>l st e. \<exists>b e'. put_node_key E l st e = (Inr b, e')"
    and "recoveryLoop E ts n ks e = (LoopRecovered, n', ks', e')"
  shows "\<exists>used later. ts = used @ later \<and> ks' = ks @ List.map_filter lease_of used \<and> List.map_filter lease_of used \<noteq> []
    \<and> leaseId n' = last ks' \<and> \<not> paused n' \<and> electionOn n'"
  using assms(2)
proof (induction ts arbitrary: n ks e)
  case (Cons t ts)
  obtain granted keepAlive startTime cu where t: "t = LoopTick granted keepAlive startTime cu"
    using Cons.prems by (cases t) auto
  obtain err n1 e1 where p: "recovery_put E granted keepAlive startTime n e = (err, n1, e1)" by (metis prod_cases3)
  have err: "lease_of t = (if err = None then Some (leaseId n1) else None)"
    using p assms(1) [rule_format, of "the granted" "recovery_state startTime n" e]
    by (auto simp: t recovery_put_def PutNodeState_def Let_def split: option.splits sum.splits prod.splits if_splits)
  show ?case
  proof (cases "err = None \<and> (\<exists>b. RestoreData cu (GetLeaderId n1) (cbroker n1) = Some (None, b))")
    case True
    then show ?thesis using Cons.prems t p err
      by (intro exI [of _ "[t]"] exI [of _ ts]) (auto simp: List.map_filter_def recoveryFinish_def)
  next
    case False
    then obtain n2 where "recoveryLoop E ts n2 (ks @ (if err = None then [leaseId n1] else [])) e1 = (LoopRecovered, n', ks', e')"
      using Cons.prems t p by (fastforce split: option.splits prod.splits if_splits)
    from Cons.IH [OF this] obtain used later where "ts = used @ later"
      "ks' = (ks @ (if err = None then [leaseId n1] else [])) @ List.map_filter lease_of used"
      "List.map_filter lease_of used \<noteq> [] \<and> leaseId n' = last ks' \<and> \<not> paused n' \<and> electionOn n'" by blast
    then show ?thesis using err by (intro exI [of _ "t # used"] exI [of _ later]) (auto simp: List.map_filter_def)
  qed
qed simp

section \<open>Properties\<close>

text \<open>C14. A node recovers at most once at a time. After a start that registered the node, whatever the
  sessions, snapshots, ticks and catch-ups do and in whatever order: at most one recovery loop runs, and
  until the node is closed one runs exactly while the node is paused; the election is on exactly when
  the node is not closed and not paused, or about to leave the pause, and no election context is ever replaced while it is
  alive; every keep-alive goroutine has a lease of its own, that etcd granted and the node has not
  revoked; and a lease is revoked only when the node is closed.\<close>

theorem one_recovery_at_a_time:
  assumes "Start E (Some lease) keepAlive startTime addrs (NewNodeCoordinator i b addrs0) e = (ws, n, e')" and "ws \<noteq> []"
    and "lease \<noteq> 0" and "(session_step E)\<^sup>*\<^sup>* (started_session n lease e') s"
  shows "length (seLoops s) \<le> 1
    \<and> (\<not> seStopped s \<longrightarrow> (paused (seNode s) \<longleftrightarrow> seLoops s \<noteq> []))
    \<and> (electionOn (seNode s) \<longleftrightarrow> \<not> seStopped s \<and> (paused (seNode s) \<longrightarrow> seLoops s = [Resuming]))
    \<and> seLost s = 0
    \<and> distinct (seKept s) \<and> set (seKept s) \<subseteq> set (seGranted s) - set (seRevoked s)
    \<and> (seRevoked s \<noteq> [] \<longrightarrow> seStopped s)"
proof -
  have "electionOn n" "\<not> paused n" "leaseId n = lease"
    using assms(1,2) by (auto simp: Start_def PutNodeState_def NewNodeCoordinator_def Let_def split: sum.splits prod.splits if_splits)
  note start = started_inv [OF this(1,2) assms(3) this(3)]
  from runs_inv [OF assms(4) start] show ?thesis
    unfolding session_inv_def leases_inv_def Let_def by blast
qed

text \<open>A node registers under lease 7, loses the session, and waits for the tick of its recovery.\<close>

definition sample_started :: coordinator where
  "sample_started = (NewNodeCoordinator 2 (NewBroker 2 False) sample_addresses)\<lparr>leaseId := 7\<rparr>"

lemma sample_start:
  "\<exists>ws e. Start calm_etcd (Some 7) True [] sample_addresses (NewNodeCoordinator 2 (NewBroker 2 False) sample_addresses) empty_store
     = (ws, sample_started, e) \<and> ws \<noteq> []"
  by (simp add: Start_def PutNodeState_def put_node_key_def calm_etcd_def store_txn_def sample_started_def NewNodeCoordinator_def Let_def)

definition sample_lost :: "'e \<Rightarrow> 'e session" where
  "sample_lost e = (started_session sample_started 7 e)\<lparr>seNode := snd (keepAliveLost sample_started), seKept := [], seLoops := [Waiting]\<rparr>"

lemma sample_lost_run: "(session_step E)\<^sup>*\<^sup>* (started_session sample_started 7 e) (sample_lost e)"
proof (rule r_into_rtranclp)
  let ?s = "started_session sample_started 7 e"
  have k: "keep_alive_event KeepClosed 7 (seNode ?s) = ((True, [], True), snd (keepAliveLost sample_started))"
    by (simp add: keep_alive_event_def keepAliveLost_def handleSessionLoss_def sample_started_def NewNodeCoordinator_def started_session_def)
  have "session_step E ?s (?s\<lparr>seNode := snd (keepAliveLost sample_started),
      seKept := (if True then remove1 7 (seKept ?s) else seKept ?s), seRevoked := seRevoked ?s @ [], seLoops := start_loop True (seLoops ?s)\<rparr>)"
    by (rule session_step.kept [OF _ _ k]) (simp_all add: started_session_def)
  then show "session_step E ?s (sample_lost e)" by (simp add: sample_lost_def started_session_def start_loop_def)
qed

theorem one_recovery_at_a_time_witness:
  "\<exists>e. (session_step calm_etcd)\<^sup>*\<^sup>* (started_session sample_started 7 e) (sample_lost e)
     \<and> seLoops (sample_lost e) = [Waiting] \<and> paused (seNode (sample_lost e)) \<and> \<not> electionOn (seNode (sample_lost e))"
proof -
  obtain ws e where s: "Start calm_etcd (Some 7) True [] sample_addresses (NewNodeCoordinator 2 (NewBroker 2 False) sample_addresses)
      empty_store = (ws, sample_started, e)" "ws \<noteq> []" using sample_start by blast
  have "seLoops (sample_lost e) = [Waiting]" "\<not> seStopped (sample_lost e)" by (simp_all add: sample_lost_def started_session_def)
  with one_recovery_at_a_time [OF s _ sample_lost_run] sample_lost_run show ?thesis by fastforce
qed

text \<open>Recovery can always end. In any state a started node reaches while it is paused and not closed, if etcd takes the
  write of the node's key and the data can be restored, then some steps of the node alone bring it back: the loop has
  ended, the node is not paused and its election is on. A loop that waited for a tick registers under the
  lease granted then.\<close>

theorem recovery_can_end:
  assumes "Start E (Some lease) keepAlive startTime addrs (NewNodeCoordinator i b addrs0) e = (ws, n, e')" and "ws \<noteq> []"
    and "lease \<noteq> 0" and "(session_step E)\<^sup>*\<^sup>* (started_session n lease e') s"
    and "paused (seNode s)" and "\<not> seStopped s"
    and "\<forall>l st e. \<exists>b e'. put_node_key E l st e = (Inr b, e')"
    and "RestoreData cu (GetLeaderId (seNode s)) (cbroker (seNode s)) = Some (None, b')" and "l \<noteq> 0" and "l \<notin> set (seGranted s)"
  shows "\<exists>s'. (session_step E)\<^sup>*\<^sup>* s s' \<and> seLoops s' = [] \<and> \<not> paused (seNode s') \<and> electionOn (seNode s')
    \<and> (seLoops s = [Waiting] \<longrightarrow> leaseId (seNode s') = l \<and> l \<in> set (seKept s') \<and> cbroker (seNode s') = b')"
proof -
  have "electionOn n" "\<not> paused n" "leaseId n = lease"
    using assms(1,2) by (auto simp: Start_def PutNodeState_def NewNodeCoordinator_def Let_def split: sum.splits prod.splits if_splits)
  note start = started_inv [OF this(1,2) assms(3) this(3)]
  have inv: "session_inv s" using runs_inv [OF assms(4) start] by blast
  then obtain ph where ph: "seLoops s = [ph]"
    using assms(5,6) by (cases "seLoops s") (auto simp: session_inv_def Let_def)
  show ?thesis
  proof (cases ph)
    case Waiting
    let ?t = "LoopTick (Some l) True [] cu"
    obtain n1 where r: "recoveryLoop E [?t] (seNode s) (seKept s) (seEtcd s)
        = (LoopRecovered, snd (recoveryFinish True (n1\<lparr>cbroker := b'\<rparr>)), seKept s @ [l], snd (put_node_key E l (recovery_state [] (seNode s)) (seEtcd s)))"
      and n1: "leaseId n1 = l"
      using assms(7) [rule_format, of l "recovery_state [] (seNode s)" "seEtcd s"] assms(8)
      by (fastforce simp: recovery_put_def PutNodeState_def GetLeaderId_def Let_def)
    have e: "\<not> electionOn (seNode s)" using inv assms(5) ph Waiting by (auto simp: session_inv_def Let_def)
    have g: "grants_ok [?t] s" using assms(9,10) by (simp add: grants_ok_def List.map_filter_def)
    obtain s' where "(session_step E)\<^sup>*\<^sup>* s s'" "seLoops s' = []" "seKept s' = seKept s @ [l]"
      "seNode s' = snd (recoveryFinish True (n1\<lparr>cbroker := b'\<rparr>))"
      using recoveryLoop_steps [OF r _ assms(6) e _ g] ph Waiting by (auto simp: phase_of_def)
    then show ?thesis using n1 by (intro exI [of _ s']) (simp add: recoveryFinish_def)
  next
    case Restoring
    define s1 where "s1 = s\<lparr>seNode := (seNode s)\<lparr>cbroker := b', electionOn := \<not> seStopped s\<rparr>,
      seLost := seLost s + (if electionOn (seNode s) then 1 else 0), seLoops := (seLoops s)[0 := Resuming]\<rparr>"
    define s2 where "s2 = s1\<lparr>seNode := (seNode s1)\<lparr>paused := False\<rparr>, seLoops := drop_nth 0 (seLoops s1)\<rparr>"
    have "session_step E s s1" unfolding s1_def by (rule session_step.restored) (use ph Restoring assms(8) in simp_all)
    moreover have "session_step E s1 s2" unfolding s2_def by (rule session_step.resumed) (use ph in \<open>simp_all add: s1_def\<close>)
    ultimately have "(session_step E)\<^sup>*\<^sup>* s s2" by (rule rtranclp_trans [OF r_into_rtranclp r_into_rtranclp])
    then show ?thesis using ph Restoring assms(6) by (intro exI [of _ s2]) (simp add: s1_def s2_def)
  next
    case Resuming
    define s2 where "s2 = s\<lparr>seNode := (seNode s)\<lparr>paused := False\<rparr>, seLoops := drop_nth 0 (seLoops s)\<rparr>"
    have "session_step E s s2" unfolding s2_def by (rule session_step.resumed) (use ph Resuming in simp_all)
    moreover have "electionOn (seNode s)" using inv assms(5,6) ph Resuming by (auto simp: session_inv_def Let_def)
    ultimately show ?thesis using ph Resuming by (intro exI [of _ s2]) (simp add: s2_def r_into_rtranclp)
  qed
qed

text \<open>The node above, which has no data: one tick brings it back under lease 8.\<close>

theorem recovery_can_end_witness:
  "\<exists>e s'. (session_step calm_etcd)\<^sup>*\<^sup>* (sample_lost e) s' \<and> \<not> paused (seNode s') \<and> electionOn (seNode s') \<and> leaseId (seNode s') = 8"
proof -
  obtain ws e where s: "Start calm_etcd (Some 7) True [] sample_addresses (NewNodeCoordinator 2 (NewBroker 2 False) sample_addresses)
      empty_store = (ws, sample_started, e)" "ws \<noteq> []" using sample_start by blast
  have n: "seLoops (sample_lost e) = [Waiting]" "\<not> seStopped (sample_lost e)" "paused (seNode (sample_lost e))"
    "(8 :: int) \<notin> set (seGranted (sample_lost e))" "cbroker (seNode (sample_lost e)) = ToFollower (NewBroker 2 False)"
    by (simp_all add: sample_lost_def started_session_def sample_started_def keepAliveLost_def handleSessionLoss_def NewNodeCoordinator_def)
  have put: "\<forall>l st e. \<exists>b e'. put_node_key calm_etcd l st e = (Inr b, e')" by (simp add: put_node_key_def calm_etcd_def store_txn_def) blast
  have r: "RestoreData (CatchUpPartition 1 good_io (\<lambda>_. False) (\<lambda>_ _. None)) (GetLeaderId (seNode (sample_lost e))) (cbroker (seNode (sample_lost e)))
      = Some (None, ToFollower (NewBroker 2 False))"
    by (simp add: n(5) RestoreData_def local_partitions_def Pool.ListTopics_def ToFollower_def NewBroker_def NewProcessorPool_def)
  from recovery_can_end [OF s _ sample_lost_run n(3,2) put r, of 8] n(1,4) show ?thesis by auto
qed

text \<open>C15. Every failed restoration leaves a session behind. The recovery loop registers again at every tick: when
  restoring the data fails after the registration, the loop waits for the next tick and registers once
  more, under a new lease, while the goroutine of the old one stays. So when etcd takes the writes and
  the loop ends at last, one goroutine runs for each lease of all the ticks it took, and the node is back with the last lease.
  From then on the end of any of them, also of a lease the node does not use, pauses the healthy node, takes it
  out of the election and makes it forget the lease it has.\<close>

theorem failed_recoveries_leave_sessions:
  assumes "\<forall>l st e. \<exists>b e'. put_node_key E l st e = (Inr b, e')"
    and "recoveryLoop E ts (seNode s) (seKept s) (seEtcd s) = (LoopRecovered, n, ks, e)"
    and "seLoops s = [Waiting]" and "\<not> seStopped s" and "\<not> electionOn (seNode s)" and "LoopDone \<notin> set ts" and "grants_ok ts s"
  shows "\<exists>used later. ts = used @ later \<and> ks = seKept s @ List.map_filter lease_of used \<and> List.map_filter lease_of used \<noteq> []
    \<and> (\<exists>s'. (session_step E)\<^sup>*\<^sup>* s s' \<and> seKept s' = ks \<and> seNode s' = n \<and> leaseId n = last ks \<and> \<not> paused n \<and> electionOn n
        \<and> (\<forall>old \<in> set ks. \<exists>s''. session_step E s' s'' \<and> seKept s'' = remove1 old ks \<and> seLoops s'' = [Waiting]
            \<and> paused (seNode s'') \<and> \<not> electionOn (seNode s'') \<and> leaseId (seNode s'') = 0))"
proof -
  obtain s' where s': "(session_step E)\<^sup>*\<^sup>* s s'" "seNode s' = n" "seKept s' = ks" "seLoops s' = []"
    using recoveryLoop_steps [OF assms(2-7)] by (auto simp: phase_of_def)
  from recoveryLoop_kept [OF assms(1,2)] obtain used later where u: "ts = used @ later"
    "ks = seKept s @ List.map_filter lease_of used" "List.map_filter lease_of used \<noteq> []"
    and n: "leaseId n = last ks" "\<not> paused n" "electionOn n" by blast
  have "\<exists>s''. session_step E s' s'' \<and> seKept s'' = remove1 old ks \<and> seLoops s'' = [Waiting]
      \<and> paused (seNode s'') \<and> \<not> electionOn (seNode s'') \<and> leaseId (seNode s'') = 0" if "old \<in> set ks" for old
  proof -
    obtain n'' where k: "keep_alive_event KeepClosed old n = ((True, [], True), n'')"
      "paused n'' \<and> \<not> electionOn n'' \<and> leaseId n'' = 0"
      using n(2) by (simp add: keep_alive_event_def keepAliveLost_def handleSessionLoss_def)
    have "session_step E s' (s'\<lparr>seNode := n'', seKept := (if True then remove1 old (seKept s') else seKept s'),
        seRevoked := seRevoked s' @ [], seLoops := start_loop True (seLoops s')\<rparr>)"
      by (rule session_step.kept [of old _ KeepClosed]) (use that k(1) s' in simp_all)
    with k(2) s' show ?thesis by (intro exI conjI) (assumption, simp_all add: start_loop_def)
  qed
  with u n s' show ?thesis by blast
qed

text \<open>The node above hosts one partition of leader 1. The first restoration is cancelled, the second succeeds.\<close>

definition sample_recovering :: "'e \<Rightarrow> 'e session" where
  "sample_recovering e = (sample_lost e)\<lparr>seNode := (seNode (sample_lost e))\<lparr>cbroker := sample_joining, coLeader := 1\<rparr>\<rparr>"

lemma sample_joining_partitions:
  "local_partitions sample_joining = [(''orders'', 0)]" "Broker.GetNodeId sample_joining = 2"
  "GetPartitionLeader ''orders'' 0 sample_joining = None"
  "local_partition ''orders'' 0 sample_joining = Inr ((sample_partition sample_replicas)\<lparr>syncState := StateReplicating\<rparr>)"
  "put_local ''orders'' 0 ((sample_partition sample_replicas)\<lparr>syncState := StateReplicating\<rparr>) sample_joining = sample_joining"
  by (simp_all add: local_partitions_def Pool.ListTopics_def ListPartitions_def GetTopicProcessor_def sample_joining_def set_local_def
      sample_node_def sample_topic_def put_local_def put_topic_def put_partition_def NewBroker_def Broker.GetNodeId_def
      GetPartitionLeader_def local_partition_def GetPartition_def processor_at_def)

theorem failed_recoveries_leave_sessions_witness:
  "\<exists>s' s''. (session_step calm_etcd)\<^sup>*\<^sup>* (sample_recovering empty_store) s' \<and> seKept s' = [8, 9] \<and> leaseId (seNode s') = 9
     \<and> \<not> paused (seNode s') \<and> session_step calm_etcd s' s'' \<and> seKept s'' = [9] \<and> paused (seNode s'') \<and> leaseId (seNode s'') = 0"
proof -
  let ?p = "(sample_partition sample_replicas)\<lparr>syncState := StateReplicating\<rparr>"
  let ?none = "CatchUpPartition 1 good_io (\<lambda>_. True) (\<lambda>_ _. None)"
  let ?some = "CatchUpPartition 1 good_io (\<lambda>_. False) (fetch_from (\<lambda>_. NewBroker 1 False))"
  let ?ts = "[LoopTick (Some 8) True [] ?none, LoopTick (Some 9) True [] ?some]"
  let ?s = "sample_recovering empty_store"
  have f: "RestoreData ?none 1 sample_joining = Some (Some ECancelled, sample_joining)"
    using sample_joining(3) by (simp add: RestoreData_def sample_joining_partitions CatchUpPartition_def GetSyncState_def)
  obtain B where c: "?some ''orders'' 0 1 sample_joining = Some (None, B)" using catch_up_from_missing_partition_witness by blast
  have g: "RestoreData ?some 1 sample_joining = Some (None, B)"
    using c by (simp add: RestoreData_def sample_joining_partitions del: One_nat_def)
  have n: "seNode ?s = (snd (keepAliveLost sample_started))\<lparr>cbroker := sample_joining, coLeader := 1\<rparr>" "seLoops ?s = [Waiting]"
    "\<not> seStopped ?s" "\<not> electionOn (seNode ?s)" "seKept ?s = []" "grants_ok ?ts ?s"
    by (simp_all add: sample_recovering_def sample_lost_def started_session_def keepAliveLost_def handleSessionLoss_def
        sample_started_def NewNodeCoordinator_def grants_ok_def List.map_filter_def Let_def)
  have put: "\<forall>l st e. \<exists>b e'. put_node_key calm_etcd l st e = (Inr b, e')" by (simp add: put_node_key_def calm_etcd_def store_txn_def) blast
  obtain m e where r: "recoveryLoop calm_etcd ?ts (seNode ?s) (seKept ?s) (seEtcd ?s) = (LoopRecovered, m, [8, 9], e)"
    using f g by (simp add: n(1,5) recovery_put_def PutNodeState_def put_node_key_def calm_etcd_def store_txn_def GetLeaderId_def Let_def del: One_nat_def)
  from failed_recoveries_leave_sessions [OF put r n(2,3,4) _ n(6)] show ?thesis by auto
qed

section \<open>Clients of a node that lost its session\<close>

lemma role_data_plane:
  "HandleCommand net io now fault respond events cd cmd body (b\<lparr>brole := r\<rparr>) w =
     (case HandleCommand net io now fault respond events cd cmd body b w of (a, b', w') \<Rightarrow> (a, b'\<lparr>brole := r\<rparr>, w'))"
  by (auto simp: HandleCommand_def producerHandler_def consumerHandler_def IsPartitionLeader_def IsPartitionInSync_def
      local_partition_def GetPartitionLeader_def Broker.GetNodeId_def Let_def split: option.splits prod.splits sum.splits)

lemma get_local_role: "get_local k (b\<lparr>brole := r\<rparr>) = get_local k b"
  by (simp add: get_local_def local_partition_def)

text \<open>C16. A node that lost its session serves on. When the session is lost the node is paused, gives up the election and
  turns into a follower, and the comments say that it must stop acting as a leader at once and is no member
  of the cluster while the flag is set. But no handler asks for the flag, and the right to
  write does not depend on the role: to every command, with every body, network and state of the other
  nodes, it gives the same answers as before the loss, with the same records in its log and in the other nodes.\<close>

theorem lost_session_serves_on:
  assumes "keepAliveLost n = (started, n')" and "HandleCommand net io now fault respond events cd cmd body (cbroker n) w = (r, b, w')"
  shows "paused n' \<and> leaseId n' = 0 \<and> peers (cbroker n') = peers (cbroker n) \<and> (\<not> paused n \<longrightarrow> \<not> electionOn n' \<and> ReadRole (cbroker n') = Follower)
    \<and> (\<exists>b'. HandleCommand net io now fault respond events cd cmd body (cbroker n') w = (r, b', w')
         \<and> bpool b' = bpool b \<and> (\<forall>k. get_local k b' = get_local k b) \<and> partitionLeader b' = partitionLeader b)"
proof -
  consider "paused n" "cbroker n' = cbroker n" | "\<not> paused n" "cbroker n' = (cbroker n)\<lparr>brole := Follower\<rparr>"
    using assms(1) by (auto simp: keepAliveLost_def handleSessionLoss_def ToFollower_def split: if_splits)
  then have "\<exists>b'. HandleCommand net io now fault respond events cd cmd body (cbroker n') w = (r, b', w')
      \<and> bpool b' = bpool b \<and> (\<forall>k. get_local k b' = get_local k b) \<and> partitionLeader b' = partitionLeader b"
  proof cases
    case 1
    then show ?thesis using assms(2) by auto
  next
    case 2
    then have "HandleCommand net io now fault respond events cd cmd body (cbroker n') w = (r, b\<lparr>brole := Follower\<rparr>, w')"
      using assms(2) by (simp add: role_data_plane)
    then show ?thesis by (intro exI conjI) (assumption, simp_all add: get_local_role)
  qed
  moreover have "paused n' \<and> leaseId n' = 0 \<and> peers (cbroker n') = peers (cbroker n) \<and>
      (\<not> paused n \<longrightarrow> \<not> electionOn n' \<and> ReadRole (cbroker n') = Follower)"
    using assms(1) by (auto simp: keepAliveLost_def handleSessionLoss_def ToFollower_def ReadRole_def split: if_splits)
  ultimately show ?thesis by blast
qed

text \<open>Node 1 leads a partition with replicas on two other nodes, loses its session, and accepts a write.\<close>

definition sample_leader :: coordinator where
  "sample_leader = sample_started\<lparr>cbroker := SetPartitionLeader ''orders'' 0 1 (sample_node 1)\<rparr>"

definition one_write :: codec where
  "one_write = \<lparr>decodeProduce = (\<lambda>body. Some \<lparr>ppTopicName = ''orders'', ppPartitionId = 0, ppKey = [], ppMsg = body\<rparr>), decodeConsume = (\<lambda>_. None)\<rparr>"

theorem lost_session_serves_on_witness:
  "\<exists>n' b' W'. keepAliveLost sample_leader = (True, n') \<and> paused n' \<and> leaseId n' = 0 \<and> ReadRole (cbroker n') = Follower
     \<and> HandleCommand (net_of perfect_net (sample_node 1)) good_io 7 no_faults (\<lambda>_. None) (\<lambda>_. []) one_write 1 [1] (cbroker n') sample_node
       = ((None, [ProduceAccepted]), b', W')"
proof -
  obtain tp' W' where w: "ReplicateAndAppend (net_of perfect_net (sample_node 1)) good_io 7 0 [1] (sample_topic sample_replicas) sample_node
     = (Inr 0, tp', W')"
    using sample_write_succeeds by blast
  obtain b where h: "HandleCommand (net_of perfect_net (sample_node 1)) good_io 7 no_faults (\<lambda>_. None) (\<lambda>_. []) one_write 1 [1]
      (cbroker sample_leader) sample_node = ((None, [ProduceAccepted]), b, W')"
    using w by (simp add: HandleCommand_def producerHandler_def one_write_def sample_leader_def SendMessage_def IsPartitionLeader_def
        GetPartitionLeader_def SetPartitionLeader_def GetTopicProcessor_def processor_at_def sample_node_def NewBroker_def)
  obtain n' where l: "keepAliveLost sample_leader = (True, n')" and p: "\<not> paused sample_leader"
    by (simp add: keepAliveLost_def handleSessionLoss_def sample_leader_def sample_started_def NewNodeCoordinator_def)
  from lost_session_serves_on [OF l h] l p show ?thesis by blast
qed

end
