(* ===== verification/Requests.thy ===== *)
theory Requests
  imports Placement
begin

text \<open>
  The HTTP interface: the request types of \<open>server/datatypes/broker/dto/http.go\<close> with their checks,
  \<open>Produce\<close> and \<open>Consume\<close> of \<open>server/broker/broker.go\<close> and the handlers of
  \<open>server/http/handler.go\<close>. Reading a JSON body is the parameter \<open>json\<close> (\<open>None\<close> when it is not valid). An answer is its status with the result, or with the code of the
  error; the texts that go with a code are not modelled. Server-sent events are the list of events.
\<close>

section \<open>Requests and their checks\<close>

record ProduceRequest =
  prTopicName :: string
  prPartitionID :: int
  prKey :: string
  prMsg :: "bytes option"  \<comment> \<open>nil when absent\<close>

record ConsumeRequest =
  crTopicName :: string
  crPartitionID :: int
  crStartOffset :: "u64 option"
  crFromBeginning :: bool
  crFinOffset :: "u64 option"
  crTillEnd :: bool

definition MaxMessageSize :: nat where "MaxMessageSize = 64 * 1024"
definition MaxTopicNameLength :: nat where "MaxTopicNameLength = 249"

definition Validate_create :: "CreateTopicRequest \<Rightarrow> go_error option" where
  "Validate_create r =
     (if rqTopicName r = [] then Some (EInvalid ''topic_name is required'')
      else if length (rqTopicName r) > MaxTopicNameLength then Some (EInvalid ''topic_name exceeds maximum length'')
      else if list_ex (\<lambda>c. c \<in> {CHR ''/'', CHR '' '', CHR 0x09, CHR 0x0A}) (rqTopicName r) then
        Some (EInvalid ''topic_name must not contain spaces or slashes'')
      else if rqNumPartitions r \<le> 0 then Some (EInvalid ''num_partitions must be greater than zero'')
      else if rqReplicationFactor r < 0 then Some (EInvalid ''replication_factor must not be negative'')
      else None)"

definition Validate_produce :: "ProduceRequest \<Rightarrow> go_error option" where
  "Validate_produce r =
     (if prTopicName r = [] then Some (EInvalid ''topic_name is required'')
      else if prPartitionID r < 0 then Some (EInvalid ''partition_id must be greater than or equal to zero'')
      else case prMsg r of
        None \<Rightarrow> Some (EInvalid ''msg is required'')
      | Some msg \<Rightarrow> if length msg > MaxMessageSize then Some (EInvalid ''msg exceeds maximum size'') else None)"

definition Validate_consume :: "ConsumeRequest \<Rightarrow> go_error option" where
  "Validate_consume r =
     (if crTopicName r = [] then Some (EInvalid ''topic_name is required'')
      else if crPartitionID r < 0 then Some (EInvalid ''partition_id must be greater than or equal to zero'')
      else if (crStartOffset r = None) = (\<not> crFromBeginning r) then
        Some (EInvalid ''exactly one of start_offset or from_beginning is required'')
      else if (crFinOffset r = None) = (\<not> crTillEnd r) then
        Some (EInvalid ''exactly one of fin_offset or till_end is required'')
      else case (crStartOffset r, crFinOffset r) of
        (Some s, Some f) \<Rightarrow>
          if f < s then Some (EInvalid ''fin_offset must be greater than or equal to start_offset'') else None
      | _ \<Rightarrow> None)"

section \<open>The broker's web entry points\<close>

definition produce_of :: "ProduceRequest \<Rightarrow> produce_payload" where
  "produce_of r = \<lparr>ppTopicName = prTopicName r, ppPartitionId = prPartitionID r, ppKey = prKey r,
     ppMsg = (case prMsg r of None \<Rightarrow> [] | Some m \<Rightarrow> m)\<rparr>"

definition consume_of :: "ConsumeRequest \<Rightarrow> consume_payload" where
  "consume_of r = \<lparr>cpTopicName = crTopicName r, cpPartitionID = crPartitionID r,
     cpStart = (case crStartOffset r of Some off \<Rightarrow> AtStartOffset off | None \<Rightarrow> AtBeginning (crFromBeginning r)),
     cpFin = (case crFinOffset r of Some off \<Rightarrow> AtFinOffset off | None \<Rightarrow> AtEnd (crTillEnd r))\<rparr>"

definition Produce ::
  "'w cluster_net \<Rightarrow> lock_io \<Rightarrow> i64 \<Rightarrow> responder \<Rightarrow> ProduceRequest \<Rightarrow> broker \<Rightarrow> 'w
     \<Rightarrow> (go_error option \<times> response list) \<times> broker \<times> 'w" where
  "Produce net io now respond r b w =
     (case Validate_produce r of
        Some e \<Rightarrow> ((Some e, []), b, w)
      | None \<Rightarrow> producerHandler net io now respond (produce_of r) b w)"

definition Consume ::
  "faults \<Rightarrow> responder \<Rightarrow> (u64 \<Rightarrow> stream_event list) \<Rightarrow> ConsumeRequest \<Rightarrow> broker \<Rightarrow> go_error option \<times> response list" where
  "Consume fault respond events r b =
     (case Validate_consume r of
        Some e \<Rightarrow> (Some e, [])
      | None \<Rightarrow> consumerHandler fault respond events (consume_of r) b)"

section \<open>Query parameters\<close>

definition ParseUint :: "string \<Rightarrow> u64 option" where
  "ParseUint s =
     (if s \<noteq> [] \<and> list_all is_digit s \<and> dec_val s < 2 ^ 64 then Some (of_nat (dec_val s)) else None)"

definition ParseBool :: "string \<Rightarrow> bool option" where
  "ParseBool s =
     (if s \<in> {''1'', ''t'', ''T'', ''TRUE'', ''true'', ''True''} then Some True
      else if s \<in> {''0'', ''f'', ''F'', ''FALSE'', ''false'', ''False''} then Some False
      else None)"

text \<open>\<open>args.Peek\<close> gives the empty value for a parameter that is absent. \<open>optional\<close> is one such block.\<close>

definition optional :: "(string \<Rightarrow> 'a option) \<Rightarrow> string \<Rightarrow> string \<Rightarrow> go_error + 'a option" where
  "optional parse msg v =
     (if v = [] then Inr None
      else case parse v of None \<Rightarrow> Inl (EInvalid msg) | Some x \<Rightarrow> Inr (Some x))"

definition consumeRequestFromQuery :: "(string \<Rightarrow> string) \<Rightarrow> go_error + ConsumeRequest" where
  "consumeRequestFromQuery args =
     (if args ''partition_id'' = [] then Inl (EInvalid ''partition_id is required'')
      else case ParseInt (args ''partition_id'') of
        None \<Rightarrow> Inl (EInvalid ''partition_id must be an integer'')
      | Some i \<Rightarrow>
          sbind (optional ParseUint ''start_offset must be a non-negative integer'' (args ''start_offset'')) (\<lambda>s.
          sbind (optional ParseBool ''from_beginning must be a boolean'' (args ''from_beginning'')) (\<lambda>fb.
          sbind (optional ParseUint ''fin_offset must be a non-negative integer'' (args ''fin_offset'')) (\<lambda>f.
          sbind (optional ParseBool ''till_end must be a boolean'' (args ''till_end'')) (\<lambda>te.
            Inr \<lparr>crTopicName = args ''topic_name'', crPartitionID = i, crStartOffset = s, crFromBeginning = (fb = Some True),
                 crFinOffset = f, crTillEnd = (te = Some True)\<rparr>)))))"

section \<open>Handlers\<close>

datatype 'a http_answer = HttpOK nat 'a | HttpError nat string

text \<open>The two routes of the data plane, by action and method.\<close>

datatype http_route = RouteProduce | RouteConsume | RouteError nat string

definition BrokeringRouter :: "string \<Rightarrow> bool \<Rightarrow> bool \<Rightarrow> http_route" where
  "BrokeringRouter action isPost isGet =
     (if action = ''produce'' then (if isPost then RouteProduce else RouteError 405 ''invalid_request'')
      else if action = ''consume'' then (if isGet then RouteConsume else RouteError 405 ''invalid_request'')
      else RouteError 404 ''invalid_request'')"

datatype sse_event = SseMessage response | SseError go_error

text \<open>\<open>None\<close> for the broker is a server without one. The body set last is the one sent.\<close>

definition http_produce ::
  "'w cluster_net \<Rightarrow> lock_io \<Rightarrow> i64 \<Rightarrow> responder \<Rightarrow> ProduceRequest option \<Rightarrow> broker option \<Rightarrow> 'w
     \<Rightarrow> response http_answer \<times> broker option \<times> 'w" where
  "http_produce net io now marshal json bo w =
     (case bo of
        None \<Rightarrow> (HttpError 503 ''broker_unavailable'', bo, w)
      | Some b \<Rightarrow>
          (case json of
             None \<Rightarrow> (HttpError 400 ''invalid_json'', bo, w)
           | Some r \<Rightarrow>
               (case Validate_produce r of
                  Some e \<Rightarrow> (HttpError 400 ''invalid_request'', bo, w)
                | None \<Rightarrow>
                    (case Produce net io now marshal r b w of
                       ((Some e, rs), b', w') \<Rightarrow> (HttpError 400 ''produce_failed'', Some b', w')
                     | ((None, []), b', w') \<Rightarrow> (HttpError 500 ''empty_response'', Some b', w')
                     | ((None, rs), b', w') \<Rightarrow> (HttpOK 200 (last rs), Some b', w')))))"

definition http_consume ::
  "faults \<Rightarrow> responder \<Rightarrow> (u64 \<Rightarrow> stream_event list) \<Rightarrow> (string \<Rightarrow> string) \<Rightarrow> broker option \<Rightarrow> sse_event list http_answer" where
  "http_consume fault write events args bo =
     (case bo of
        None \<Rightarrow> HttpError 503 ''broker_unavailable''
      | Some b \<Rightarrow>
          (case consumeRequestFromQuery args of
             Inl e \<Rightarrow> HttpError 400 ''invalid_request''
           | Inr r \<Rightarrow>
               (case Validate_consume r of
                  Some e \<Rightarrow> HttpError 400 ''invalid_request''
                | None \<Rightarrow>
                    (case Consume fault write events r b of
                       (err, rs) \<Rightarrow> HttpOK 200 (map SseMessage rs @
                         (case err of None \<Rightarrow> [] | Some e \<Rightarrow> if e = ECancelled then [] else [SseError e]))))))"

definition cluster_read_error :: "cluster_error \<Rightarrow> 'a http_answer" where
  "cluster_read_error x =
     (case x of ENodeEvicted i \<Rightarrow> HttpError 503 ''node_evicted'' | _ \<Rightarrow> HttpError 503 ''cluster_unavailable'')"

definition cluster_read :: "bool \<Rightarrow> (cluster_error + 'a) \<times> 's \<Rightarrow> 's \<Rightarrow> 'a http_answer \<times> 's" where
  "cluster_read configured r s =
     (if \<not> configured then (HttpError 503 ''cluster_unavailable'', s)
      else case r of (Inl x, s') \<Rightarrow> (cluster_read_error x, s') | (Inr a, s') \<Rightarrow> (HttpOK 200 a, s'))"

definition ClusterOverviewHandler ::
  "'e etcd \<Rightarrow> int \<times> int \<Rightarrow> bool \<Rightarrow> coordinator \<Rightarrow> view_cache \<Rightarrow> 'e \<Rightarrow> ClusterOverview http_answer \<times> view_cache \<times> 'e" where
  "ClusterOverviewHandler E clock configured n vc e = cluster_read configured (GetClusterOverview E clock n vc e) (vc, e)"

definition ClusterNodesHandler ::
  "'e etcd \<Rightarrow> int \<times> int \<Rightarrow> bool \<Rightarrow> coordinator \<Rightarrow> view_cache \<Rightarrow> 'e \<Rightarrow> ClusterSnapshot http_answer \<times> view_cache \<times> 'e" where
  "ClusterNodesHandler E clock configured n vc e = cluster_read configured (GetClusterNodeList E clock n vc e) (vc, e)"

definition ClusterTopicsHandler ::
  "'e etcd \<Rightarrow> int \<times> int \<Rightarrow> bool \<Rightarrow> coordinator \<Rightarrow> view_cache \<Rightarrow> 'e \<Rightarrow> ClusterTopic list http_answer \<times> view_cache \<times> 'e" where
  "ClusterTopicsHandler E clock configured n vc e = cluster_read configured (GetClusterTopicsList E clock n vc e) (vc, e)"

definition DescribeTopicHandler ::
  "'e etcd \<Rightarrow> int \<times> int \<Rightarrow> bool \<Rightarrow> coordinator \<Rightarrow> string \<Rightarrow> view_cache \<Rightarrow> 'e \<Rightarrow> ClusterTopic http_answer \<times> view_cache \<times> 'e" where
  "DescribeTopicHandler E clock configured n name vc e =
     (if \<not> configured then (HttpError 503 ''cluster_unavailable'', vc, e)
      else if name = [] then (HttpError 400 ''invalid_request'', vc, e)
      else case GetClusterTopic E clock n name vc e of
        (Inl x, s) \<Rightarrow> (cluster_read_error x, s)
      | (Inr None, s) \<Rightarrow> (HttpError 404 ''topic_not_found'', s)
      | (Inr (Some t), s) \<Rightarrow> (HttpOK 200 t, s))"

definition ReadinessHandler ::
  "'e etcd \<Rightarrow> int \<times> int \<Rightarrow> bool \<Rightarrow> coordinator \<Rightarrow> view_cache \<Rightarrow> 'e \<Rightarrow> nat \<times> view_cache \<times> 'e" where
  "ReadinessHandler E clock configured n vc e =
     (if \<not> configured then (503, vc, e)
      else case GetNodeReadiness E clock n vc e of (r, s) \<Rightarrow> (if nrReady r then 200 else 503, s))"

text \<open>
  \<open>errors.Is\<close> compares with the domain errors; an error that came over gRPC (\<open>ERemote\<close>) is only a text.
\<close>

definition createTopicFailureStatus :: "CreateTopicResponse \<Rightarrow> nat \<times> string" where
  "createTopicFailureStatus resp =
     (if rpNotController resp then (503, ''controller_unavailable'')
      else case rpError resp of
        Some ETopicAlreadyExists \<Rightarrow> (409, ''topic_exists'')
      | Some ERaceCondition \<Rightarrow> (409, ''concurrent_modification'')
      | Some (ENotEnoughAliveNodes k rf) \<Rightarrow> (409, ''not_enough_nodes'')
      | _ \<Rightarrow> (400, ''create_topic_failed''))"

definition CreateTopicHandler ::
  "'e etcd \<Rightarrow> int \<times> int \<Rightarrow> (string \<Rightarrow> bool) \<Rightarrow>
   (string \<Rightarrow> CreateTopicRequest \<Rightarrow> 'e \<Rightarrow> (cluster_error + CreateTopicResponse) \<times> 'e) \<Rightarrow> bool \<Rightarrow> coordinator
   \<Rightarrow> CreateTopicRequest option \<Rightarrow> view_cache \<Rightarrow> 'e \<Rightarrow> string http_answer \<times> view_cache \<times> 'e" where
  "CreateTopicHandler E clock dial remote configured n json vc e =
     (if \<not> configured then (HttpError 503 ''cluster_unavailable'', vc, e)
      else case json of
        None \<Rightarrow> (HttpError 400 ''invalid_json'', vc, e)
      | Some r \<Rightarrow>
          (case Validate_create r of
             Some x \<Rightarrow> (HttpError 400 ''invalid_request'', vc, e)
           | None \<Rightarrow>
               (case CreateTopicRouted E clock dial remote n r vc e of
                  (Inl x, s) \<Rightarrow> (HttpError 503 ''cluster_unavailable'', s)
                | (Inr resp, s) \<Rightarrow>
                    (if rpSuccess resp then (HttpOK 201 (rqTopicName r), s)
                     else case createTopicFailureStatus resp of (st, code) \<Rightarrow> (HttpError st code, s)))))"


section \<open>The web interface and the command protocol\<close>

lemma producerHandler_responses:
  assumes "ppTopicName r \<noteq> []" and "producerHandler net io now respond r b w = ((err, rs), b', w')"
  shows "err = None \<Longrightarrow> (\<exists>x. rs = [x] \<and> respond x = None \<and>
      x = (if IsPartitionLeader (ppTopicName r) (ppPartitionId r) b then ProduceAccepted
           else ProduceNotLeader (ppTopicName r) (ppPartitionId r)))"
    and "\<not> IsPartitionLeader (ppTopicName r) (ppPartitionId r) b \<Longrightarrow> b' = b \<and> w' = w"
  using assms by (auto simp: producerHandler_def Let_def split: if_splits prod.splits option.splits)

lemma Validate_produceD:
  "Validate_produce r = None \<Longrightarrow> prTopicName r \<noteq> [] \<and> 0 \<le> prPartitionID r \<and>
     (\<exists>m. prMsg r = Some m \<and> length m \<le> 65536)"
  by (auto simp: Validate_produce_def MaxMessageSize_def split: if_splits option.splits)

lemma Validate_consumeD:
  "Validate_consume q = None \<Longrightarrow> crTopicName q \<noteq> [] \<and> 0 \<le> crPartitionID q \<and>
     (crStartOffset q = None \<longleftrightarrow> crFromBeginning q) \<and> (crFinOffset q = None \<longleftrightarrow> crTillEnd q)"
  by (auto simp: Validate_consume_def split: if_splits option.splits)

lemma consume_specs:
  assumes "Validate_consume q = None"
  shows "start_spec (cpStart (consume_of q)) =
      (case crStartOffset q of Some off \<Rightarrow> \<lparr>Value = off, Tag = NoTag\<rparr> | None \<Rightarrow> \<lparr>Value = 0, Tag = FromBeginning\<rparr>)"
    and "fin_spec (cpFin (consume_of q)) =
      (case crFinOffset q of Some off \<Rightarrow> \<lparr>Value = off, Tag = NoTag\<rparr> | None \<Rightarrow> \<lparr>Value = 0, Tag = TillEnd\<rparr>)"
  by (auto simp: consume_of_def split: option.splits)

lemma http_produce_refused:
  assumes "bo = None \<or> json = None \<or> (\<exists>r e. json = Some r \<and> Validate_produce r = Some e)"
  shows "snd (http_produce net io now marshal json bo w) = (bo, w)"
  using assms by (auto simp: http_produce_def split: option.splits)

lemma http_produce_valid:
  assumes "decodeProduce cd body = Some (produce_of r)" and "Validate_produce r = None"
    and "HandleCommand net io now fault marshal events cd 1 body b w = ((err, rs), b', w')"
  shows "http_produce net io now marshal (Some r) (Some b) w =
      (case err of Some e \<Rightarrow> HttpError 400 ''produce_failed'' | None \<Rightarrow> HttpOK 200 (last rs), Some b', w')"
proof -
  note v = Validate_produceD [OF assms(2)]
  have ph: "producerHandler net io now marshal (produce_of r) b w = ((err, rs), b', w')"
    using assms(1,3) by (simp add: HandleCommand_def)
  have "ppTopicName (produce_of r) \<noteq> []" using v by (simp add: produce_of_def)
  from producerHandler_responses(1) [OF this ph]
  have "err = None \<Longrightarrow> rs \<noteq> []" by auto
  then show ?thesis
    using assms(2) ph by (auto simp: http_produce_def Produce_def split: option.splits list.splits)
qed

lemma http_consume_valid:
  assumes "decodeConsume cd body = Some (consume_of q)" and "consumeRequestFromQuery args = Inr q"
    and "Validate_consume q = None"
    and "HandleCommand net io now fault marshal events cd 2 body b w = ((err, rs), b', w')"
  shows "b' = b \<and> w' = w \<and> http_consume fault marshal events args (Some b) =
      HttpOK 200 (map SseMessage rs @ (case err of None \<Rightarrow> [] | Some e \<Rightarrow> if e = ECancelled then [] else [SseError e]))"
  using assms by (auto simp: HandleCommand_def http_consume_def Consume_def split: prod.splits)



text \<open>A node that holds nothing is asked to write to, and to read, a partition of a topic.\<close>

definition sample_produce :: ProduceRequest where
  "sample_produce = \<lparr>prTopicName = ''t'', prPartitionID = 0, prKey = [], prMsg = Some [7]\<rparr>"

definition sample_query :: "string \<Rightarrow> string" where
  "sample_query name = (if name = ''topic_name'' then ''t'' else if name = ''partition_id'' then ''0''
     else if name \<in> {''from_beginning'', ''till_end''} then ''true'' else [])"

definition sample_consume :: ConsumeRequest where
  "sample_consume = \<lparr>crTopicName = ''t'', crPartitionID = 0, crStartOffset = None, crFromBeginning = True,
     crFinOffset = None, crTillEnd = True\<rparr>"


end
