(* ===== verification/Web.thy ===== *)
theory Web
  imports Requests
begin

text \<open>
  What is around the handlers of the HTTP interface: the cross-origin rules of
  \<open>server/http/middleware.go\<close> and the event stream of \<open>server/http/command_context.go\<close>. The headers of
  a response are an association list with the names as the code writes them. What the Unicode tables say of
  texts outside ASCII is a parameter.
\<close>

section \<open>Strings\<close>

record unicode =
  uTrim :: "string \<Rightarrow> string"  \<comment> \<open>\<open>strings.TrimSpace\<close> and \<open>strings.EqualFold\<close> where a byte is not ASCII\<close>
  uFold :: "string \<Rightarrow> string \<Rightarrow> bool"

definition is_ascii :: "string \<Rightarrow> bool" where
  "is_ascii s \<longleftrightarrow> list_all (\<lambda>c. (of_char c :: nat) < 128) s"

definition is_space :: "char \<Rightarrow> bool" where
  "is_space c \<longleftrightarrow> c \<in> {CHR 0x09, CHR 0x0A, CHR 0x0B, CHR 0x0C, CHR 0x0D, CHR '' ''}"

definition TrimSpace :: "unicode \<Rightarrow> string \<Rightarrow> string" where
  "TrimSpace U s = (if is_ascii s then rev (dropWhile is_space (rev (dropWhile is_space s))) else uTrim U s)"

definition to_lower :: "char \<Rightarrow> char" where
  "to_lower c = (if 65 \<le> (of_char c :: nat) \<and> (of_char c :: nat) \<le> 90 then char_of ((of_char c :: nat) + 32) else c)"

definition EqualFold :: "unicode \<Rightarrow> string \<Rightarrow> string \<Rightarrow> bool" where
  "EqualFold U s t = (if is_ascii s \<and> is_ascii t then map to_lower s = map to_lower t else uFold U s t)"

text \<open>\<open>strings.Split\<close> at commas.\<close>

fun split_commas :: "string \<Rightarrow> string list" where
  "split_commas [] = [[]]"
| "split_commas (c # s) = (if c = CHR '','' then [] # split_commas s else case split_commas s of
      [] \<Rightarrow> [[c]] | x # xs \<Rightarrow> (c # x) # xs)"

section \<open>Cross-origin requests\<close>

type_synonym headers = "(string \<times> string) list"

definition SetAllowedOrigins :: "unicode \<Rightarrow> string list \<Rightarrow> string list" where
  "SetAllowedOrigins U origins = filter (\<lambda>x. x \<noteq> []) (map (TrimSpace U) origins)"

text \<open>The flag of \<open>main\<close>; when it is empty, \<open>SetAllowedOrigins\<close> is not called.\<close>

definition allowed_of_flag :: "unicode \<Rightarrow> string \<Rightarrow> string list" where
  "allowed_of_flag U corsOrigins = (if corsOrigins = [] then [] else SetAllowedOrigins U (split_commas corsOrigins))"

fun originAllowed :: "unicode \<Rightarrow> string list \<Rightarrow> string \<Rightarrow> string" where
  "originAllowed U [] origin = []"
| "originAllowed U (allowed # rest) origin =
     (if origin = [] then []
      else if allowed = ''*'' \<or> EqualFold U allowed origin then origin
      else originAllowed U rest origin)"

definition applyCORS :: "unicode \<Rightarrow> string list \<Rightarrow> string \<Rightarrow> headers \<Rightarrow> headers" where
  "applyCORS U allowedOrigins origin h =
     (let h1 = h @ [(''Vary'', ''Origin'')];
          allowed = originAllowed U allowedOrigins origin
      in if allowed = [] then h1
         else AList.update ''Access-Control-Allow-Credentials'' ''true''
                (AList.update ''Access-Control-Allow-Origin'' allowed h1))"

text \<open>The middleware around a handler, which acts on the headers and on what it serves.\<close>

definition CORSMiddleware ::
  "unicode \<Rightarrow> string list \<Rightarrow> (headers \<Rightarrow> 's \<Rightarrow> headers \<times> 's) \<Rightarrow> string \<Rightarrow> headers \<Rightarrow> 's \<Rightarrow> headers \<times> 's" where
  "CORSMiddleware U allowedOrigins handler origin h s = handler (applyCORS U allowedOrigins origin h) s"

definition corsPreflightHandler :: "unicode \<Rightarrow> string list \<Rightarrow> string \<Rightarrow> headers \<Rightarrow> nat \<times> headers" where
  "corsPreflightHandler U allowedOrigins origin h =
     (let h1 = applyCORS U allowedOrigins origin h
      in if map_of h1 ''Access-Control-Allow-Origin'' = None then (403, h1)
         else (204, AList.update ''Access-Control-Max-Age'' ''600''
                (AList.update ''Access-Control-Allow-Headers'' ''Content-Type, Authorization, Last-Event-ID''
                  (AList.update ''Access-Control-Allow-Methods'' ''GET, POST, OPTIONS'' h1))))"

text \<open>An origin is granted when an entry of the flag, without blanks around it, is a star or the origin up to case.\<close>

definition origin_granted :: "unicode \<Rightarrow> string \<Rightarrow> string \<Rightarrow> bool" where
  "origin_granted U corsOrigins origin \<longleftrightarrow> corsOrigins \<noteq> [] \<and> origin \<noteq> [] \<and>
     (\<exists>x \<in> set (split_commas corsOrigins). let x' = TrimSpace U x in x' \<noteq> [] \<and> (x' = ''*'' \<or> EqualFold U x' origin))"

lemma originAllowed_iff:
  "originAllowed U allowed origin =
     (if origin \<noteq> [] \<and> (\<exists>a \<in> set allowed. a = ''*'' \<or> EqualFold U a origin) then origin else [])"
  by (induction allowed) auto

lemma originAllowed_granted:
  "originAllowed U (allowed_of_flag U cfg) origin = (if origin_granted U cfg origin then origin else [])"
  by (auto simp: originAllowed_iff allowed_of_flag_def origin_granted_def SetAllowedOrigins_def Let_def)

lemma update_keeps_other: "(a, x) \<in> set al \<Longrightarrow> a \<noteq> k \<Longrightarrow> (a, x) \<in> set (AList.update k v al)"
  by (induction al) auto

text \<open>Exactly the configured origins may read answers. Whatever the flag, a response carries the
  headers that let a page read it (the origin itself, never a star, and the permission to send credentials)
  exactly when the request has an origin that the flag grants, and always \<open>Vary: Origin\<close>, so no cache hands one
  origin's answer to another. A preflight is answered 204 with the methods, headers and age for such an
  origin, and 403 with none of them for any other. The handler itself runs for every origin alike: a
  page that is not allowed cannot read the answer, but its request has had its effect.\<close>

theorem cors_policy:
  assumes "\<forall>k v. (k, v) \<in> set h \<longrightarrow> take 14 k \<noteq> ''Access-Control''"
  shows "map_of (applyCORS U (allowed_of_flag U cfg) origin h) ''Access-Control-Allow-Origin''
        = (if origin_granted U cfg origin then Some origin else None)
    \<and> map_of (applyCORS U (allowed_of_flag U cfg) origin h) ''Access-Control-Allow-Credentials''
        = (if origin_granted U cfg origin then Some ''true'' else None)
    \<and> (''Vary'', ''Origin'') \<in> set (applyCORS U (allowed_of_flag U cfg) origin h)
    \<and> (k \<noteq> ''Vary'' \<and> take 14 k \<noteq> ''Access-Control'' \<longrightarrow> map_of (applyCORS U (allowed_of_flag U cfg) origin h) k = map_of h k)
    \<and> fst (corsPreflightHandler U (allowed_of_flag U cfg) origin h) = (if origin_granted U cfg origin then 204 else 403)
    \<and> (map_of (snd (corsPreflightHandler U (allowed_of_flag U cfg) origin h)) ''Access-Control-Allow-Methods'' \<noteq> None
        \<longleftrightarrow> origin_granted U cfg origin)
    \<and> ((\<forall>h' s. snd (handler h' s) = f s) \<longrightarrow> snd (CORSMiddleware U (allowed_of_flag U cfg) handler origin h s) = f s)"
proof -
  have none: "map_of h k = None" if "take 14 k = ''Access-Control''" for k
    using assms that by (auto simp: map_of_eq_None_iff)
  have n: "map_of h ''Access-Control-Allow-Origin'' = None" "map_of h ''Access-Control-Allow-Credentials'' = None"
    "map_of h ''Access-Control-Allow-Methods'' = None" by (rule none; simp)+
  have org: "origin_granted U cfg origin \<Longrightarrow> origin \<noteq> []" by (simp add: origin_granted_def)
  have get: "map_of (applyCORS U (allowed_of_flag U cfg) origin h) j =
      (if origin_granted U cfg origin \<and> j = ''Access-Control-Allow-Credentials'' then Some ''true''
       else if origin_granted U cfg origin \<and> j = ''Access-Control-Allow-Origin'' then Some origin
       else case map_of h j of Some v \<Rightarrow> Some v | None \<Rightarrow> if j = ''Vary'' then Some ''Origin'' else None)" for j
    using org by (auto simp: applyCORS_def originAllowed_granted Let_def update_conv' map_add_def split: option.split)
  have v: "(''Vary'', ''Origin'') \<in> set (applyCORS U (allowed_of_flag U cfg) origin h)"
    by (simp add: applyCORS_def Let_def update_keeps_other)
  show ?thesis
    using v n by (auto simp: get corsPreflightHandler_def CORSMiddleware_def Let_def update_conv' split: option.split)
qed

text \<open>The wildcard, an entry with blanks and another case, and a page that is not listed.\<close>

definition no_unicode :: unicode where
  "no_unicode = \<lparr>uTrim = (\<lambda>s. s), uFold = (\<lambda>_ _. False)\<rparr>"

theorem cors_policy_witness:
  "map_of (applyCORS no_unicode (allowed_of_flag no_unicode ''http://a, HTTP://B'') ''http://b'' []) ''Access-Control-Allow-Origin''
      = Some ''http://b''
   \<and> fst (corsPreflightHandler no_unicode (allowed_of_flag no_unicode ''http://a, HTTP://B'') ''http://c'' []) = 403"
proof -
  have g: "origin_granted no_unicode ''http://a, HTTP://B'' ''http://b''" "\<not> origin_granted no_unicode ''http://a, HTTP://B'' ''http://c''"
    by code_simp+
  note P = cors_policy [where h = "[]" and U = no_unicode and cfg = "''http://a, HTTP://B''", simplified]
  from P [where origin = "''http://b''", THEN conjunct1]
    P [where origin = "''http://c''", THEN conjunct2, THEN conjunct2, THEN conjunct2, THEN conjunct2, THEN conjunct1] g
  show ?thesis by simp
qed

section \<open>Server-sent events\<close>

text \<open>
  The writer of one stream. Events and heartbeats are written under one mutex, so a stream is a sequence of
  writes; the heartbeat goroutine ends with the first that fails. For each write the connection
  takes it (\<open>None\<close>) or fails after some bytes; \<open>bufio.Writer\<close> repeats its first error ever after.
\<close>

record sse =
  sseSent :: string
  sseFailed :: bool
  sseCancelled :: bool

definition newline :: char where "newline = CHR 0x0A"

definition new_sse :: sse where
  "new_sse = \<lparr>sseSent = [], sseFailed = False, sseCancelled = False\<rparr>"

definition write_flush :: "nat option \<Rightarrow> string \<Rightarrow> sse \<Rightarrow> go_error option \<times> sse" where
  "write_flush d txt s =
     (if sseFailed s then (Some EIO, s\<lparr>sseCancelled := True\<rparr>)
      else case d of
        None \<Rightarrow> (None, s\<lparr>sseSent := sseSent s @ txt\<rparr>)
      | Some n \<Rightarrow> (Some EIO, s\<lparr>sseSent := sseSent s @ take n txt, sseFailed := True, sseCancelled := True\<rparr>))"

definition event_text :: "string \<Rightarrow> string \<Rightarrow> string" where
  "event_text event payload = (''event: '' @ event @ [newline]) @ (''data: '' @ payload @ [newline]) @ [newline]"

definition writeEvent :: "nat option \<Rightarrow> string \<Rightarrow> string \<Rightarrow> sse \<Rightarrow> go_error option \<times> sse" where
  "writeEvent d event payload s = write_flush d (event_text event payload) s"

definition ping_text :: string where "ping_text = '': ping'' @ [newline] @ [newline]"

definition writeHeartbeat :: "nat option \<Rightarrow> sse \<Rightarrow> go_error option \<times> sse" where
  "writeHeartbeat d s = write_flush d ping_text s"

definition sse_respond :: "(response \<Rightarrow> string option) \<Rightarrow> nat option \<Rightarrow> response \<Rightarrow> sse \<Rightarrow> go_error option \<times> sse" where
  "sse_respond marshal d m s =
     (case marshal m of None \<Rightarrow> (Some ERespond, s) | Some payload \<Rightarrow> writeEvent d ''message'' payload s)"

datatype sse_write = WriteEvent string string | WriteBeat

fun sse_step :: "nat option \<times> sse_write \<Rightarrow> sse \<Rightarrow> sse" where
  "sse_step (d, WriteEvent event payload) s = snd (writeEvent d event payload s)"
| "sse_step (d, WriteBeat) s = snd (writeHeartbeat d s)"

text \<open>
  What a browser's \<open>EventSource\<close> makes of the bytes (the event stream format, for text without carriage
  returns): lines up to a newline, fields with a name and a value, a line that begins with a colon is a
  comment, a blank line delivers the event if it has data, an event that is not ended is dropped.
\<close>

fun sse_lines :: "string \<Rightarrow> string \<Rightarrow> string list" where
  "sse_lines acc [] = []"
| "sse_lines acc (c # s) = (if c = newline then rev acc # sse_lines [] s else sse_lines (c # acc) s)"

definition sse_field :: "string \<Rightarrow> string \<times> string" where
  "sse_field line =
     (let v = drop 1 (dropWhile (\<lambda>c. c \<noteq> CHR '':'') line)
      in (takeWhile (\<lambda>c. c \<noteq> CHR '':'') line, if v \<noteq> [] \<and> hd v = CHR '' '' then tl v else v))"

fun sse_dispatch :: "string \<Rightarrow> string option \<Rightarrow> string list \<Rightarrow> (string \<times> string) list" where
  "sse_dispatch ev dat [] = []"
| "sse_dispatch ev dat (line # ls) =
     (if line = [] then
        (case dat of
           None \<Rightarrow> sse_dispatch [] None ls
         | Some x \<Rightarrow> (if ev = [] then ''message'' else ev, x) # sse_dispatch [] None ls)
      else if hd line = CHR '':'' then sse_dispatch ev dat ls
      else case sse_field line of (f, v) \<Rightarrow>
        if f = ''event'' then sse_dispatch v dat ls
        else if f = ''data'' then sse_dispatch ev (Some (case dat of None \<Rightarrow> v | Some x \<Rightarrow> x @ [newline] @ v)) ls
        else sse_dispatch ev dat ls)"

definition sse_events :: "string \<Rightarrow> (string \<times> string) list" where
  "sse_events txt = sse_dispatch [] None (sse_lines [] txt)"

fun write_text :: "sse_write \<Rightarrow> string" where
  "write_text (WriteEvent event payload) = event_text event payload"
| "write_text WriteBeat = ping_text"

fun write_lines :: "sse_write \<Rightarrow> string list" where
  "write_lines (WriteEvent event payload) = [''event: '' @ event, ''data: '' @ payload, []]"
| "write_lines WriteBeat = ['': ping'', []]"

fun write_clean :: "sse_write \<Rightarrow> bool" where
  "write_clean (WriteEvent event payload) \<longleftrightarrow> event \<noteq> [] \<and> newline \<notin> set event \<and> newline \<notin> set payload"
| "write_clean WriteBeat \<longleftrightarrow> True"

definition written_events :: "sse_write list \<Rightarrow> (string \<times> string) list" where
  "written_events ws = concat (map (\<lambda>w. case w of WriteEvent e x \<Rightarrow> [(e, x)] | WriteBeat \<Rightarrow> []) ws)"

lemma sse_lines_append:
  "newline \<notin> set x \<Longrightarrow> sse_lines acc (x @ newline # s) = (rev acc @ x) # sse_lines [] s"
  by (induction x arbitrary: acc) auto

lemma sse_lines_prefix: "\<exists>r. sse_lines acc (s @ t) = sse_lines acc s @ r \<and> (newline \<in> set t \<longrightarrow> r \<noteq> [])"
proof (induction s arbitrary: acc)
  case Nil
  have "newline \<in> set t \<longrightarrow> sse_lines acc t \<noteq> []" by (induction t arbitrary: acc) auto
  then show ?case by simp
next
  case (Cons c s)
  show ?case using Cons [of "c # acc"] Cons [of "[]"] by auto
qed

lemma write_lines: "write_clean w \<Longrightarrow> sse_lines [] (write_text w @ s) = write_lines w @ sse_lines [] s"
proof (cases w)
  case (WriteEvent e x)
  moreover assume "write_clean w"
  ultimately have "newline \<notin> set (''event: '' @ e)" "newline \<notin> set (''data: '' @ x)" by (auto simp: newline_def)
  from sse_lines_append [OF this(1), of "[]"] sse_lines_append [OF this(2), of "[]"] WriteEvent show ?thesis
    by (simp add: event_text_def)
next
  case WriteBeat
  have "newline \<notin> set '': ping''" by (simp add: newline_def)
  from sse_lines_append [OF this, of "[]"] WriteBeat show ?thesis by (simp add: ping_text_def)
qed

lemma write_dispatch: "write_clean w \<Longrightarrow> sse_dispatch [] None (write_lines w @ ls) = written_events [w] @ sse_dispatch [] None ls"
  by (cases w) (auto simp: written_events_def sse_field_def Let_def)

lemma write_dispatch_cut:
  assumes "write_clean w" and "write_lines w = xs @ r" and "r \<noteq> []"
  shows "sse_dispatch [] None xs = []"
  using assms by (cases w) (auto simp: Cons_eq_append_conv sse_field_def Let_def)

lemma write_text_end: "n < length (write_text w) \<Longrightarrow> newline \<in> set (drop n (write_text w))"
proof -
  assume n: "n < length (write_text w)"
  have "last (write_text w) = newline" by (cases w) (simp_all add: event_text_def ping_text_def)
  moreover have "last (drop n (write_text w)) = last (write_text w)" using n by simp
  ultimately show ?thesis using n last_in_set [of "drop n (write_text w)"] by simp
qed

text \<open>The text of whole writes, followed by a piece of one.\<close>

lemma sse_events_whole:
  "\<forall>w \<in> set ws. write_clean w \<Longrightarrow> sse_events (concat (map write_text ws) @ s) = written_events ws @ sse_events s"
  by (induction ws) (simp_all add: sse_events_def write_lines write_dispatch written_events_def)

lemma sse_events_cut:
  assumes "write_clean w"
  shows "sse_events (take n (write_text w)) = (if length (write_text w) \<le> n then written_events [w] else [])"
proof (cases "length (write_text w) \<le> n")
  case True
  then show ?thesis using sse_events_whole [of "[w]" "[]"] assms by (simp add: sse_events_def)
next
  case False
  then obtain r where r: "sse_lines [] (write_text w) = sse_lines [] (take n (write_text w)) @ r" "r \<noteq> []"
    using sse_lines_prefix [of "[]" "take n (write_text w)" "drop n (write_text w)"] write_text_end [of n w] by auto
  have "write_lines w = sse_lines [] (take n (write_text w)) @ r" using write_lines [OF assms, of "[]"] r(1) by simp
  from write_dispatch_cut [OF assms this r(2)] False show ?thesis by (simp add: sse_events_def)
qed

lemma sse_failed: "sseFailed s \<Longrightarrow> sseCancelled s \<Longrightarrow> fold sse_step ws s = s"
proof (induction ws arbitrary: s)
  case (Cons x ws)
  obtain d w where "x = (d, w)" by (cases x)
  with Cons show ?case by (cases w) (simp_all add: writeEvent_def writeHeartbeat_def write_flush_def)
qed simp

lemma sse_step_alive:
  "\<not> sseFailed s \<Longrightarrow> sse_step (d, w) s =
     (case d of None \<Rightarrow> s\<lparr>sseSent := sseSent s @ write_text w\<rparr>
      | Some n \<Rightarrow> s\<lparr>sseSent := sseSent s @ take n (write_text w), sseFailed := True, sseCancelled := True\<rparr>)"
  by (cases w) (simp_all add: writeEvent_def writeHeartbeat_def write_flush_def split: option.split)

definition taken :: "(nat option \<times> sse_write) list \<Rightarrow> sse_write list" where
  "taken ws = map snd (takeWhile (\<lambda>(d, w). d = None) ws)"

lemma sse_sent:
  assumes "\<not> sseFailed s"
  shows "sseSent (fold sse_step ws s) = sseSent s @ concat (map write_text (taken ws)) @
      (case dropWhile (\<lambda>(d, w). d = None) ws of [] \<Rightarrow> [] | (d, w) # later \<Rightarrow> take (the d) (write_text w))"
    and "sseCancelled (fold sse_step ws s) \<longleftrightarrow> sseCancelled s \<or> (\<exists>(d, w) \<in> set ws. d \<noteq> None)"
proof -
  have "sseSent (fold sse_step ws s) = sseSent s @ concat (map write_text (taken ws)) @
      (case dropWhile (\<lambda>(d, w). d = None) ws of [] \<Rightarrow> [] | (d, w) # later \<Rightarrow> take (the d) (write_text w))
    \<and> (sseCancelled (fold sse_step ws s) \<longleftrightarrow> sseCancelled s \<or> (\<exists>(d, w) \<in> set ws. d \<noteq> None))"
    using assms
  proof (induction ws arbitrary: s)
    case (Cons x ws)
    obtain d w where x: "x = (d, w)" by (cases x)
    show ?case
    proof (cases d)
      case None
      with Cons x show ?thesis by (simp add: sse_step_alive taken_def)
    next
      case (Some n)
      with Cons.prems x show ?thesis by (simp add: sse_step_alive sse_failed taken_def)
    qed
  qed (simp add: taken_def)
  then show "sseSent (fold sse_step ws s) = sseSent s @ concat (map write_text (taken ws)) @
      (case dropWhile (\<lambda>(d, w). d = None) ws of [] \<Rightarrow> [] | (d, w) # later \<Rightarrow> take (the d) (write_text w))"
    "sseCancelled (fold sse_step ws s) \<longleftrightarrow> sseCancelled s \<or> (\<exists>(d, w) \<in> set ws. d \<noteq> None)" by blast+
qed

text \<open>C37. The event stream, written and read back. Take any sequence of events and heartbeats on a stream,
  the payloads being without newlines as JSON is, and let the connection break anywhere. What the browser
  makes of the bytes that arrived is exactly the events written before the break, in order and with their names and
  payloads; heartbeats are invisible; an event cut off by the break is not delivered in part. The
  stream is cancelled, which ends the consume loop behind it, exactly when a write failed.\<close>

theorem event_stream_delivers:
  assumes "\<forall>(d, w) \<in> set ws. write_clean w"
  shows "sse_events (sseSent (fold sse_step ws new_sse)) = written_events (taken ws) @
      (case dropWhile (\<lambda>(d, w). d = None) ws of [] \<Rightarrow> []
       | (d, w) # later \<Rightarrow> if length (write_text w) \<le> the d then written_events [w] else [])
    \<and> (sseCancelled (fold sse_step ws new_sse) \<longleftrightarrow> (\<exists>(d, w) \<in> set ws. d \<noteq> None))"
proof -
  have clean: "\<forall>w \<in> set (taken ws). write_clean w" using assms by (fastforce simp: taken_def dest: set_takeWhileD)
  have cut: "write_clean w" if "dropWhile (\<lambda>(d, w). d = None) ws = (d, w) # later" for d w later
    using assms that set_dropWhileD [of "(d, w)" "\<lambda>(d, w). d = None" ws] by auto
  have "sse_events (case dropWhile (\<lambda>(d, w). d = None) ws of [] \<Rightarrow> [] | (d, w) # later \<Rightarrow> take (the d) (write_text w))
      = (case dropWhile (\<lambda>(d, w). d = None) ws of [] \<Rightarrow> []
       | (d, w) # later \<Rightarrow> if length (write_text w) \<le> the d then written_events [w] else [])"
  proof (cases "dropWhile (\<lambda>(d, w). d = None) ws")
    case (Cons x later)
    obtain d w where x: "x = (d, w)" by (cases x)
    have "write_clean w" using cut Cons x by blast
    from sse_events_cut [OF this, of "the d"] Cons x show ?thesis by (simp only: list.case prod.case)
  next
    case Nil
    then show ?thesis by (simp only: list.case) (simp add: sse_events_def)
  qed
  moreover have "\<not> sseFailed new_sse" "sseSent new_sse = []" "\<not> sseCancelled new_sse" by (simp_all add: new_sse_def)
  ultimately show ?thesis using sse_sent [of new_sse ws] sse_events_whole [OF clean] by simp
qed

theorem event_stream_delivers_witness:
  "sse_events (sseSent (fold sse_step [(None, WriteEvent ''message'' ''a b''), (None, WriteBeat),
       (None, WriteEvent ''error'' ''c''), (Some 9, WriteEvent ''message'' ''d''), (None, WriteBeat)] new_sse))
     = [(''message'', ''a b''), (''error'', ''c'')]"
  by (subst event_stream_delivers [THEN conjunct1])
    (simp_all add: taken_def written_events_def newline_def event_text_def)

end
