(* ===== verification/Workers.thy ===== *)
theory Workers
  imports Watch Web
begin

text \<open>
  The goroutines of a node that do one thing at every tick until their context is done: the clean worker of a
  partition (\<open>partition_proccessor.go\<close>), the report of local data (\<open>local_state.go\<close>), the reconcile loop of the
  controller (\<open>controller.go\<close>) and the heartbeat of an event stream (\<open>command_context.go\<close>). A run is the list
  of what the select finds; whatever the tick reads is part of it.
\<close>

section \<open>The loops\<close>

datatype clean_event = CleanTick clean_io int | CleanDone

text \<open>The result of a pass is dropped; a panic ends the process, so it ends the loop.\<close>

fun RunCleanWorker :: "clean_event list \<Rightarrow> int \<Rightarrow> partition \<Rightarrow> partition" where
  "RunCleanWorker [] ttl' p = p"
| "RunCleanWorker (CleanDone # evs) ttl' p = p"
| "RunCleanWorker (CleanTick io now # evs) ttl' p =
     (case CleanOldMessages io now ttl' p of
        (Some x, p') \<Rightarrow> p'
      | (None, p') \<Rightarrow> RunCleanWorker evs ttl' p')"

text \<open>A tick of the report has the coordinator as it is then. The results are those of \<open>Put\<close>, which are only logged.\<close>

datatype report_event = ReportTick coordinator | ReportDone

fun report_ticks ::
  "'e etcd \<Rightarrow> report_event list \<Rightarrow> 'e \<Rightarrow> (cluster_error + bool) list \<times> 'e" where
  "report_ticks E [] e = ([], e)"
| "report_ticks E (ReportDone # evs) e = ([], e)"
| "report_ticks E (ReportTick n # evs) e =
     (case put_local_state E n e of
        (r, e1) \<Rightarrow> (case report_ticks E evs e1 of (rs, e2) \<Rightarrow> (r # rs, e2)))"

definition runLocalStateReportLoop ::
  "'e etcd \<Rightarrow> coordinator \<Rightarrow> report_event list \<Rightarrow> 'e \<Rightarrow> (cluster_error + bool) list \<times> 'e" where
  "runLocalStateReportLoop E n evs e = report_ticks E (ReportTick n # evs) e"

text \<open>\<open>ctxDone\<close> is the context as \<open>reconcileReplication\<close> finds it during its pass.\<close>

datatype reconcile_event = ReconcileTick coordinator "nat \<Rightarrow> bool" | ReconcileDone

fun runControllerReconcileLoop :: "'e etcd \<Rightarrow> reconcile_event list \<Rightarrow> 'e \<Rightarrow> 'e" where
  "runControllerReconcileLoop E [] e = e"
| "runControllerReconcileLoop E (ReconcileDone # evs) e = e"
| "runControllerReconcileLoop E (ReconcileTick n ctxDone # evs) e =
     runControllerReconcileLoop E evs (reconcile_tick E n ctxDone e)"

datatype beat_event = BeatTick "nat option" | BeatDone

fun startHeartbeat :: "beat_event list \<Rightarrow> sse \<Rightarrow> sse" where
  "startHeartbeat [] s = s"
| "startHeartbeat (BeatDone # evs) s = s"
| "startHeartbeat (BeatTick d # evs) s =
     (case writeHeartbeat d s of (Some x, s') \<Rightarrow> s' | (None, s') \<Rightarrow> startHeartbeat evs s')"

section \<open>The heartbeat\<close>

fun beats :: "beat_event list \<Rightarrow> nat option list" where
  "beats [] = []"
| "beats (BeatDone # evs) = []"
| "beats (BeatTick d # evs) = (if d = None then d # beats evs else [d])"

text \<open>A heartbeat is the writes of an event stream, up to the first that fails.\<close>

lemma startHeartbeat_steps:
  "\<not> sseFailed s \<Longrightarrow> startHeartbeat evs s = fold sse_step (map (\<lambda>d. (d, WriteBeat)) (beats evs)) s"
  by (induction evs s rule: startHeartbeat.induct) (auto simp: writeHeartbeat_def write_flush_def split: option.splits)

section \<open>Reports of local data\<close>

lemma local_key [simp]:
  "has_prefix NodeLocalStatePath (nodeLocalStateKey i)" "drop (length NodeLocalStatePath) (nodeLocalStateKey i) = fmt_int i"
  by (simp_all add: has_prefix_def nodeLocalStateKey_def)

definition reports_ok :: "etcd_store \<Rightarrow> bool" where
  "reports_ok s \<longleftrightarrow> (\<forall>k kv. has_prefix NodeLocalStatePath k \<and> store_get k s = Some kv \<longrightarrow>
     (\<exists>i. k = nodeLocalStateKey i \<and> - (2 ^ 63) \<le> i \<and> i < 2 ^ 63))"

definition report_at :: "etcd_store \<Rightarrow> int \<Rightarrow> LocalPartitionState list option" where
  "report_at s i = (case store_get (nodeLocalStateKey i) s of None \<Rightarrow> None | Some kv \<Rightarrow> as_local (kvValue kv))"

text \<open>What other clients do: they name report keys by ids and leave the report of node \<open>i\<close> alone.\<close>

definition other_reports :: "int \<Rightarrow> etcd_store \<Rightarrow> etcd_op list \<Rightarrow> bool" where
  "other_reports i s ops \<longleftrightarrow> store_get (nodeLocalStateKey i) (store_commit ops s) = store_get (nodeLocalStateKey i) s
     \<and> (reports_ok s \<longrightarrow> reports_ok (store_commit ops s))"

lemma other_reports_keep:
  "client_steps (other_reports i) s t \<Longrightarrow> reports_ok s \<Longrightarrow> reports_ok t \<and> report_at t i = report_at s i"
proof (induction rule: client_steps.induct)
  case (client_step s t ops)
  then show ?case by (simp add: other_reports_def report_at_def)
qed simp

text \<open>The map \<open>ListAll\<close> builds is the store's.\<close>

definition add_report ::
  "string \<times> etcd_kv \<Rightarrow> (int, LocalPartitionState list) gomap \<Rightarrow> (int, LocalPartitionState list) gomap" where
  "add_report = (\<lambda>(key, kv) m. case ParseInt (drop (length NodeLocalStatePath) key) of
     None \<Rightarrow> m
   | Some i \<Rightarrow> (case as_local (kvValue kv) of None \<Rightarrow> m | Some entries \<Rightarrow> AList.update i entries m))"

lemma add_report_key:
  assumes "- (2 ^ 63) \<le> i" and "i < 2 ^ 63"
  shows "map_of (add_report (nodeLocalStateKey i, kv) m) j = (if j = i \<and> as_local (kvValue kv) \<noteq> None then as_local (kvValue kv) else map_of m j)"
  using ParseInt_fmt_int [OF assms] by (auto simp: add_report_def update_conv' split: option.splits)

lemma nodeLocalStateKey_inject: 
  assumes "nodeLocalStateKey i = nodeLocalStateKey j" and "- (2 ^ 63) \<le> i \<and> i < 2 ^ 63" and "- (2 ^ 63) \<le> j \<and> j < 2 ^ 63"
  shows "i = j"
proof -
  have "fmt_int i = fmt_int j" using assms(1) by (simp add: nodeLocalStateKey_def)
  then show ?thesis using ParseInt_fmt_int [of i] ParseInt_fmt_int [of j] assms(2,3) by simp
qed

lemma add_reports:
  assumes "\<forall>(k, kv) \<in> set xs. \<exists>i. k = nodeLocalStateKey i \<and> - (2 ^ 63) \<le> i \<and> i < 2 ^ 63" and "distinct (map fst xs)"
    and "- (2 ^ 63) \<le> j" and "j < 2 ^ 63"
  shows "map_of (fold add_report xs m) j =
    (case map_of xs (nodeLocalStateKey j) of Some kv \<Rightarrow> (if as_local (kvValue kv) = None then map_of m j else as_local (kvValue kv)) | None \<Rightarrow> map_of m j)"
  using assms(1,2)
proof (induction xs arbitrary: m)
  case (Cons x xs)
  obtain i kv where x: "x = (nodeLocalStateKey i, kv)" "- (2 ^ 63) \<le> i" "i < 2 ^ 63" using Cons.prems(1) by (cases x) auto
  let ?m = "add_report (nodeLocalStateKey i, kv) m"
  have IH: "map_of (fold add_report xs ?m) j =
    (case map_of xs (nodeLocalStateKey j) of
       Some kv \<Rightarrow> (if as_local (kvValue kv) = None then map_of ?m j else as_local (kvValue kv)) | None \<Rightarrow> map_of ?m j)"
    by (rule Cons.IH) (use Cons.prems in auto)
  show ?case
  proof (cases "j = i")
    case True
    then have "map_of xs (nodeLocalStateKey j) = None" using Cons.prems(2) x(1) by (auto simp: map_of_eq_None_iff)
    with IH True x(1) add_report_key [OF x(2,3), of kv m j] show ?thesis by (simp del: map_of_eq_Some_iff split: option.split)
  next
    case False
    then have "nodeLocalStateKey j \<noteq> nodeLocalStateKey i" using nodeLocalStateKey_inject x(2,3) assms(3,4) by blast
    with IH False x(1) add_report_key [OF x(2,3), of kv m j] show ?thesis by (simp del: map_of_eq_Some_iff split: option.split)
  qed
qed simp

lemma ListAll_reports:
  assumes "etcd_ok E view P" and "ListAll E e = (Inr m, e')" and "reports_ok (view e')" and "- (2 ^ 63) \<le> j" and "j < 2 ^ 63"
  shows "map_of m j = report_at (view e') j"
proof -
  obtain xs where x: "eGetPrefix E NodeLocalStatePath e = (Inr xs, e')" "m = fold add_report xs []"
    using assms(2) by (auto simp: ListAll_def add_report_def split: prod.splits sum.splits)
  note G = etcd_get_prefix [OF assms(1) x(1)]
  have "\<forall>(k, kv) \<in> set xs. \<exists>i. k = nodeLocalStateKey i \<and> - (2 ^ 63) \<le> i \<and> i < 2 ^ 63"
    using assms(3) G(3) [OF refl] by (fastforce simp: reports_ok_def)
  from add_reports [OF this G(2) [OF refl] assms(4,5), of "[]"]
  have m: "map_of m j = (case map_of xs (nodeLocalStateKey j) of Some kv \<Rightarrow> as_local (kvValue kv) | None \<Rightarrow> None)"
    by (auto simp: x(2) split: option.splits)
  have "map_of xs (nodeLocalStateKey j) = store_get (nodeLocalStateKey j) (view e')"
    using G(3) [OF refl, of "nodeLocalStateKey j"] map_of_eq_Some_iff [OF G(2) [OF refl], of "nodeLocalStateKey j"]
    by (metis local_key(1) not_None_eq)
  with m show ?thesis by (simp add: report_at_def)
qed

text \<open>A report either arrives or leaves the last one there.\<close>

lemma put_local_state_report:
  assumes "etcd_ok E view (other_reports i)" and "put_local_state E n e = (r, e')" and "nodeID n = i"
    and "- (2 ^ 63) \<le> i" and "i < 2 ^ 63" and "reports_ok (view e)"
  shows "reports_ok (view e')" and "report_at (view e') i = report_at (view e) i \<or> report_at (view e') i = Some (local_report n)"
    and "r = Inr b \<Longrightarrow> report_at (view e') i = Some (local_report n)"
proof -
  let ?op = "OpPut (nodeLocalStateKey i) (VLocal (local_report n)) 0"
  have "eTxn E [] [?op] e = (r, e')" using assms(2,3) by (simp add: put_local_state_def)
  from etcd_txn [OF assms(1) this] obtain s where s: "client_steps (other_reports i) (view e) s"
    "\<And>b. r = Inr b \<Longrightarrow> store_txn [] [?op] s = (b, view e')" "view e' = s \<or> view e' = snd (store_txn [] [?op] s)" by metis
  have keep: "reports_ok s" "report_at s i = report_at (view e) i" using other_reports_keep [OF s(1) assms(6)] by simp_all
  have t: "store_txn [] [?op] s = (True, store_commit [?op] s)" by (simp add: store_txn_def)
  have "reports_ok (store_commit [?op] s)" using keep(1) assms(4,5) by (auto simp: reports_ok_def split: if_splits)
  moreover have "report_at (store_commit [?op] s) i = Some (local_report n)" by (simp add: report_at_def)
  ultimately show "reports_ok (view e')" "report_at (view e') i = report_at (view e) i \<or> report_at (view e') i = Some (local_report n)"
    "r = Inr b \<Longrightarrow> report_at (view e') i = Some (local_report n)"
    using s(2,3) keep t by auto
qed

fun reported :: "report_event list \<Rightarrow> coordinator list" where
  "reported [] = []"
| "reported (ReportDone # evs) = []"
| "reported (ReportTick n # evs) = n # reported evs"

lemma report_ticks_kept:
  assumes "etcd_ok E view (other_reports i)" and "- (2 ^ 63) \<le> i" and "i < 2 ^ 63" and "report_ticks E evs e = (rs, e')"
    and "\<forall>n \<in> set (reported evs). nodeID n = i" and "reports_ok (view e)"
  shows "length rs = length (reported evs)" and "reports_ok (view e')"
    and "report_at (view e') i = report_at (view e) i \<or> (\<exists>k < length rs. report_at (view e') i = Some (local_report (reported evs ! k)))"
    and "k < length rs \<Longrightarrow> rs ! k = Inr b \<Longrightarrow>
      \<exists>k' < length rs. k \<le> k' \<and> report_at (view e') i = Some (local_report (reported evs ! k'))"
proof -
  have "length rs = length (reported evs) \<and> reports_ok (view e')
    \<and> (report_at (view e') i = report_at (view e) i \<or> (\<exists>k < length rs. report_at (view e') i = Some (local_report (reported evs ! k))))
    \<and> (\<forall>k b. k < length rs \<and> rs ! k = Inr b \<longrightarrow>
         (\<exists>k' < length rs. k \<le> k' \<and> report_at (view e') i = Some (local_report (reported evs ! k'))))"
    using assms(4-6)
  proof (induction evs arbitrary: e rs)
    case (Cons ev evs)
    show ?case
    proof (cases ev)
      case (ReportTick n)
      obtain r e1 where p: "put_local_state E n e = (r, e1)" by (metis prod.collapse)
      then obtain rs1 where t: "report_ticks E evs e1 = (rs1, e')" "rs = r # rs1"
        using Cons.prems(1) ReportTick by (auto split: prod.splits)
      have i: "nodeID n = i" "\<forall>n \<in> set (reported evs). nodeID n = i" using Cons.prems(2) ReportTick by auto
      note P = put_local_state_report [OF assms(1) p i(1) assms(2,3) Cons.prems(3)]
      define Q where "Q k' \<longleftrightarrow> report_at (view e') i = Some (local_report (reported (ev # evs) ! k'))" for k'
      have q: "report_at (view e') i = Some (local_report n) \<longleftrightarrow> Q 0"
        "report_at (view e') i = Some (local_report (reported evs ! k')) \<longleftrightarrow> Q (Suc k')" for k'
        by (simp_all add: Q_def ReportTick)
      note IH = Cons.IH [OF t(1) i(2) P(1), unfolded q(2)]
      have later: "report_at (view e') i = report_at (view e1) i \<or> (\<exists>k' < length rs1. Q (Suc k'))"
        by (rule IH [THEN conjunct2, THEN conjunct2, THEN conjunct1])
      have "\<exists>k' < length rs. k \<le> k' \<and> Q k'" if "k < length rs" "rs ! k = Inr b" for k b
      proof (cases k)
        case 0
        then have "report_at (view e1) i = Some (local_report n)" using P(3) that(2) t(2) by simp
        with later q(1) have "Q 0 \<or> (\<exists>k' < length rs1. Q (Suc k'))" by argo
        then show ?thesis using 0 t(2) by auto
      next
        case (Suc j)
        then have "j < length rs1 \<and> rs1 ! j = Inr b" using that t(2) by simp
        then obtain k' where "k' < length rs1" "j \<le> k'" "Q (Suc k')"
          using IH [THEN conjunct2, THEN conjunct2, THEN conjunct2] by blast
        then show ?thesis using Suc t(2) by (intro exI [of _ "Suc k'"]) simp
      qed
      moreover have "report_at (view e') i = report_at (view e) i \<or> (\<exists>k' < length rs. Q k')"
      proof -
        have "report_at (view e') i = report_at (view e) i \<or> Q 0 \<or> (\<exists>k' < length rs1. Q (Suc k'))"
          using later P(2) q(1) by argo
        then show ?thesis using t(2) by auto
      qed
      moreover have "length rs = length (reported (ev # evs)) \<and> reports_ok (view e')"
        using IH t(2) ReportTick by simp
      ultimately show ?thesis unfolding Q_def by blast
    qed (use Cons.prems in simp)
  qed simp
  then show "length rs = length (reported evs)" "reports_ok (view e')"
    "report_at (view e') i = report_at (view e) i \<or> (\<exists>k < length rs. report_at (view e') i = Some (local_report (reported evs ! k)))"
    "k < length rs \<Longrightarrow> rs ! k = Inr b \<Longrightarrow>
      \<exists>k' < length rs. k \<le> k' \<and> report_at (view e') i = Some (local_report (reported evs ! k'))" by blast+
qed

section \<open>Properties\<close>

text \<open>C17. Reports of local data arrive. The report loop of a node runs for any number of ticks, other clients
  write what they like except this node's report, and any read follows, of the controller or another node.
  If it succeeds, its map has under every node id exactly the report stored for that node; and if some
  report of the loop was acknowledged, then this node's entry is its local partitions with their next
  offsets, at the time of that report or of a later one, also when the later ones returned an error.\<close>

theorem local_reports_arrive:
  assumes "etcd_ok E view (other_reports i)" and "- (2 ^ 63) \<le> i" and "i < 2 ^ 63" and "reports_ok (view e)"
    and "\<forall>m \<in> set (n # reported evs). nodeID m = i" and "runLocalStateReportLoop E n evs e = (rs, e1)"
    and "client_steps (other_reports i) (view e1) (view e2)" and "ListAll E e2 = (Inr reports, e3)"
  shows "length rs = Suc (length (reported evs))
    \<and> (\<forall>j. - (2 ^ 63) \<le> j \<and> j < 2 ^ 63 \<longrightarrow> map_of reports j = report_at (view e3) j)
    \<and> (\<forall>k b. k < length rs \<and> rs ! k = Inr b \<longrightarrow>
        (\<exists>k' < length rs. k \<le> k' \<and> map_of reports i =
           Some (map (\<lambda>(topic, j, off). \<lparr>lsTopic = topic, lsPartitionId = j, lsOffset = off\<rparr>)
             (ListLocalPartitionOffsets (cbroker ((n # reported evs) ! k'))))))"
proof -
  have r: "report_ticks E (ReportTick n # evs) e = (rs, e1)" and ids: "\<forall>m \<in> set (reported (ReportTick n # evs)). nodeID m = i"
    using assms(5,6) by (simp_all add: runLocalStateReportLoop_def)
  note R = report_ticks_kept [OF assms(1-3) r ids assms(4)]
  have "client_steps (other_reports i) (view e2) (view e3)"
    using assms(8) etcd_get_prefix(1) [OF assms(1)] by (auto simp: ListAll_def split: prod.splits sum.splits)
  then have "client_steps (other_reports i) (view e1) (view e3)" by (rule client_steps_trans [OF assms(7)])
  then have e3: "reports_ok (view e3)" "report_at (view e3) i = report_at (view e1) i"
    using other_reports_keep R(2) by blast+
  note L = ListAll_reports [OF assms(1,8) e3(1)]
  show ?thesis using R(1,4) L L [OF assms(2,3)] e3(2) by (simp add: local_report_def)
qed

text \<open>A node with one partition reports once; a read then finds the partition with its next offset.\<close>

lemma reports_calm: "etcd_ok calm_etcd (\<lambda>s. s) (other_reports i)"
  by (auto simp: etcd_ok_def calm_etcd_def with_prefix_in store_get_def distinct_clearjunk ranges_of_result
      intro: client_refl split: prod.splits)

lemma joining_offsets: "ListLocalPartitionOffsets sample_joining = [(''orders'', 0, 0)]"
  by (simp add: ListLocalPartitionOffsets_def Pool.ListTopics_def ListPartitions_def GetTopicProcessor_def sample_joining_def set_local_def
      sample_node_def sample_topic_def put_local_def put_topic_def put_partition_def NewBroker_def GetPartition_def processor_at_def
      GetNextOffset_def sample_partition_fields(1))

theorem local_reports_arrive_witness:
  "\<exists>reports e. ListAll calm_etcd (snd (runLocalStateReportLoop calm_etcd (sample_coordinator\<lparr>cbroker := sample_joining\<rparr>) [] empty_store))
     = (Inr reports, e) \<and> map_of reports 1 = Some [\<lparr>lsTopic = ''orders'', lsPartitionId = 0, lsOffset = 0\<rparr>]"
proof -
  let ?n = "sample_coordinator\<lparr>cbroker := sample_joining\<rparr>"
  obtain b e1 where r: "runLocalStateReportLoop calm_etcd ?n [] empty_store = ([Inr b], e1)"
    by (simp add: runLocalStateReportLoop_def put_local_state_def store_txn_def)
  obtain reports e where l: "ListAll calm_etcd e1 = (Inr reports, e)" by (simp add: ListAll_def)
  have ok: "reports_ok empty_store" by (simp add: reports_ok_def empty_store_def store_get_def)
  have i: "\<forall>m \<in> set (?n # reported []). nodeID m = 1" by (simp add: sample_coordinator_def NewNodeCoordinator_def)
  from local_reports_arrive [OF reports_calm _ _ ok i r client_refl l] have "map_of reports 1
      = Some (map (\<lambda>(topic, j, off). \<lparr>lsTopic = topic, lsPartitionId = j, lsOffset = off\<rparr>) (ListLocalPartitionOffsets sample_joining))"
    by simp
  then show ?thesis using r l by (simp add: joining_offsets)
qed

end
