(* ===== verification/EventBus.thy ===== *)
theory EventBus
  imports Prelude
begin

text \<open>
  The event bus of the control plane, \<open>server/cluster/eventbus.go\<close>: publishers put events into a
  bounded queue without waiting, one dispatcher hands them to the subscribers, and whoever cannot
  follow is cut off. The goroutines take turns in any order, so the bus is a step relation; the label
  of a step says what a client can see of it.

  \<open>subscribers\<close> of the dispatcher holds exactly the channels that are not closed, so one map from
  the subscription ids to channels with a closed flag stands for both; a closed channel still hands
  out what it buffers. Ids are unbounded here (\<open>atomic.Uint64\<close> in the code).
\<close>

section \<open>State and operations\<close>

record 'a channel =
  chBuf :: "'a list"
  chClosed :: bool

record 'a event_bus =
  ebIngress :: "'a list"
  ebOverflow :: bool
  ebSubs :: "(nat, 'a channel) gomap"
  ebNextID :: nat

definition NewClusterEventBus :: "'a event_bus" where
  "NewClusterEventBus = \<lparr>ebIngress = [], ebOverflow = False, ebSubs = [], ebNextID = 0\<rparr>"

definition Publish :: "'a \<Rightarrow> 'a event_bus \<Rightarrow> bool \<times> 'a event_bus" where
  "Publish ev b =
     (if length (ebIngress b) < 256 then (True, b\<lparr>ebIngress := ebIngress b @ [ev]\<rparr>)
      else (False, b\<lparr>ebOverflow := True\<rparr>))"

definition close_channel :: "'a channel \<Rightarrow> 'a channel" where
  "close_channel c = c\<lparr>chClosed := True\<rparr>"

definition closeSubscriber :: "nat \<Rightarrow> 'a event_bus \<Rightarrow> 'a event_bus" where
  "closeSubscriber i b =
     b\<lparr>ebSubs := map (\<lambda>(j, c). (j, if j = i then close_channel c else c)) (ebSubs b)\<rparr>"

definition close_all :: "'a event_bus \<Rightarrow> 'a event_bus" where
  "close_all b = b\<lparr>ebSubs := map (\<lambda>(j, c). (j, close_channel c)) (ebSubs b)\<rparr>"

text \<open>\<open>Subscribe\<close>, up to the dispatcher having taken the request.\<close>

definition Subscribe :: "'a event_bus \<Rightarrow> nat \<times> 'a event_bus" where
  "Subscribe b =
     (let i = ebNextID b + 1
      in (i, b\<lparr>ebNextID := i, ebSubs := AList.update i \<lparr>chBuf = [], chClosed = False\<rparr> (ebSubs b)\<rparr>))"

text \<open>The non-blocking send to one subscriber: a full buffer closes the channel.\<close>

definition offer :: "'a \<Rightarrow> 'a channel \<Rightarrow> 'a channel" where
  "offer ev c =
     (if chClosed c then c
      else if length (chBuf c) < 64 then c\<lparr>chBuf := chBuf c @ [ev]\<rparr>
      else close_channel c)"

text \<open>The cases of the dispatcher's \<open>select\<close>; \<open>None\<close> when the case is not ready.\<close>

definition dispatch_event :: "'a event_bus \<Rightarrow> 'a event_bus option" where
  "dispatch_event b =
     (case ebIngress b of
        [] \<Rightarrow> None
      | ev # evs \<Rightarrow> Some (b\<lparr>ebIngress := evs, ebSubs := map (\<lambda>(j, c). (j, offer ev c)) (ebSubs b)\<rparr>))"

definition dispatch_overflow :: "'a event_bus \<Rightarrow> 'a event_bus option" where
  "dispatch_overflow b = (if ebOverflow b then Some (close_all (b\<lparr>ebOverflow := False\<rparr>)) else None)"

text \<open>A subscriber takes the next event of its channel.\<close>

definition receive :: "nat \<Rightarrow> 'a event_bus \<Rightarrow> ('a \<times> 'a event_bus) option" where
  "receive i b =
     (case map_of (ebSubs b) i of
        None \<Rightarrow> None
      | Some c \<Rightarrow>
          (case chBuf c of [] \<Rightarrow> None
           | ev # evs \<Rightarrow> Some (ev, b\<lparr>ebSubs := AList.update i (c\<lparr>chBuf := evs\<rparr>) (ebSubs b)\<rparr>)))"

section \<open>Runs\<close>

datatype 'a bus_label =
    Published 'a bool  \<comment> \<open>and what \<open>Publish\<close> returned\<close>
  | Subscribed nat
  | Received nat 'a
  | Silent

inductive bus_step :: "'a event_bus \<Rightarrow> 'a bus_label \<Rightarrow> 'a event_bus \<Rightarrow> bool" where
  step_publish: "Publish ev b = (ok, b') \<Longrightarrow> bus_step b (Published ev ok) b'"
| step_subscribe: "Subscribe b = (i, b') \<Longrightarrow> bus_step b (Subscribed i) b'"
| step_unsubscribe: "bus_step b Silent (closeSubscriber i b)"
| step_event: "dispatch_event b = Some b' \<Longrightarrow> bus_step b Silent b'"
| step_overflow: "dispatch_overflow b = Some b' \<Longrightarrow> bus_step b Silent b'"
| step_stop: "bus_step b Silent (close_all b)"
| step_receive: "receive i b = Some (ev, b') \<Longrightarrow> bus_step b (Received i ev) b'"

inductive bus_run :: "'a event_bus \<Rightarrow> 'a bus_label list \<Rightarrow> 'a event_bus \<Rightarrow> bool" where
  run_nil: "bus_run b [] b"
| run_snoc: "bus_run b ls b1 \<Longrightarrow> bus_step b1 l b2 \<Longrightarrow> bus_run b (ls @ [l]) b2"

inductive_cases bus_stepE: "bus_step b l b'"

text \<open>What a run shows: the events published, those accepted, and those a subscriber received.\<close>

definition published :: "'a bus_label list \<Rightarrow> 'a list" where
  "published ls = List.map_filter (\<lambda>l. case l of Published ev ok \<Rightarrow> Some ev | _ \<Rightarrow> None) ls"

definition accepted :: "'a bus_label list \<Rightarrow> 'a list" where
  "accepted ls = List.map_filter (\<lambda>l. case l of Published ev ok \<Rightarrow> if ok then Some ev else None | _ \<Rightarrow> None) ls"

definition received :: "nat \<Rightarrow> 'a bus_label list \<Rightarrow> 'a list" where
  "received i ls = List.map_filter (\<lambda>l. case l of Received j ev \<Rightarrow> if j = i then Some ev else None | _ \<Rightarrow> None) ls"

lemma labels_snoc [simp]:
  "published (ls @ [l]) = published ls @ (case l of Published ev ok \<Rightarrow> [ev] | _ \<Rightarrow> [])"
  "accepted (ls @ [l]) = accepted ls @ (case l of Published ev ok \<Rightarrow> if ok then [ev] else [] | _ \<Rightarrow> [])"
  "received i (ls @ [l]) = received i ls @ (case l of Received j ev \<Rightarrow> if j = i then [ev] else [] | _ \<Rightarrow> [])"
  "published [] = []" "accepted [] = []" "received i [] = []"
  by (simp_all add: published_def accepted_def received_def List.map_filter_def split: bus_label.splits)

lemmas labels_one = labels_snoc(1-3) [where ls = "[]", simplified labels_snoc(4-6) append_Nil]

section \<open>A connected subscriber misses nothing\<close>

definition bus_ok :: "'a event_bus \<Rightarrow> bool" where
  "bus_ok b \<longleftrightarrow> length (ebIngress b) \<le> 256 \<and> distinct (map fst (ebSubs b)) \<and>
     (\<forall>(i, c)\<in>set (ebSubs b). i \<le> ebNextID b \<and> length (chBuf c) \<le> 64)"

definition connected :: "nat \<Rightarrow> 'a event_bus \<Rightarrow> bool" where
  "connected i b \<longleftrightarrow> (case map_of (ebSubs b) i of None \<Rightarrow> False | Some c \<Rightarrow> \<not> chClosed c)"

definition buffered :: "nat \<Rightarrow> 'a event_bus \<Rightarrow> 'a list" where
  "buffered i b = (case map_of (ebSubs b) i of None \<Rightarrow> [] | Some c \<Rightarrow> chBuf c)"

lemma offer_channel:
  "length (chBuf c) \<le> 64 \<Longrightarrow> length (chBuf (offer ev c)) \<le> 64"
  "\<not> chClosed (offer ev c) \<Longrightarrow> \<not> chClosed c \<and> chBuf (offer ev c) = chBuf c @ [ev]"
  by (auto simp: offer_def close_channel_def split: if_splits)

lemma bus_ok_map:
  assumes "bus_ok b" and "\<And>j c. length (chBuf c) \<le> 64 \<Longrightarrow> length (chBuf (f j c)) \<le> 64"
  shows "bus_ok (b\<lparr>ebSubs := map (\<lambda>(j, c). (j, f j c)) (ebSubs b)\<rparr>)"
  using assms by (fastforce simp: bus_ok_def comp_def case_prod_beta)

lemma bus_step_ok: "bus_step b l b' \<Longrightarrow> bus_ok b \<Longrightarrow> bus_ok b'"
proof (induction rule: bus_step.induct)
  case (step_publish ev b ok b')
  then show ?case by (auto simp: Publish_def bus_ok_def split: if_splits)
next
  case (step_subscribe b i b')
  then have "ebNextID b + 1 \<notin> fst ` set (ebSubs b)" by (force simp: bus_ok_def)
  with step_subscribe show ?case by (fastforce simp: Subscribe_def Let_def bus_ok_def update_new)
next
  case (step_unsubscribe b i)
  then show ?case unfolding closeSubscriber_def by (intro bus_ok_map) (auto simp: close_channel_def)
next
  case (step_event b b')
  then obtain ev evs where e: "ebIngress b = ev # evs"
    "b' = b\<lparr>ebIngress := evs, ebSubs := map (\<lambda>(j, c). (j, offer ev c)) (ebSubs b)\<rparr>"
    by (auto simp: dispatch_event_def split: list.splits)
  have "bus_ok (b\<lparr>ebIngress := evs\<rparr>)" using step_event.prems e(1) by (simp add: bus_ok_def)
  from bus_ok_map [where f = "\<lambda>_. offer ev", OF this offer_channel(1)] show ?case using e(2) by simp
next
  case (step_overflow b b')
  then have "b' = close_all (b\<lparr>ebOverflow := False\<rparr>)" "bus_ok (b\<lparr>ebOverflow := False\<rparr>)"
    by (auto simp: dispatch_overflow_def bus_ok_def split: if_splits)
  then show ?case unfolding close_all_def by (simp only:) (intro bus_ok_map, auto simp: close_channel_def)
next
  case (step_stop b)
  then show ?case unfolding close_all_def by (intro bus_ok_map) (auto simp: close_channel_def)
next
  case (step_receive i b ev b')
  then obtain c evs where c: "map_of (ebSubs b) i = Some c" "chBuf c = ev # evs"
    "b' = b\<lparr>ebSubs := AList.update i (c\<lparr>chBuf := evs\<rparr>) (ebSubs b)\<rparr>"
    by (auto simp: receive_def split: option.splits list.splits)
  have m: "(i, c) \<in> set (ebSubs b)" using map_of_SomeD [OF c(1)] .
  have "set (AList.update i (c\<lparr>chBuf := evs\<rparr>) (ebSubs b)) \<subseteq> insert (i, c\<lparr>chBuf := evs\<rparr>) (set (ebSubs b))"
    by (rule update_subset)
  with step_receive.prems m c show ?case by (fastforce simp: bus_ok_def distinct_update)
qed

text \<open>One step, for a subscriber that is connected before and after it.\<close>

lemma bus_step_connected:
  assumes "bus_step b l b'" and "bus_ok b" and "i \<le> ebNextID b" and "connected i b'"
  shows "connected i b \<and> ebNextID b \<le> ebNextID b' \<and>
    received i [l] @ buffered i b' @ ebIngress b' = buffered i b @ ebIngress b @ accepted [l] \<and>
    (\<not> ebOverflow b' \<longrightarrow> \<not> ebOverflow b \<and> accepted [l] = published [l])"
  using assms
proof (cases rule: bus_step.cases)
  case (step_publish ev ok)
  then show ?thesis using assms(4) labels_one [where l = l]
    by (auto simp: Publish_def connected_def buffered_def split: if_splits)
next
  case (step_subscribe j)
  then have "j \<noteq> i" using assms(3) by (auto simp: Subscribe_def Let_def)
  then show ?thesis using step_subscribe assms(4) labels_one [where l = l]
    by (auto simp: Subscribe_def Let_def connected_def buffered_def update_conv')
next
  case (step_unsubscribe j)
  then show ?thesis using assms(4) labels_one [where l = l]
    by (auto simp: closeSubscriber_def connected_def buffered_def map_of_values close_channel_def
        split: option.splits if_splits)
next
  case step_event
  then obtain ev evs where "ebIngress b = ev # evs"
    "b' = b\<lparr>ebIngress := evs, ebSubs := map (\<lambda>(j, c). (j, offer ev c)) (ebSubs b)\<rparr>"
    by (auto simp: dispatch_event_def split: list.splits)
  then show ?thesis using assms(4) labels_one [where l = l] step_event(1) offer_channel(2) [of ev]
    by (auto simp: connected_def buffered_def map_of_values split: option.splits)
next
  case step_overflow
  then show ?thesis using assms(4)
    by (auto simp: dispatch_overflow_def close_all_def connected_def map_of_values close_channel_def
        split: option.splits if_splits)
next
  case step_stop
  then show ?thesis using assms(4)
    by (auto simp: close_all_def connected_def map_of_values close_channel_def split: option.splits)
next
  case (step_receive j ev)
  then obtain c evs where c: "map_of (ebSubs b) j = Some c" "chBuf c = ev # evs"
    "b' = b\<lparr>ebSubs := AList.update j (c\<lparr>chBuf := evs\<rparr>) (ebSubs b)\<rparr>"
    by (auto simp: receive_def split: option.splits list.splits)
  then show ?thesis using assms(4) labels_one [where l = l] step_receive(1)
    by (auto simp: connected_def buffered_def update_conv' split: option.splits if_splits)
qed

lemma bus_run_connected:
  assumes "bus_run b ls b'" and "bus_ok b" and "i \<le> ebNextID b"
  shows "bus_ok b' \<and> ebNextID b \<le> ebNextID b' \<and> (connected i b' \<longrightarrow> connected i b \<and>
    received i ls @ buffered i b' @ ebIngress b' = buffered i b @ ebIngress b @ accepted ls \<and>
    (\<not> ebOverflow b' \<longrightarrow> \<not> ebOverflow b \<and> accepted ls = published ls))"
  using assms
proof (induction rule: bus_run.induct)
  case (run_nil b)
  then show ?case by simp
next
  case (run_snoc b ls b1 l b2)
  note IH = run_snoc.IH [OF run_snoc.prems]
  have mono: "ebNextID b1 \<le> ebNextID b2"
    using run_snoc.hyps(2)
    by (cases rule: bus_step.cases) (auto simp: Publish_def Subscribe_def Let_def closeSubscriber_def dispatch_event_def
        dispatch_overflow_def close_all_def receive_def split: if_splits option.splits list.splits)
  have "bus_ok b2" using bus_step_ok [OF run_snoc.hyps(2)] IH by blast
  moreover have "connected i b1 \<and> received i [l] @ buffered i b2 @ ebIngress b2 = buffered i b1 @ ebIngress b1 @ accepted [l] \<and>
    (\<not> ebOverflow b2 \<longrightarrow> \<not> ebOverflow b1 \<and> accepted [l] = published [l])" if "connected i b2"
    using bus_step_connected [OF run_snoc.hyps(2) _ _ that] IH run_snoc.prems(2) by simp
  ultimately show ?case using IH mono labels_one [where l = l] by auto
qed

text \<open>A connected subscriber has missed nothing. Take any interleaving of publishers, subscribers and
  the dispatcher, and a subscriber that is still connected at the end: what it has received, followed
  by what its channel and the bus still hold, is exactly what they held at the start followed by all
  events accepted since, in order and once each; and unless a loss is still to be handled, no event
  was refused meanwhile. Buffers never exceed 256 events in the bus and 64 in a channel.\<close>

theorem subscriber_misses_nothing:
  assumes "bus_run b ls b'" and "bus_ok b" and "connected i b" and "connected i b'"
  shows "received i ls @ buffered i b' @ ebIngress b' = buffered i b @ ebIngress b @ accepted ls \<and>
    (\<not> ebOverflow b' \<longrightarrow> accepted ls = published ls) \<and> bus_ok b' \<and>
    length (ebIngress b') \<le> 256 \<and> length (buffered i b') \<le> 64"
proof -
  obtain c where "(i, c) \<in> set (ebSubs b)"
    using assms(3) by (auto simp: connected_def split: option.splits dest: map_of_SomeD)
  then have "i \<le> ebNextID b" using assms(2) by (auto simp: bus_ok_def)
  note R = bus_run_connected [OF assms(1,2) this]
  have "length (buffered i b') \<le> 64" "length (ebIngress b') \<le> 256"
    using R by (auto simp: bus_ok_def buffered_def split: option.splits dest: map_of_SomeD)
  with R assms(4) show ?thesis by blast
qed

text \<open>One subscriber, one event published, dispatched and received.\<close>

theorem subscriber_misses_nothing_witness:
  "\<exists>b b' :: nat event_bus. bus_run b ([] @ [Published 7 True] @ [Silent] @ [Received 1 7]) b' \<and> connected 1 b' \<and>
     received 1 [Published 7 True, Silent, Received 1 (7 :: nat)] = [7]"
proof -
  define mk where "mk xs buf = \<lparr>ebIngress = xs, ebOverflow = False, ebSubs = [(1, \<lparr>chBuf = buf, chClosed = False\<rparr>)], ebNextID = 1\<rparr>"
    for xs buf :: "nat list"
  have s1: "bus_step (mk [] []) (Published 7 True) (mk [7] [])" by (rule step_publish) (simp add: Publish_def mk_def)
  have s2: "bus_step (mk [7] []) Silent (mk [] [7])" by (rule step_event) (simp add: dispatch_event_def offer_def mk_def)
  have s3: "bus_step (mk [] [7]) (Received 1 7) (mk [] [])" by (rule step_receive) (simp add: receive_def mk_def)
  note run = run_snoc [OF run_snoc [OF run_snoc [OF run_nil s1] s2] s3]
  have "bus_ok (mk [] [])" "connected 1 (mk [] [])" by (simp_all add: bus_ok_def connected_def mk_def)
  from subscriber_misses_nothing [OF run this this(2)]
  have "received 1 [Published 7 True, Silent, Received 1 (7 :: nat)] = [7]"
    by (simp add: buffered_def mk_def accepted_def List.map_filter_def)
  with run show ?thesis by (auto intro!: exI [of _ "mk [] []"] simp: connected_def mk_def)
qed

end
