(* ===== verification/Tcp.thy ===== *)
theory Tcp
  imports Broker
begin

text \<open>
  The TCP protocol of the data plane: the server side \<open>server/broker/tcp.go\<close> and the client side
  \<open>client/cmd/broker.go\<close>. A connection carries one request: 12 bytes of header (size, correlation id,
  command, big-endian) and the body, whose size is the size field less 8; a response is a size field
  (4 more than the body), the correlation id and the body. What a peer sends before it closes its side
  is a byte list. Protocol buffers are a third-party codec: \<open>enc\<close> gives the encoding of a response, or
  \<open>None\<close> if it fails. The pooled buffers are arguments, with whatever earlier connections left there.
\<close>

section \<open>Reading from a connection\<close>

datatype tcp_error = TcpEOF | TcpUnexpectedEOF | TcpBodyTooLarge | TcpShortSize

text \<open>\<open>io.ReadFull\<close>: all \<open>n\<close> bytes, or \<open>EOF\<close> when there were none, or \<open>ErrUnexpectedEOF\<close>.\<close>

definition read_full :: "nat \<Rightarrow> bytes \<Rightarrow> tcp_error + bytes \<times> bytes" where
  "read_full n inp =
     (if n \<le> length inp then Inr (take n inp, drop n inp)
      else if inp = [] then Inl TcpEOF else Inl TcpUnexpectedEOF)"

record KafkaHeader =
  MessageSize :: u32
  CorrelationID :: u32
  CommandType :: u32

definition parse_header :: "bytes \<Rightarrow> KafkaHeader" where
  "parse_header b = \<lparr>MessageSize = Uint32 b, CorrelationID = Uint32 (drop 4 b), CommandType = Uint32 (drop 8 b)\<rparr>"

definition MaxBodySize :: nat where "MaxBodySize = 64 * 1024"

text \<open>
  The read part of \<open>handleConnection\<close>: the error it returns, and the request it calls the handler
  with, if any. \<open>EOF\<close> on the header is not an error there, so the header that is parsed then is the
  one the pooled buffer still holds, \<open>old\<close>.
\<close>

definition read_body :: "tcp_error option \<Rightarrow> KafkaHeader \<Rightarrow> bytes \<Rightarrow> tcp_error option \<times> (KafkaHeader \<times> bytes) option" where
  "read_body err h rest =
     (if MessageSize h > 4 then
        let bodySize = MessageSize h - 8
        in if bodySize > 0 then
             if unat bodySize > MaxBodySize then (Some TcpBodyTooLarge, None)
             else case read_full (unat bodySize) rest of
                 Inl e \<Rightarrow> (Some e, None)
               | Inr (body, _) \<Rightarrow> (err, Some (h, body))
           else (err, None)
      else (err, None))"

definition read_request :: "bytes \<Rightarrow> bytes \<Rightarrow> tcp_error option \<times> (KafkaHeader \<times> bytes) option" where
  "read_request old inp =
     (case read_full 12 inp of
        Inr (header, rest) \<Rightarrow> read_body None (parse_header header) rest
      | Inl TcpEOF \<Rightarrow> read_body (Some TcpEOF) (parse_header old) inp
      | Inl e \<Rightarrow> (Some e, None))"

text \<open>What the deferred function writes for an error: plain text, not a frame.\<close>

definition ascii :: "string \<Rightarrow> bytes" where
  "ascii s = map (\<lambda>c. of_nat (of_char c)) s"

fun error_message :: "tcp_error \<Rightarrow> bytes" where
  "error_message TcpEOF = ascii ''EOF''"
| "error_message TcpUnexpectedEOF = ascii ''unexpected EOF''"
| "error_message TcpBodyTooLarge = ascii ''error: '' @
     [209, 128, 208, 176, 208, 183, 208, 188, 208, 181, 209, 128, 32, 209, 130, 208, 181, 208, 187, 208,
      176, 32, 208, 191, 209, 128, 208, 181, 208, 178, 209, 139, 209, 136, 208, 176, 208, 181, 209, 130,
      32, 208, 188, 208, 176, 208, 186, 209, 129, 208, 184, 208, 188, 208, 176, 208, 187, 209, 140, 208,
      189, 208, 190, 32, 208, 180, 208, 190, 208, 191, 209, 131, 209, 129, 209, 130, 208, 184, 208, 188,
      209, 139, 208, 185]"
| "error_message TcpShortSize = []"  \<comment> \<open>on the client only\<close>

definition error_text :: "tcp_error option \<Rightarrow> bytes" where
  "error_text err =
     (case err of None \<Rightarrow> []
      | Some e \<Rightarrow> ascii ''unexpected error while handling connection'' @ [10] @ ascii ''err - '' @ error_message e @ [10])"

section \<open>Writing a response\<close>

text \<open>\<open>con.Write\<close> accepts at most the next number of bytes each time; after the last it fails.\<close>

fun write_all :: "nat list \<Rightarrow> bytes \<Rightarrow> bytes \<times> bool" where
  "write_all chunks [] = ([], True)"
| "write_all [] packet = ([], False)"
| "write_all (n # chunks) packet =
     (case write_all chunks (drop n packet) of (sent, ok) \<Rightarrow> (take n packet @ sent, ok))"

text \<open>
  \<open>Encode\<close> marshals into the front of \<open>Reply\<close>, or elsewhere when it does not fit; \<open>Write\<close> moves the body
  8 bytes up (\<open>copy\<close> allows the overlap) and fills in the two fields. Results: the error, the bytes
  that went out, and the buffer.
\<close>

definition tcp_Encode :: "bytes \<Rightarrow> bytes \<Rightarrow> bytes" where
  "tcp_Encode b reply = (if length b \<le> length reply then b @ drop (length b) reply else reply)"

definition tcp_Write :: "u32 \<Rightarrow> nat list \<Rightarrow> bytes \<Rightarrow> bytes \<Rightarrow> (go_error option \<times> bytes) \<times> bytes" where
  "tcp_Write corr chunks b reply =
     (if length b > MaxBodySize then ((Some ERespond, []), reply)
      else
        let p1 = take 8 (take (8 + length b) reply) @ b;
            p2 = PutUint32 (of_nat (4 + length b)) @ drop 4 p1;
            packet = take 4 p2 @ PutUint32 corr @ drop 8 p2
        in case write_all chunks packet of
          (sent, ok) \<Rightarrow> ((if ok then None else Some ERespond, sent), packet @ drop (8 + length b) reply))"

definition tcp_Respond ::
  "('m \<Rightarrow> bytes option) \<Rightarrow> u32 \<Rightarrow> nat list \<Rightarrow> 'm \<Rightarrow> bytes \<Rightarrow> (go_error option \<times> bytes) \<times> bytes" where
  "tcp_Respond enc corr chunks m reply =
     (case enc m of
        None \<Rightarrow> ((Some ERespond, []), reply)
      | Some b \<Rightarrow> tcp_Write corr chunks b (tcp_Encode b reply))"

section \<open>A connection\<close>

text \<open>
  The handler answers through \<open>Respond\<close>. What a response does to the connection does not depend on
  what the reply buffer holds (lemma \<open>tcp_Respond_frame\<close>), so every response is given the buffer of
  the request; \<open>chunks m\<close> is how the connection accepts the bytes of response \<open>m\<close>.
\<close>

definition tcp_responder ::
  "(response \<Rightarrow> bytes option) \<Rightarrow> u32 \<Rightarrow> (response \<Rightarrow> nat list) \<Rightarrow> bytes \<Rightarrow> responder" where
  "tcp_responder enc corr chunks reply m = fst (fst (tcp_Respond enc corr (chunks m) m reply))"

definition tcp_output ::
  "(response \<Rightarrow> bytes option) \<Rightarrow> u32 \<Rightarrow> (response \<Rightarrow> nat list) \<Rightarrow> bytes \<Rightarrow> response list \<Rightarrow> bytes" where
  "tcp_output enc corr chunks reply rs = concat (map (\<lambda>m. snd (fst (tcp_Respond enc corr (chunks m) m reply))) rs)"

definition handleConnection ::
  "'w cluster_net \<Rightarrow> lock_io \<Rightarrow> i64 \<Rightarrow> faults \<Rightarrow> (response \<Rightarrow> bytes option) \<Rightarrow> (response \<Rightarrow> nat list) \<Rightarrow> (u64 \<Rightarrow> stream_event list)
     \<Rightarrow> codec \<Rightarrow> bytes \<Rightarrow> bytes \<Rightarrow> bytes \<Rightarrow> broker \<Rightarrow> 'w \<Rightarrow> bytes \<times> broker \<times> 'w" where
  "handleConnection net io now fault enc chunks events cd old reply inp b w =
     (case read_request old inp of
        (err, None) \<Rightarrow> (error_text err, b, w)
      | (err, Some (h, body)) \<Rightarrow>
          (case HandleCommand net io now fault (tcp_responder enc (CorrelationID h) chunks reply) events cd
                  (CommandType h) body b w of
             ((e, rs), b', w') \<Rightarrow> (tcp_output enc (CorrelationID h) chunks reply rs @ error_text err, b', w')))"

section \<open>The client\<close>

definition put_header :: "KafkaHeader \<Rightarrow> bytes" where
  "put_header h = PutUint32 (MessageSize h) @ PutUint32 (CorrelationID h) @ PutUint32 (CommandType h)"

definition writeRequest :: "u32 \<Rightarrow> u32 \<Rightarrow> bytes \<Rightarrow> bytes" where
  "writeRequest corr cmd body =
     put_header \<lparr>MessageSize = of_nat (8 + length body), CorrelationID = corr, CommandType = cmd\<rparr> @ body"

definition readResponse :: "bytes \<Rightarrow> tcp_error + (u32 \<times> bytes) \<times> bytes" where
  "readResponse inp =
     (case read_full 4 inp of
        Inl e \<Rightarrow> Inl e
      | Inr (sizeBuf, inp1) \<Rightarrow>
          let messageSize = Uint32 sizeBuf
          in if messageSize < 4 then Inl TcpShortSize
             else case read_full (unat messageSize) inp1 of
               Inl e \<Rightarrow> Inl e
             | Inr (body, inp2) \<Rightarrow> Inr ((Uint32 (take 4 body), drop 4 body), inp2))"

text \<open>\<open>serve\<close> is what the server answers on the connection before it closes it.\<close>

definition sendTCPRequest :: "(bytes \<Rightarrow> bytes) \<Rightarrow> u32 \<Rightarrow> bytes \<Rightarrow> tcp_error + bytes" where
  "sendTCPRequest serve cmd body =
     (case readResponse (serve (writeRequest 1 cmd body)) of
        Inl e \<Rightarrow> Inl e
      | Inr ((_, answer), _) \<Rightarrow> Inr answer)"

section \<open>Frames\<close>

interpretation header: field_codec put_header parse_header 12
  by unfold_locales
    (auto simp: put_header_def parse_header_def be32.get_put be32.get_at [of "PutUint32 _", simplified])

definition frame :: "u32 \<Rightarrow> bytes \<Rightarrow> bytes" where
  "frame corr b = PutUint32 (of_nat (4 + length b)) @ PutUint32 corr @ b"

lemma write_all_enough: "length packet \<le> sum_list chunks \<Longrightarrow> write_all chunks packet = (packet, True)"
proof (induction chunks packet rule: write_all.induct)
  case (3 n chunks x xs)
  have "length (drop n (x # xs)) \<le> sum_list chunks" using "3.prems" by (simp del: drop_Cons')
  from "3.IH" [OF this] show ?case by (simp del: drop_Cons' take_Cons')
qed simp_all

text \<open>A response that fits is a frame, whatever was in the buffer; one that does not is lost whole.\<close>

lemma tcp_Respond_frame:
  assumes "length reply = MaxBodySize + 8" and "MaxBodySize + 8 \<le> sum_list chunks"
  shows "fst (tcp_Respond enc corr chunks m reply) =
    (case enc m of None \<Rightarrow> (Some ERespond, [])
     | Some b \<Rightarrow> if length b \<le> MaxBodySize then (None, frame corr b) else (Some ERespond, []))"
proof -
  have "fst (tcp_Write corr chunks b r) = (None, frame corr b)"
    if "length b \<le> MaxBodySize" "length r = MaxBodySize + 8" for b r
  proof -
    have l: "length (take 8 (take (8 + length b) r)) = 8" using that by simp
    have "length (frame corr b) \<le> sum_list chunks" using assms(2) that(1) by (simp add: frame_def)
    from write_all_enough [OF this] show ?thesis using that l by (simp add: tcp_Write_def Let_def frame_def)
  qed
  moreover have "fst (tcp_Write corr chunks b r) = (Some ERespond, [])" if "MaxBodySize < length b" for b r
    using that by (simp add: tcp_Write_def)
  moreover have "length (tcp_Encode b reply) = MaxBodySize + 8" for b using assms(1) by (simp add: tcp_Encode_def)
  ultimately show ?thesis by (auto simp: tcp_Respond_def split: option.splits)
qed

lemma read_full_append [simp]: "read_full (length a) (a @ rest) = Inr (a, rest)"
  by (simp add: read_full_def)

lemma unat_u32: "n < 2 ^ 32 \<Longrightarrow> unat (of_nat n :: u32) = n"
  by (simp add: unat_of_nat)

lemma readResponse_frame:
  assumes "length b \<le> MaxBodySize"
  shows "readResponse (frame corr b @ rest) = Inr ((corr, b), rest)"
proof -
  let ?n = "of_nat (4 + length b) :: u32"
  have n: "unat ?n = 4 + length b" using assms by (intro unat_u32) (simp add: MaxBodySize_def)
  have "\<not> ?n < 4" by (simp only: word_less_nat_alt n) simp
  moreover have "read_full 4 (frame corr b @ rest) = Inr (PutUint32 ?n, PutUint32 corr @ b @ rest)"
    using read_full_append [of "PutUint32 ?n" "PutUint32 corr @ b @ rest"] by (simp add: frame_def)
  moreover have "read_full (unat ?n) (PutUint32 corr @ b @ rest) = Inr (PutUint32 corr @ b, rest)"
    using read_full_append [of "PutUint32 corr @ b" rest] by (simp add: n del: of_nat_add)
  ultimately show ?thesis by (simp add: readResponse_def Let_def be32.get_put_self be32.take_put be32.drop_put del: of_nat_add)
qed

lemma read_request_write:
  assumes "body \<noteq> []" and "length body \<le> MaxBodySize"
  shows "read_request old (writeRequest corr cmd body @ rest) =
    (None, Some (\<lparr>MessageSize = of_nat (8 + length body), CorrelationID = corr, CommandType = cmd\<rparr>, body))"
proof -
  let ?n = "of_nat (8 + length body) :: u32"
  let ?h = "\<lparr>MessageSize = ?n, CorrelationID = corr, CommandType = cmd\<rparr>"
  have b: "8 + length body < 2 ^ 32" using assms(2) by (simp add: MaxBodySize_def)
  have n: "unat ?n = 8 + length body" using b by (intro unat_u32) simp
  have "(4 :: u32) < ?n" by (simp only: word_less_nat_alt n) simp
  moreover have s: "?n - 8 = of_nat (length body)" by simp
  moreover have u: "unat (of_nat (length body) :: u32) = length body" using b by (intro unat_u32) simp
  moreover have "(0 :: u32) < of_nat (length body)" using assms(1) by (simp only: word_less_nat_alt u) simp
  moreover have "read_full 12 (writeRequest corr cmd body @ rest) = Inr (put_header ?h, body @ rest)"
    using read_full_append [of "put_header ?h" "body @ rest"] by (simp add: writeRequest_def header.length_put)
  ultimately show ?thesis
    using assms(2) by (simp add: read_request_def read_body_def Let_def header.get_put_self not_less del: of_nat_add)
qed

lemma readResponse_nil [simp]: "readResponse [] = Inl TcpEOF"
  by (simp add: readResponse_def read_full_def)

text \<open>The frames a connection answers one request with.\<close>

lemma handleConnection_frames:
  assumes "body \<noteq> []" and "length body \<le> MaxBodySize" and "length reply = MaxBodySize + 8"
    and "\<forall>m. MaxBodySize + 8 \<le> sum_list (chunks m)"
    and "HandleCommand net io now fault (tcp_responder enc 1 chunks reply) events cd cmd body b w = ((e, rs), b', w')"
  shows "handleConnection net io now fault enc chunks events cd old reply (writeRequest 1 cmd body) b w
       = (concat (map (frame 1) (filter (\<lambda>x. length x \<le> MaxBodySize) (List.map_filter enc rs))), b', w')"
    and "tcp_responder enc 1 chunks reply m =
         (case enc m of None \<Rightarrow> Some ERespond | Some x \<Rightarrow> if length x \<le> MaxBodySize then None else Some ERespond)"
proof -
  note R = tcp_Respond_frame [OF assms(3), of "chunks _", OF spec [OF assms(4)]]
  have "tcp_output enc 1 chunks reply rs = concat (map (frame 1) (filter (\<lambda>x. length x \<le> MaxBodySize) (List.map_filter enc rs)))"
    by (induction rs) (auto simp: tcp_output_def R List.map_filter_def split: option.splits)
  then show "handleConnection net io now fault enc chunks events cd old reply (writeRequest 1 cmd body) b w
       = (concat (map (frame 1) (filter (\<lambda>x. length x \<le> MaxBodySize) (List.map_filter enc rs))), b', w')"
    using read_request_write [OF assms(1,2), of old 1 cmd "[]"] assms(5)
    by (simp add: handleConnection_def error_text_def)
  show "tcp_responder enc 1 chunks reply m =
         (case enc m of None \<Rightarrow> Some ERespond | Some x \<Rightarrow> if length x \<le> MaxBodySize then None else Some ERespond)"
    by (auto simp: tcp_responder_def R split: option.splits)
qed

text \<open>C32. A request over TCP is a direct call. Whatever earlier connections left in the pooled buffers,
  the bytes the client writes for a command with a body of 1 to 65536 bytes make the server call the
  handler once with exactly that command and body, and leave the node as that call does; on a
  connection that takes all bytes the answer is one frame, under the request's correlation id, for each
  response of the handler whose encoding has at most 65536 bytes, and nothing for any other; and the
  client reads such a frame back as the encoded response, so that the answer of \<open>sendTCPRequest\<close> is
  the first of them, or an end of file.\<close>

theorem tcp_round_trip:
  assumes "body \<noteq> []" and "length body \<le> MaxBodySize" and "length reply = MaxBodySize + 8"
    and "\<forall>m. MaxBodySize + 8 \<le> sum_list (chunks m)"
    and "HandleCommand net io now fault (tcp_responder enc 1 chunks reply) events cd cmd body b w = ((e, rs), b', w')"
  defines "answers \<equiv> filter (\<lambda>x. length x \<le> MaxBodySize) (List.map_filter enc rs)"
  shows "handleConnection net io now fault enc chunks events cd old reply (writeRequest 1 cmd body) b w
       = (concat (map (frame 1) answers), b', w')
    \<and> (\<forall>m. tcp_responder enc 1 chunks reply m =
         (case enc m of None \<Rightarrow> Some ERespond | Some x \<Rightarrow> if length x \<le> MaxBodySize then None else Some ERespond))
    \<and> sendTCPRequest (\<lambda>inp. fst (handleConnection net io now fault enc chunks events cd old reply inp b w)) cmd body
       = (case answers of [] \<Rightarrow> Inl TcpEOF | x # _ \<Rightarrow> Inr x)"
proof -
  note conn = handleConnection_frames [OF assms(1-5)]
  have "\<forall>x\<in>set answers. length x \<le> MaxBodySize" by (auto simp: answers_def)
  then have "sendTCPRequest (\<lambda>inp. fst (handleConnection net io now fault enc chunks events cd old reply inp b w)) cmd body
       = (case answers of [] \<Rightarrow> Inl TcpEOF | x # _ \<Rightarrow> Inr x)"
    by (cases answers) (simp_all add: sendTCPRequest_def conn(1) answers_def [symmetric] readResponse_frame)
  with conn show ?thesis by (simp add: answers_def)
qed

text \<open>A client asks for topics, the answer is a one-byte encoding, and the connection takes it whole.\<close>

theorem tcp_round_trip_witness:
  "sendTCPRequest (\<lambda>inp. fst (handleConnection undefined undefined 0 undefined (\<lambda>_. Some [7]) (\<lambda>_. [65544]) undefined undefined
     [] (replicate 65544 0) inp (NewBroker 1 False) ())) 0 [1] = Inr [7]"
proof -
  have "HandleCommand net io 0 fault (tcp_responder (\<lambda>_. Some [7]) 1 (\<lambda>_. [65544]) (replicate 65544 0)) events cd 0 [1] (NewBroker 1 False) ()
      = ((tcp_responder (\<lambda>_. Some [7]) 1 (\<lambda>_. [65544]) (replicate 65544 0) TopicMoved, [TopicMoved]), NewBroker 1 False, ())"
    for net :: "unit cluster_net" and io fault events cd
    by (simp add: HandleCommand_def)
  from tcp_round_trip [where old = "[]", OF _ _ _ _ this] show ?thesis
    by (simp add: MaxBodySize_def List.map_filter_def)
qed

text \<open>What reaches the handler. Whatever a client sends and whatever the pooled header holds: the
  handler is called only with a body of 1 to 65536 bytes that the client sent after 12 bytes of
  header, whose size field is 8 more than the body, and then no error is returned; sizes 5 to 7,
  whose difference wraps around, and sizes over 65544 are refused; a connection that ends without an
  error and without a request sent a whole header with a size of at most 4 or of 8. In particular a
  connection on which nothing is sent never reaches the handler with the header of an earlier one.\<close>

theorem tcp_request_bounds:
  "case read_request old inp of
     (err, Some (h, body)) \<Rightarrow>
       err = None \<and> h = parse_header (take 12 inp) \<and> body = take (length body) (drop 12 inp) \<and>
       12 + length body \<le> length inp \<and> length body \<in> {1..65536} \<and> unat (MessageSize h) = length body + 8
   | (None, None) \<Rightarrow> 12 \<le> length inp \<and> unat (MessageSize (parse_header (take 12 inp))) \<in> {0..4} \<union> {8}
   | (Some e, None) \<Rightarrow> True"
proof -
  have size: "unat n = unat (n - 8) + 8 \<and> 0 < unat (n - 8)" if "0 < n - 8" "unat (n - 8) \<le> MaxBodySize" for n :: u32
  proof -
    have "unat (n - 8) = (if 8 \<le> unat n then unat n - 8 else unat n + 2 ^ 32 - 8)" by (simp add: unat_sub_if')
    moreover have "0 < unat (n - 8)" using that(1) by (simp add: word_less_nat_alt)
    ultimately show ?thesis using that(2) by (auto simp: MaxBodySize_def split: if_splits)
  qed
  have eight: "unat n = 8" if "unat (n - 8) = 0" for n :: u32
  proof -
    have "n - 8 = 0" using that by (simp add: unsigned_eq_0_iff)
    then show ?thesis by simp
  qed
  have body: "case read_body err h rest of
       (err', Some (h', body)) \<Rightarrow> err' = err \<and> h' = h \<and> body = take (length body) rest \<and>
         length body \<le> length rest \<and> length body \<in> {1..65536} \<and> unat (MessageSize h) = length body + 8
     | (None, None) \<Rightarrow> err = None \<and> unat (MessageSize h) \<in> {0..4} \<union> {8}
     | (Some e, None) \<Rightarrow> True" for err h rest
    using size [of "MessageSize h"] eight [of "MessageSize h"]
    by (auto simp: read_body_def Let_def read_full_def MaxBodySize_def word_less_nat_alt not_less split: option.splits)
  show ?thesis
  proof (cases "12 \<le> length inp")
    case True
    then have "read_full 12 inp = Inr (take 12 inp, drop 12 inp)" by (simp add: read_full_def)
    with body [of None "parse_header (take 12 inp)" "drop 12 inp"] True show ?thesis
      by (auto simp: read_request_def split: option.splits prod.splits)
  next
    case False
    show ?thesis
    proof (cases "inp = []")
      case True
      with body [of "Some TcpEOF" "parse_header old" inp] show ?thesis
        by (auto simp: read_request_def read_full_def split: option.splits prod.splits)
    qed (use False in \<open>simp add: read_request_def read_full_def\<close>)
  qed
qed

text \<open>
  The error text is not a frame: the client takes its first four letters for a size of nearly two
  thousand million bytes, makes a buffer of that size, and finds the end of the stream.
\<close>

lemma error_text_is_no_frame:
  "readResponse (error_text (Some e)) = Inl TcpUnexpectedEOF \<and> unat (Uint32 (error_text (Some e))) = 1970169208"
proof -
  let ?a = "[117, 110, 101, 120] :: bytes"
  define X where "X = ascii ''pected error while handling connection'' @ [10] @ ascii ''err - '' @ error_message e @ [10]"
  have t: "error_text (Some e) = ?a @ X" by (simp add: error_text_def ascii_def X_def)
  have "length (error_message e) < 200" by (cases e) (simp_all add: ascii_def)
  then have len: "length X < 1000" "X \<noteq> []" by (simp_all add: X_def ascii_def)
  have w: "Uint32 ?a = 1970169208" "Uint32 (?a @ X) = Uint32 ?a" by code_simp (simp add: Uint32_def)
  have "read_full 4 (?a @ X) = Inr (?a, X)" by (simp add: read_full_def)
  with len show ?thesis unfolding t w(2) readResponse_def w(1) by (simp add: Let_def w(1) read_full_def)
qed

end
