(* ===== verification/Client.thy ===== *)
theory Client
  imports Requests Tcp
begin

text \<open>
  The command line client and the control service it talks to: \<open>client/cmd/topic.go\<close>,
  \<open>client/cmd/produce.go\<close> and \<open>client/cmd/consume.go\<close>, and \<open>server/grpc/control_server.go\<close>. gRPC carries the
  control messages unchanged, an error only as its text \<open>msg\<close>; \<open>dial\<close> says which addresses a connection
  can be made to. Parsing of flags and what is printed besides the messages are not modelled.
\<close>

section \<open>The control service\<close>

record DescribeAnswer =
  daFound :: bool
  daError :: string
  daTopicName :: string
  daPartitions :: "PartitionInfo list"

record CreateAnswer =
  caSuccess :: bool
  caError :: string
  caNotController :: bool
  caControllerAddress :: string

definition errorMessage :: "(cluster_error \<Rightarrow> string) \<Rightarrow> cluster_error option \<Rightarrow> string" where
  "errorMessage msg err = (case err of None \<Rightarrow> [] | Some x \<Rightarrow> msg x)"

definition control_DescribeTopic ::
  "(cluster_error \<Rightarrow> string) \<Rightarrow> 'e etcd \<Rightarrow> int \<times> int \<Rightarrow> string \<Rightarrow> view_cache \<times> 'e
     \<Rightarrow> (cluster_error + DescribeAnswer) \<times> view_cache \<times> 'e" where
  "control_DescribeTopic msg E clock name s =
     (case DescribeTopic E clock name (fst s) (snd s) of
        (Inl x, s1) \<Rightarrow> (Inl x, s1)
      | (Inr r, s1) \<Rightarrow>
          (Inr \<lparr>daFound = dtFound r, daError = errorMessage msg (dtError r), daTopicName = dtTopicName r,
             daPartitions = map (\<lambda>p. \<lparr>piPartitionID = piPartitionID p, piLeaderNodeID = piLeaderNodeID p,
               piLeaderAddress = piLeaderAddress p,
               piReplicas = map (\<lambda>r. \<lparr>riNodeID = riNodeID r, riAddress = riAddress r, riInSync = riInSync r\<rparr>)
                 (piReplicas p)\<rparr>) (dtPartitions r)\<rparr>, s1))"

definition control_CreateTopic ::
  "(cluster_error \<Rightarrow> string) \<Rightarrow> 'e etcd \<Rightarrow> int \<times> int \<Rightarrow> coordinator \<Rightarrow> CreateTopicRequest \<Rightarrow> view_cache \<times> 'e
     \<Rightarrow> (cluster_error + CreateAnswer) \<times> view_cache \<times> 'e" where
  "control_CreateTopic msg E clock n req s =
     (case CreateTopic E clock n req (fst s) (snd s) of
        (Inl x, s1) \<Rightarrow> (Inl x, s1)
      | (Inr r, s1) \<Rightarrow>
          (Inr \<lparr>caSuccess = rpSuccess r, caError = errorMessage msg (rpError r), caNotController = rpNotController r,
             caControllerAddress = rpControllerAddress r\<rparr>, s1))"

text \<open>What \<open>CreateTopicRouted\<close> makes of the answer of the controller.\<close>

definition forwarded :: "CreateAnswer \<Rightarrow> CreateTopicResponse" where
  "forwarded a = \<lparr>rpSuccess = caSuccess a, rpError = (if caError a \<noteq> [] then Some (ERemote (caError a)) else None),
     rpNotController = caNotController a, rpControllerAddress = caControllerAddress a\<rparr>"

section \<open>Topic commands\<close>

datatype client_error =
    ClDial string
  | ClRpc string cluster_error
  | ClCreate string
  | ClTopicNotFound string string
  | ClNoLeader int
  | ClNoInSync int
  | ClNoPartition int
  | ClPanic
  | ClTcp tcp_error
  | ClDecode
  | ClRejected string

definition createTopic ::
  "(string \<Rightarrow> bool) \<Rightarrow> (string \<Rightarrow> CreateTopicRequest \<Rightarrow> 's \<Rightarrow> (cluster_error + CreateAnswer) \<times> 's) \<Rightarrow> string
     \<Rightarrow> CreateTopicRequest \<Rightarrow> 's \<Rightarrow> client_error option \<times> 's" where
  "createTopic dial call controlAddr req s =
     (if \<not> dial controlAddr then (Some (ClDial controlAddr), s)
      else case call controlAddr req s of
        (Inl x, s1) \<Rightarrow> (Some (ClRpc controlAddr x), s1)
      | (Inr resp, s1) \<Rightarrow>
          let finish = (\<lambda>r. if caSuccess r then None else Some (ClCreate (caError r)));
              addr = caControllerAddress resp
          in if caNotController resp \<and> addr \<noteq> [] then
               (if \<not> dial addr then (Some (ClDial addr), s1)
                else case call addr req s1 of
                  (Inl x, s2) \<Rightarrow> (Some ClPanic, s2)  \<comment> \<open>the message reads the address from the nil answer\<close>
                | (Inr resp2, s2) \<Rightarrow> (finish resp2, s2))
             else (finish resp, s1))"

text \<open>The call the two discoveries and \<open>describeTopic\<close> begin with.\<close>

definition describeTopic ::
  "(string \<Rightarrow> bool) \<Rightarrow> (string \<Rightarrow> string \<Rightarrow> 's \<Rightarrow> (cluster_error + DescribeAnswer) \<times> 's) \<Rightarrow> string \<Rightarrow> string
     \<Rightarrow> 's \<Rightarrow> (client_error + DescribeAnswer) \<times> 's" where
  "describeTopic dial call controlAddr topic s =
     (if \<not> dial controlAddr then (Inl (ClDial controlAddr), s)
      else case call controlAddr topic s of
        (Inl x, s1) \<Rightarrow> (Inl (ClRpc controlAddr x), s1)
      | (Inr resp, s1) \<Rightarrow>
          (if \<not> daFound resp then Inl (ClTopicNotFound topic (daError resp)) else Inr resp, s1))"

definition leader_address :: "int \<Rightarrow> DescribeAnswer \<Rightarrow> client_error + string" where
  "leader_address partitionID resp =
     (case List.find (\<lambda>p. piPartitionID p = partitionID) (daPartitions resp) of
        None \<Rightarrow> Inl (ClNoPartition partitionID)
      | Some p \<Rightarrow> if piLeaderAddress p = [] then Inl (ClNoLeader partitionID) else Inr (piLeaderAddress p))"

definition in_sync_address :: "int \<Rightarrow> DescribeAnswer \<Rightarrow> client_error + string" where
  "in_sync_address partitionID resp =
     (case List.find (\<lambda>p. piPartitionID p = partitionID) (daPartitions resp) of
        None \<Rightarrow> Inl (ClNoPartition partitionID)
      | Some p \<Rightarrow>
          (case List.find riInSync (piReplicas p) of
             None \<Rightarrow> Inl (ClNoInSync partitionID)
           | Some r \<Rightarrow> Inr (riAddress r)))"

definition discoverLeader ::
  "(string \<Rightarrow> bool) \<Rightarrow> (string \<Rightarrow> string \<Rightarrow> 's \<Rightarrow> (cluster_error + DescribeAnswer) \<times> 's) \<Rightarrow> string \<Rightarrow> string
     \<Rightarrow> int \<Rightarrow> 's \<Rightarrow> (client_error + string) \<times> 's" where
  "discoverLeader dial call controlAddr topic partitionID s =
     (case describeTopic dial call controlAddr topic s of (r, s1) \<Rightarrow> (sbind r (leader_address partitionID), s1))"

definition discoverInSyncReplica ::
  "(string \<Rightarrow> bool) \<Rightarrow> (string \<Rightarrow> string \<Rightarrow> 's \<Rightarrow> (cluster_error + DescribeAnswer) \<times> 's) \<Rightarrow> string \<Rightarrow> string
     \<Rightarrow> int \<Rightarrow> 's \<Rightarrow> (client_error + string) \<times> 's" where
  "discoverInSyncReplica dial call controlAddr topic partitionID s =
     (case describeTopic dial call controlAddr topic s of (r, s1) \<Rightarrow> (sbind r (in_sync_address partitionID), s1))"

section \<open>Produce and consume\<close>

text \<open>
  \<open>enc\<close> and \<open>unmarshal\<close> are the protobuf encoding of the request and decoding of an answer. \<open>serve addr\<close> is
  what the broker at an address answers on a connection, or \<open>None\<close> when it cannot be dialled.
  \<open>discovered\<close> is the result of the discovery, used when no broker address is given.
\<close>

record produce_answer =
  paAccepted :: bool
  paMessage :: "string option"

record consume_answer =
  coError :: "string option"
  coResponses :: "message list"

definition runProduce ::
  "client_error + string \<Rightarrow> (string \<Rightarrow> (bytes \<Rightarrow> bytes) option) \<Rightarrow> (produce_payload \<Rightarrow> bytes) \<Rightarrow> (bytes \<Rightarrow> produce_answer option)
     \<Rightarrow> string \<Rightarrow> produce_payload \<Rightarrow> client_error option" where
  "runProduce discovered serve enc unmarshal brokerAddr payload =
     (case (if brokerAddr = [] then discovered else Inr brokerAddr) of
        Inl x \<Rightarrow> Some x
      | Inr addr \<Rightarrow>
          (case serve addr of
             None \<Rightarrow> Some (ClDial addr)
           | Some f \<Rightarrow>
               (case sendTCPRequest f 1 (enc payload) of
                  Inl e \<Rightarrow> Some (ClTcp e)
                | Inr body \<Rightarrow>
                    (case unmarshal body of
                       None \<Rightarrow> Some ClDecode
                     | Some a \<Rightarrow>
                         if paAccepted a then None
                         else Some (ClRejected (case paMessage a of None \<Rightarrow> [] | Some m \<Rightarrow> m))))))"

lemma readResponse_shorter: "readResponse inp = Inr (x, rest) \<Longrightarrow> length rest < length inp"
  by (auto simp: readResponse_def read_full_def Let_def split: if_splits sum.splits prod.splits)

text \<open>
  The loop of \<open>runConsume\<close>. \<open>interrupted\<close> says that the input ended because the user closed the
  connection, which is possible when following only.
\<close>

function consume_loop :: "bool \<Rightarrow> bool \<Rightarrow> (bytes \<Rightarrow> consume_answer option) \<Rightarrow> bytes \<Rightarrow> message list \<times> client_error option" where
  "consume_loop follow interrupted unmarshal inp =
     (case readResponse inp of
        Inl e \<Rightarrow> ([], if e = TcpEOF \<or> (interrupted \<and> e = TcpUnexpectedEOF) then None else Some (ClTcp e))
      | Inr ((corr, body), rest) \<Rightarrow>
          (case unmarshal body of
             None \<Rightarrow> ([], Some ClDecode)
           | Some a \<Rightarrow>
               (case coError a of
                  Some m \<Rightarrow> ([], Some (ClRejected m))
                | None \<Rightarrow>
                    if \<not> follow then (coResponses a, None)
                    else case consume_loop follow interrupted unmarshal rest of (ms, r) \<Rightarrow> (coResponses a @ ms, r))))"
  by pat_completeness auto
termination
  by (relation "measure (\<lambda>(_, _, _, inp). length inp)") (auto simp: readResponse_shorter)

declare consume_loop.simps [simp del]

definition consume_request :: "string \<Rightarrow> int \<Rightarrow> bool \<Rightarrow> u64 \<Rightarrow> bool \<Rightarrow> u64 \<Rightarrow> consume_payload" where
  "consume_request topic partID fromBeginning startOffset follow toOffset =
     \<lparr>cpTopicName = topic, cpPartitionID = partID,
      cpStart = (if fromBeginning then AtBeginning True else AtStartOffset startOffset),
      cpFin = (if follow then AtEnd True else AtFinOffset toOffset)\<rparr>"

definition runConsume ::
  "client_error + string \<Rightarrow> (string \<Rightarrow> (bytes \<Rightarrow> bytes) option) \<Rightarrow> (consume_payload \<Rightarrow> bytes) \<Rightarrow> (bytes \<Rightarrow> consume_answer option)
     \<Rightarrow> string \<Rightarrow> string \<Rightarrow> int \<Rightarrow> bool \<Rightarrow> u64 \<Rightarrow> bool \<Rightarrow> bool \<Rightarrow> u64 \<Rightarrow> message list \<times> client_error option" where
  "runConsume discovered serve enc unmarshal brokerAddr topic partID fromBeginning startOffset follow interrupted toOffset =
     (case (if brokerAddr = [] then discovered else Inr brokerAddr) of
        Inl x \<Rightarrow> ([], Some x)
      | Inr addr \<Rightarrow>
          (case serve addr of
             None \<Rightarrow> ([], Some (ClDial addr))
           | Some f \<Rightarrow>
               consume_loop follow (follow \<and> interrupted) unmarshal
                 (f (writeRequest 1 2 (enc (consume_request topic partID fromBeginning startOffset follow toOffset))))))"


section \<open>What the client finds out\<close>

text \<open>The address of a node in a state of the store, empty for one that is not registered.\<close>

definition address_at :: "etcd_store \<Rightarrow> int \<Rightarrow> string" where
  "address_at s i = (case node_at s i of None \<Rightarrow> [] | Some st \<Rightarrow> nsTcpAddress st)"

definition partition_at :: "string \<Rightarrow> etcd_store \<Rightarrow> string \<Rightarrow> int \<Rightarrow> client_error + PartitionsParams" where
  "partition_at notFound s topic partID =
     (case stored_topic topic s of
        None \<Rightarrow> Inl (ClTopicNotFound topic notFound)
      | Some t \<Rightarrow>
          (case List.find (\<lambda>p. PartitionId p = partID) (Partitions t) of
             None \<Rightarrow> Inl (ClNoPartition partID)
           | Some p \<Rightarrow> Inr p))"

lemma find_map: "List.find P (map f xs) = map_option f (List.find (P \<circ> f) xs)"
  by (induction xs) auto

lemma stored_topic_name: "topics_ok s \<Longrightarrow> stored_topic name s = Some t \<Longrightarrow> tpName t = name"
  using topics_ok_get by (fastforce simp: stored_topic_def split: option.splits)

lemma find_topic:
  assumes "view_of s v" and "topics_ok s"
  shows "List.find (\<lambda>t. tpName t = name) (vTopics v) = stored_topic name s"
proof (cases "List.find (\<lambda>t. tpName t = name) (vTopics v)")
  case None
  have "stored_topic name s \<noteq> Some t" for t
  proof
    assume a: "stored_topic name s = Some t"
    from stored_topic_name [OF assms(2) this] have "tpName t = name" .
    with a assms(1) have "t \<in> set (vTopics v)" by (simp add: view_of_def)
    with \<open>tpName t = name\<close> None show False by (auto simp: find_None_iff)
  qed
  with None show ?thesis by (cases "stored_topic name s") auto
next
  case (Some u)
  then have "u \<in> set (vTopics v)" "tpName u = name" by (auto simp: find_Some_iff)
  with Some show ?thesis using assms(1) by (auto simp: view_of_def)
qed

lemma control_copies [simp]:
  "\<lparr>riNodeID = riNodeID r, riAddress = riAddress r, riInSync = riInSync r\<rparr> = r"
  "\<lparr>piPartitionID = piPartitionID p, piLeaderNodeID = piLeaderNodeID p, piLeaderAddress = piLeaderAddress p,
     piReplicas = piReplicas p\<rparr> = p"
  by simp_all

text \<open>Both discoveries read the partition from the answer; this is what they find there.\<close>

lemma describe_answer:
  assumes "etcd_ok E view P" and "nodes_ok (view e')" and "topics_ok (view e')" and "vcView vc = None"
    and "control_DescribeTopic msg E clock topic (vc, e) = (Inr a, vc', e')"
  shows "daFound a \<longleftrightarrow> stored_topic topic (view e') \<noteq> None"
    and "\<not> daFound a \<Longrightarrow> daError a = msg EMetaTopicNotFound"
    and "stored_topic topic (view e') = Some t \<Longrightarrow> List.find (\<lambda>p. piPartitionID p = partID) (daPartitions a) =
      map_option (\<lambda>p. \<lparr>piPartitionID = partID, piLeaderNodeID = LeaderNodeId p,
          piLeaderAddress = address_at (view e') (LeaderNodeId p),
          piReplicas = map (\<lambda>i. \<lparr>riNodeID = i, riAddress = address_at (view e') i, riInSync = IsInSync p i\<rparr>) (ReplicasNodeId p)\<rparr>)
        (List.find (\<lambda>p. PartitionId p = partID) (Partitions t))"
    and "client_steps P (view e) (view e')"
proof -
  obtain r where d: "DescribeTopic E clock topic vc e = (Inr r, vc', e')"
    and a: "daFound a = dtFound r" "daError a = errorMessage msg (dtError r)" "daPartitions a = dtPartitions r"
    using assms(5) by (auto simp: control_DescribeTopic_def split: prod.splits sum.splits)
  obtain g e1 where g: "fetchClusterView E e = (g, e1)" by (cases "fetchClusterView E e")
  then have rc: "readClusterView E clock clusterViewTTL vc e =
      (case g of Inl x \<Rightarrow> (Inl x, vc, e1) | Inr v \<Rightarrow> (Inr v, \<lparr>vcView = Some v, vcFetchedAt = snd clock\<rparr>, e1))"
    using assms(4) by (simp add: readClusterView_def split: sum.splits)
  then obtain v where v: "g = Inr v" "e' = e1"
    using d by (auto simp: DescribeTopic_def split: sum.splits option.splits)
  note fetch = fetchClusterView_of [OF assms(1) g]
  show "client_steps P (view e) (view e')" using fetch(1) v(2) by simp
  have vo: "view_of (view e') v" using fetch(2) [OF v(1)] assms(2,3) v(2) by simp
  have rd: "readClusterView E clock clusterViewTTL vc e = (Inr v, \<lparr>vcView = Some v, vcFetchedAt = snd clock\<rparr>, e1)"
    using rc v(1) by simp
  have addr: "tcp_address v i = address_at (view e') i" for i
    using vo by (simp add: tcp_address_def address_at_def view_of_def)
  note f = find_topic [OF vo assms(3), of topic]
  show "daFound a \<longleftrightarrow> stored_topic topic (view e') \<noteq> None" "\<not> daFound a \<Longrightarrow> daError a = msg EMetaTopicNotFound"
    using d f unfolding a by (auto simp: DescribeTopic_def rd errorMessage_def split: option.splits)
  assume t: "stored_topic topic (view e') = Some t"
  have "dtPartitions r = map (\<lambda>p. \<lparr>piPartitionID = PartitionId p, piLeaderNodeID = LeaderNodeId p,
          piLeaderAddress = address_at (view e') (LeaderNodeId p),
          piReplicas = map (\<lambda>i. \<lparr>riNodeID = i, riAddress = address_at (view e') i, riInSync = IsInSync p i\<rparr>) (ReplicasNodeId p)\<rparr>)
      (Partitions t)"
    using d f t by (auto simp: DescribeTopic_def rd addr)
  then show "List.find (\<lambda>p. piPartitionID p = partID) (daPartitions a) =
      map_option (\<lambda>p. \<lparr>piPartitionID = partID, piLeaderNodeID = LeaderNodeId p,
          piLeaderAddress = address_at (view e') (LeaderNodeId p),
          piReplicas = map (\<lambda>i. \<lparr>riNodeID = i, riAddress = address_at (view e') i, riInSync = IsInSync p i\<rparr>) (ReplicasNodeId p)\<rparr>)
        (List.find (\<lambda>p. PartitionId p = partID) (Partitions t))"
    unfolding a by (auto simp: find_map comp_def find_Some_iff intro!: option.map_cong0 split: option.splits)
qed


text \<open>A topic whose first in-sync replica, node 2, is gone while the leader, node 1, is there.\<close>

definition half_topic :: TopicParams where
  "half_topic = \<lparr>tpName = ''t'', DesiredReplicationFactor = 2,
     Partitions = [\<lparr>PartitionId = 0, LeaderNodeId = 1, ReplicasNodeId = [2, 1], IsrNodeId = [2, 1]\<rparr>]\<rparr>"

definition half_store :: etcd_store where
  "half_store = store_commit [OpPut (topicKey ''t'') (VTopic half_topic) 0] one_node"

lemma half_store_ok: "nodes_ok half_store" "topics_ok half_store"
  using meta_ok_put_topic [OF one_node_ok, of half_topic]
  by (simp_all add: half_store_def half_topic_def topic_ok_def partition_ok_def meta_ok_def)


section \<open>Creating a topic from the client\<close>

text \<open>
  \<open>createTopic\<close> reports success only when a node answered that it created the topic. It panics exactly
  when the node it was redirected to fails to answer: \<open>resp\<close> has been overwritten with nil by then, and
  the error message takes the address from it.
\<close>

lemma createTopic_outcome:
  assumes "createTopic dial call addr req s = (r, s')"
  shows "r = None \<longrightarrow> (\<exists>node s1 a. call node req s1 = (Inr a, s') \<and> caSuccess a)"
    and "r = Some ClPanic \<longleftrightarrow> dial addr \<and> (\<exists>a s1 x. call addr req s = (Inr a, s1) \<and> caNotController a \<and>
      caControllerAddress a \<noteq> [] \<and> dial (caControllerAddress a) \<and> call (caControllerAddress a) req s1 = (Inl x, s'))"
  using assms by (auto simp: createTopic_def Let_def split: if_splits sum.splits prod.splits)

text \<open>
  A refusal keeps its status only on the controller itself: forwarded, it is a text, and the web
  interface answers 400 instead of 409.
\<close>

lemma forwarded_refusal_status:
  assumes "msg x \<noteq> []" and "x = ETopicAlreadyExists \<or> x = ERaceCondition \<or> (\<exists>k rf. x = ENotEnoughAliveNodes k rf)"
    and "CreateTopic E clock n req vc e = (Inr (refused x), vc', e')"
    and "control_CreateTopic msg E clock n req (vc, e) = (Inr a, s')"
  shows "fst (createTopicFailureStatus (refused x)) = 409"
    and "createTopicFailureStatus (forwarded a) = (400, ''create_topic_failed'')"
  using assms by (auto simp: createTopicFailureStatus_def refused_def forwarded_def control_CreateTopic_def errorMessage_def)

text \<open>
  A node that the store already names as the controller, but whose role has not changed yet, calls its
  own \<open>CreateTopic\<close>, which refuses because of the role.
\<close>

lemma routed_before_role:
  assumes "ReadRole (cbroker n) \<noteq> Controller" and "readClusterView E clock 0 vc e = (Inr v, vc1, e1)"
    and "vController v = Some c" and "nsID c = nodeID n"
  shows "\<exists>resp s'. CreateTopicRouted E clock dial remote n req vc e = (Inr resp, s') \<and> rpNotController resp \<and> \<not> rpSuccess resp"
  using assms by (simp add: CreateTopicRouted_def CreateTopic_def split: prod.splits)

section \<open>Reading from the client\<close>

text \<open>What the loop prints for a sequence of answers.\<close>

fun printed :: "bool \<Rightarrow> (bytes \<Rightarrow> consume_answer option) \<Rightarrow> bytes list \<Rightarrow> message list \<times> client_error option" where
  "printed follow unmarshal [] = ([], None)"
| "printed follow unmarshal (x # xs) =
     (case unmarshal x of
        None \<Rightarrow> ([], Some ClDecode)
      | Some a \<Rightarrow>
          (case coError a of
             Some m \<Rightarrow> ([], Some (ClRejected m))
           | None \<Rightarrow> if \<not> follow then (coResponses a, None)
               else case printed follow unmarshal xs of (ms, r) \<Rightarrow> (coResponses a @ ms, r)))"

lemma consume_loop_frames:
  "\<forall>x\<in>set xs. length x \<le> MaxBodySize \<Longrightarrow>
     consume_loop follow interrupted unmarshal (concat (map (frame corr) xs)) = printed follow unmarshal xs"
proof (induction xs)
  case Nil
  then show ?case by (subst consume_loop.simps) simp
next
  case (Cons x xs)
  then show ?case
    by (cases follow) (simp_all add: consume_loop.simps [of _ _ _ "frame _ _ @ _"] readResponse_frame split: option.splits)
qed

text \<open>
  A client that does not follow prints the requested messages when their encoding fits a frame; a
  longer history is not printed, in part or at all, and the command still reports success.
\<close>

lemma runConsume_history:
  fixes b :: broker
  assumes "enc body \<noteq> []" and "length (enc body) \<le> MaxBodySize" and "length reply = MaxBodySize + 8"
    and "\<forall>m. MaxBodySize + 8 \<le> sum_list (chunks m)" and "decodeConsume cd (enc body) = Some body"
    and "body = consume_request topic partID fromBeginning startOffset False toOffset" and "topic \<noteq> []"
    and "IsPartitionInSync topic partID b"
    and "ReadMessages fault topic partID (start_spec (cpStart body)) (fin_spec (cpFin body)) (bpool b) = Inr (ms, None)"
    and "marshal (ConsumeList ms) = Some x" and "unmarshal x = Some \<lparr>coError = None, coResponses = ms\<rparr>"
    and "serve addr = Some (\<lambda>inp. fst (handleConnection net io now fault marshal chunks events cd old reply inp b w))"
    and "addr \<noteq> []"
  shows "runConsume discovered serve enc unmarshal addr topic partID fromBeginning startOffset False interrupted toOffset =
    (if length x \<le> MaxBodySize then ms else [], None)"
proof -
  let ?resp = "tcp_responder marshal 1 chunks reply"
  obtain e rs b' w' where h: "HandleCommand net io now fault ?resp events cd 2 (enc body) b w = ((e, rs), b', w')"
    by (metis prod.exhaust)
  have cp: "cpTopicName body = topic" "cpPartitionID body = partID" using assms(6) by (simp_all add: consume_request_def)
  have rs: "rs = (if ms = [] then [] else [ConsumeList ms])"
    using h assms(5,7,8,9) by (auto simp: HandleCommand_def consumerHandler_def cp Let_def split: if_splits option.splits)
  define answers where "answers = filter (\<lambda>x. length x \<le> MaxBodySize) (List.map_filter marshal rs)"
  have "runConsume discovered serve enc unmarshal addr topic partID fromBeginning startOffset False interrupted toOffset =
      printed False unmarshal answers"
    using handleConnection_frames(1) [OF assms(1-4) h, of old] consume_loop_frames [of answers] assms(6,12,13)
    by (simp add: runConsume_def answers_def)
  then show ?thesis using assms(10,11) by (simp add: answers_def rs List.map_filter_def)
qed

end
