(* ===== verification/Buffers.thy ===== *)
theory Buffers
  imports Tcp
begin

text \<open>
  The connections of the TCP server beside each other, \<open>server/broker/tcp.go\<close>: the accept loop and the pool of
  buffers. A pooled buffer is an address in a heap; every goroutine works on the heap through the address it
  drew, in steps between which the others run, so what one leaves in a buffer, or writes into a buffer that is
  not its own, is there for whoever uses that address next. What a connection computes alone is in \<open>Tcp\<close>.
\<close>

section \<open>Buffers and connections\<close>

record pooled =
  pbBody :: bytes
  pbHeader :: bytes
  pbReply :: bytes

definition new_buffer :: pooled where
  "new_buffer = \<lparr>pbBody = replicate MaxBodySize 0, pbHeader = replicate 12 0, pbReply = replicate (MaxBodySize + 8) 0\<rparr>"

text \<open>
  Where a goroutine is: before it has a buffer, before and after the header is read (with the end of file that
  is not an error yet), in the handler with a body of so many bytes, after \<open>Encode\<close> with a slice of the reply
  buffer or memory of its own, in the loop of \<open>Write\<close> with the bytes that are out and those there are, or at the end.
\<close>

datatype phase =
    Fresh
  | Drawn
  | HeaderRead "tcp_error option"
  | Handling nat
  | Encoded nat response "nat + bytes"
  | Sending nat response nat nat
  | Ended "tcp_error option"

text \<open>\<open>cnInp\<close> is all the client sends, \<open>cnBody\<close> what the handler decoded, \<open>cnLog\<close> its responses, each with the bytes that went out.\<close>

record conn =
  cnInp :: bytes
  cnRest :: bytes
  cnBuf :: "nat option"
  cnPhase :: phase
  cnHeader :: KafkaHeader
  cnBody :: "bytes option"
  cnLog :: "(response \<times> nat) list"
  cnOut :: bytes
  cnClosed :: bool   \<comment> \<open>\<open>closeOnce\<close> of the command context\<close>

definition new_conn :: "bytes \<Rightarrow> conn" where
  "new_conn inp = \<lparr>cnInp = inp, cnRest = inp, cnBuf = None, cnPhase = Fresh,
     cnHeader = \<lparr>MessageSize = 0, CorrelationID = 0, CommandType = 0\<rparr>, cnBody = None, cnLog = [], cnOut = [], cnClosed = False\<rparr>"

text \<open>An early return: the deferred function writes the error and closes; the buffer is not put back.\<close>

definition conn_end :: "tcp_error option \<Rightarrow> conn \<Rightarrow> conn" where
  "conn_end err c = c\<lparr>cnPhase := Ended err, cnOut := cnOut c @ error_text err\<rparr>"

text \<open>\<open>io.ReadFull\<close> leaves what it got at the front of the slice.\<close>

definition fill :: "bytes \<Rightarrow> bytes \<Rightarrow> bytes" where
  "fill got old = got @ drop (length got) old"

definition conn_read_header :: "pooled \<Rightarrow> conn \<Rightarrow> pooled \<times> conn" where
  "conn_read_header buf c =
     (case read_full 12 (cnInp c) of
        Inr (h, rest) \<Rightarrow> (buf\<lparr>pbHeader := h\<rparr>, c\<lparr>cnPhase := HeaderRead None, cnRest := rest\<rparr>)
      | Inl e \<Rightarrow>
          if e = TcpEOF then (buf, c\<lparr>cnPhase := HeaderRead (Some TcpEOF)\<rparr>)
          else (buf\<lparr>pbHeader := fill (cnInp c) (pbHeader buf)\<rparr>, conn_end (Some e) c))"

definition conn_read_body :: "tcp_error option \<Rightarrow> pooled \<Rightarrow> conn \<Rightarrow> pooled \<times> conn" where
  "conn_read_body err buf c =
     (let h = parse_header (pbHeader buf)
      in if MessageSize h > 4 then
           let bodySize = MessageSize h - 8
           in if bodySize > 0 then
                if unat bodySize > MaxBodySize then (buf, conn_end (Some TcpBodyTooLarge) c)
                else case read_full (unat bodySize) (cnRest c) of
                    Inl e \<Rightarrow> (buf\<lparr>pbBody := fill (cnRest c) (pbBody buf)\<rparr>, conn_end (Some e) c)
                  | Inr (body, _) \<Rightarrow>
                      (buf\<lparr>pbBody := fill body (pbBody buf)\<rparr>, c\<lparr>cnHeader := h, cnPhase := Handling (unat bodySize)\<rparr>)
              else (buf, conn_end err c)
         else (buf, conn_end err c))"

text \<open>The handler reads its argument, a slice of the buffer.\<close>

definition conn_decode :: "nat \<Rightarrow> pooled \<Rightarrow> conn \<Rightarrow> pooled \<times> conn" where
  "conn_decode n buf c = (buf, c\<lparr>cnBody := Some (take n (pbBody buf))\<rparr>)"

definition conn_encode :: "(response \<Rightarrow> bytes option) \<Rightarrow> nat \<Rightarrow> response \<Rightarrow> pooled \<Rightarrow> conn \<Rightarrow> pooled \<times> conn" where
  "conn_encode enc n m buf c =
     (case enc m of
        None \<Rightarrow> (buf, c\<lparr>cnLog := cnLog c @ [(m, 0)]\<rparr>)
      | Some b \<Rightarrow>
          (buf\<lparr>pbReply := tcp_Encode b (pbReply buf)\<rparr>,
           c\<lparr>cnPhase := Encoded n m (if length b \<le> length (pbReply buf) then Inl (length b) else Inr b)\<rparr>))"

text \<open>\<open>Write\<close> up to its loop: the packet is put together in the buffer, nothing is out yet.\<close>

definition conn_write :: "nat \<Rightarrow> response \<Rightarrow> nat + bytes \<Rightarrow> pooled \<Rightarrow> conn \<Rightarrow> pooled \<times> conn" where
  "conn_write n m src buf c =
     (let b = (case src of Inl k \<Rightarrow> take k (pbReply buf) | Inr b \<Rightarrow> b)
      in if length b > MaxBodySize then (buf, c\<lparr>cnPhase := Handling n, cnLog := cnLog c @ [(m, 0)]\<rparr>)
         else (buf\<lparr>pbReply := snd (tcp_Write (CorrelationID (cnHeader c)) [] b (pbReply buf))\<rparr>,
               c\<lparr>cnPhase := Sending n m 0 (8 + length b)\<rparr>))"

text \<open>One turn of the loop: the connection takes \<open>k\<close> bytes.\<close>

definition conn_send :: "nat \<Rightarrow> nat \<Rightarrow> response \<Rightarrow> nat \<Rightarrow> nat \<Rightarrow> pooled \<Rightarrow> conn \<Rightarrow> pooled \<times> conn" where
  "conn_send k n m off len buf c =
     (let chunk = take k (drop off (take len (pbReply buf)));
          c1 = c\<lparr>cnOut := cnOut c @ chunk\<rparr>;
          off' = off + length chunk
      in (buf, if off' < len then c1\<lparr>cnPhase := Sending n m off' len\<rparr>
               else c1\<lparr>cnPhase := Handling n, cnLog := cnLog c @ [(m, off')]\<rparr>))"

definition conn_send_failed :: "nat \<Rightarrow> response \<Rightarrow> nat \<Rightarrow> pooled \<Rightarrow> conn \<Rightarrow> pooled \<times> conn" where
  "conn_send_failed n m off buf c = (buf, c\<lparr>cnPhase := Handling n, cnLog := cnLog c @ [(m, off)]\<rparr>)"

inductive conn_step :: "(response \<Rightarrow> bytes option) \<Rightarrow> pooled \<times> conn \<Rightarrow> pooled \<times> conn \<Rightarrow> bool" for enc where
  header: "cnPhase c = Drawn \<Longrightarrow> conn_step enc (buf, c) (conn_read_header buf c)"
| body: "cnPhase c = HeaderRead err \<Longrightarrow> conn_step enc (buf, c) (conn_read_body err buf c)"
| decode: "cnPhase c = Handling n \<Longrightarrow> conn_step enc (buf, c) (conn_decode n buf c)"
| encode: "cnPhase c = Handling n \<Longrightarrow> conn_step enc (buf, c) (conn_encode enc n m buf c)"
| packed: "cnPhase c = Encoded n m src \<Longrightarrow> conn_step enc (buf, c) (conn_write n m src buf c)"
| send: "cnPhase c = Sending n m off len \<Longrightarrow> conn_step enc (buf, c) (conn_send k n m off len buf c)"
| send_failed: "cnPhase c = Sending n m off len \<Longrightarrow> conn_step enc (buf, c) (conn_send_failed n m off buf c)"

inductive_cases conn_stepE: "conn_step enc (buf, c) (buf', c')"

section \<open>The server\<close>

record tcp_server =
  tsHeap :: "nat \<Rightarrow> pooled"
  tsNext :: nat
  tsFree :: "nat list"
  tsConns :: "conn list"
  tsAccepting :: bool

definition new_server :: tcp_server where
  "new_server = \<lparr>tsHeap = (\<lambda>_. new_buffer), tsNext = 0, tsFree = [], tsConns = [], tsAccepting = True\<rparr>"

text \<open>The pool after \<open>Close\<close> of a command context whose buffer is at \<open>a\<close>; buffers that have grown are not kept.\<close>

definition tcp_Close :: "bool \<Rightarrow> nat \<Rightarrow> pooled \<Rightarrow> nat list \<Rightarrow> nat list" where
  "tcp_Close closed a buf free =
     (if closed then free
      else if length (pbReply buf) > MaxBodySize + 8 \<or> length (pbBody buf) > MaxBodySize then free
      else a # free)"

text \<open>The buffer a goroutine works on.\<close>

definition held :: "conn \<Rightarrow> nat option" where
  "held c = (case cnPhase c of Fresh \<Rightarrow> None | Ended err \<Rightarrow> None | _ \<Rightarrow> cnBuf c)"

text \<open>
  Steps of the server: the accept loop takes a connection, with all its client will send, or ends; a goroutine
  draws a buffer, from the pool or a new one; it works on it; its handler returns and the context is closed;
  a closed context may be closed again; the pool may drop a buffer at any time.
\<close>

inductive tcp_step :: "(response \<Rightarrow> bytes option) \<Rightarrow> tcp_server \<Rightarrow> tcp_server \<Rightarrow> bool" for enc where
  accept: "tsAccepting s \<Longrightarrow> tcp_step enc s (s\<lparr>tsConns := tsConns s @ [new_conn inp]\<rparr>)"
| accept_error: "tcp_step enc s (s\<lparr>tsAccepting := False\<rparr>)"
| draw: "i < length (tsConns s) \<Longrightarrow> cnPhase (tsConns s ! i) = Fresh \<Longrightarrow> a \<in> set (tsFree s) \<Longrightarrow>
    tcp_step enc s (s\<lparr>tsFree := remove1 a (tsFree s),
      tsConns := (tsConns s)[i := (tsConns s ! i)\<lparr>cnBuf := Some a, cnPhase := Drawn\<rparr>]\<rparr>)"
| draw_new: "i < length (tsConns s) \<Longrightarrow> cnPhase (tsConns s ! i) = Fresh \<Longrightarrow>
    tcp_step enc s (s\<lparr>tsHeap := (tsHeap s)(tsNext s := new_buffer), tsNext := Suc (tsNext s),
      tsConns := (tsConns s)[i := (tsConns s ! i)\<lparr>cnBuf := Some (tsNext s), cnPhase := Drawn\<rparr>]\<rparr>)"
| work: "i < length (tsConns s) \<Longrightarrow> held (tsConns s ! i) = Some a \<Longrightarrow>
    conn_step enc (tsHeap s a, tsConns s ! i) (buf, c) \<Longrightarrow>
    tcp_step enc s (s\<lparr>tsHeap := (tsHeap s)(a := buf), tsConns := (tsConns s)[i := c]\<rparr>)"
| close: "i < length (tsConns s) \<Longrightarrow> c = tsConns s ! i \<Longrightarrow> cnPhase c = Handling n \<Longrightarrow> cnBuf c = Some a \<Longrightarrow>
    tcp_step enc s (s\<lparr>tsFree := tcp_Close (cnClosed c) a (tsHeap s a) (tsFree s),
      tsConns := (tsConns s)[i := c\<lparr>cnPhase := Ended None, cnClosed := True\<rparr>]\<rparr>)"
| close_again: "i < length (tsConns s) \<Longrightarrow> c = tsConns s ! i \<Longrightarrow> cnClosed c \<Longrightarrow> cnBuf c = Some a \<Longrightarrow>
    tcp_step enc s (s\<lparr>tsFree := tcp_Close (cnClosed c) a (tsHeap s a) (tsFree s)\<rparr>)"
| dropped: "tcp_step enc s (s\<lparr>tsFree := remove1 a (tsFree s)\<rparr>)"

section \<open>What a connection may rely on\<close>

text \<open>The request alone decides: a buffer that was never used.\<close>

definition request :: "conn \<Rightarrow> tcp_error option \<times> (KafkaHeader \<times> bytes) option" where
  "request c = read_request (replicate 12 0) (cnInp c)"

definition answer :: "(response \<Rightarrow> bytes option) \<Rightarrow> u32 \<Rightarrow> response \<Rightarrow> bytes" where
  "answer enc corr m = (case enc m of None \<Rightarrow> [] | Some b \<Rightarrow> if length b \<le> MaxBodySize then frame corr b else [])"

definition answers :: "(response \<Rightarrow> bytes option) \<Rightarrow> u32 \<Rightarrow> (response \<times> nat) list \<Rightarrow> bytes" where
  "answers enc corr lg = concat (map (\<lambda>(m, k). take k (answer enc corr m)) lg)"

definition sent_log :: "conn \<Rightarrow> (response \<times> nat) list" where
  "sent_log c = cnLog c @ (case cnPhase c of Sending n m off len \<Rightarrow> [(m, off)] | _ \<Rightarrow> [])"

text \<open>A header that is read again at the end of a stream leads nowhere.\<close>

definition header_safe :: "bytes \<Rightarrow> bool" where
  "header_safe h \<longleftrightarrow> read_body (Some TcpEOF) (parse_header h) [] = (Some TcpEOF, None)"

definition buf_ok :: "pooled \<Rightarrow> bool" where
  "buf_ok buf \<longleftrightarrow> length (pbBody buf) = MaxBodySize \<and> length (pbReply buf) = MaxBodySize + 8"

definition quiet :: "conn \<Rightarrow> bool" where
  "quiet c \<longleftrightarrow> cnOut c = [] \<and> cnLog c = [] \<and> cnBody c = None \<and> \<not> cnClosed c"

definition in_handler :: "(response \<Rightarrow> bytes option) \<Rightarrow> nat \<Rightarrow> bytes \<Rightarrow> pooled \<Rightarrow> conn \<Rightarrow> bool" where
  "in_handler enc n body buf c \<longleftrightarrow> request c = (None, Some (cnHeader c, body)) \<and> n = length body \<and> take n (pbBody buf) = body
     \<and> header_safe (pbHeader buf) \<and> cnBody c \<in> {None, Some body} \<and> \<not> cnClosed c
     \<and> cnOut c = answers enc (CorrelationID (cnHeader c)) (sent_log c)"

definition busy_ok :: "(response \<Rightarrow> bytes option) \<Rightarrow> pooled \<Rightarrow> conn \<Rightarrow> bool" where
  "busy_ok enc buf c \<longleftrightarrow> buf_ok buf \<and>
     (case cnPhase c of
        Fresh \<Rightarrow> False
      | Drawn \<Rightarrow> quiet c \<and> cnRest c = cnInp c \<and> header_safe (pbHeader buf)
      | HeaderRead err \<Rightarrow> quiet c \<and>
          (err = None \<and> read_full 12 (cnInp c) = Inr (pbHeader buf, cnRest c)
           \<or> err = Some TcpEOF \<and> cnInp c = [] \<and> cnRest c = [] \<and> header_safe (pbHeader buf))
      | Handling n \<Rightarrow> \<exists>body. in_handler enc n body buf c
      | Encoded n m src \<Rightarrow> \<exists>body b. in_handler enc n body buf c \<and> enc m = Some b \<and>
          (case src of Inl k \<Rightarrow> take k (pbReply buf) = b | Inr b' \<Rightarrow> b' = b)
      | Sending n m off len \<Rightarrow> \<exists>body b. in_handler enc n body buf c \<and> enc m = Some b \<and> length b \<le> MaxBodySize \<and>
          len = 8 + length b \<and> off \<le> len \<and> take len (pbReply buf) = frame (CorrelationID (cnHeader c)) b
      | Ended err \<Rightarrow> False)"

definition idle_ok :: "(response \<Rightarrow> bytes option) \<Rightarrow> conn \<Rightarrow> bool" where
  "idle_ok enc c \<longleftrightarrow>
     (case cnPhase c of
        Fresh \<Rightarrow> quiet c \<and> cnRest c = cnInp c
      | Ended err \<Rightarrow>
          if cnClosed c
          then err = None \<and> (\<exists>body. request c = (None, Some (cnHeader c, body)) \<and> cnBody c \<in> {None, Some body}
             \<and> cnOut c = answers enc (CorrelationID (cnHeader c)) (cnLog c))
          else request c = (err, None) \<and> cnOut c = error_text err \<and> cnLog c = [] \<and> cnBody c = None
      | _ \<Rightarrow> False)"

lemma fill_ok [simp]: "length got \<le> length old \<Longrightarrow> length (fill got old) = length old \<and> take (length got) (fill got old) = got"
  by (simp add: fill_def)

lemma answers_snoc: "answers enc corr (lg @ [(m, k)]) = answers enc corr lg @ take k (answer enc corr m)"
  by (simp add: answers_def)

lemma header_safe_zero: "header_safe (replicate 12 0)"
  by (simp add: header_safe_def read_body_def parse_header_def Uint32_def be_word_def numeral_eq_Suc)

text \<open>A header whose body was read is safe: its size is over 8 and its body not too large.\<close>

lemma read_body_safe:
  assumes "read_body err (parse_header h) rest = (err', Some r)"
  shows "header_safe h"
  using assms by (auto simp: header_safe_def read_body_def Let_def read_full_def word_less_nat_alt not_less split: if_splits sum.splits)

lemma tcp_Write_buffer:
  assumes "length reply = MaxBodySize + 8" and "length b \<le> MaxBodySize"
  shows "take (8 + length b) (snd (tcp_Write corr [] b reply)) = frame corr b"
    and "length (snd (tcp_Write corr [] b reply)) = MaxBodySize + 8"
proof -
  have l: "length (take 8 (take (8 + length b) reply)) = 8" using assms by simp
  then have "snd (tcp_Write corr [] b reply) = frame corr b @ drop (8 + length b) reply"
    using assms(2) by (simp add: tcp_Write_def Let_def frame_def split: prod.split)
  then show "take (8 + length b) (snd (tcp_Write corr [] b reply)) = frame corr b"
    "length (snd (tcp_Write corr [] b reply)) = MaxBodySize + 8"
    using assms by (simp_all add: frame_def)
qed

lemma conn_read_body_result:
  assumes "conn_read_body err buf c = (buf', c')"
  shows "case read_body err (parse_header (pbHeader buf)) (cnRest c) of
      (e, None) \<Rightarrow> c' = conn_end e c
    | (e, Some (h, body)) \<Rightarrow> e = err \<and> h = parse_header (pbHeader buf) \<and> length body \<le> MaxBodySize
        \<and> buf' = buf\<lparr>pbBody := fill body (pbBody buf)\<rparr> \<and> c' = c\<lparr>cnHeader := h, cnPhase := Handling (length body)\<rparr>"
  using assms by (auto simp: conn_read_body_def read_body_def read_full_def Let_def split: if_splits sum.splits)

lemma request_error: "read_request (replicate 12 0) inp = (err, Some r) \<Longrightarrow> err = None"
proof -
  have b: "read_body e h rest = (err, Some r) \<Longrightarrow> err = e" for e h rest
    by (auto simp: read_body_def Let_def split: if_splits sum.splits)
  have "inp = [] \<Longrightarrow> read_request (replicate 12 0) inp = (Some TcpEOF, None)"
    using header_safe_zero by (simp add: read_request_def read_full_def header_safe_def)
  then show "read_request (replicate 12 0) inp = (err, Some r) \<Longrightarrow> err = None"
    using b by (auto simp: read_request_def read_full_def split: if_splits)
qed

text \<open>What a step of a goroutine on its buffer keeps.\<close>

definition keeps :: "(response \<Rightarrow> bytes option) \<Rightarrow> conn \<Rightarrow> pooled \<times> conn \<Rightarrow> bool" where
  "keeps enc c r \<longleftrightarrow> (case r of (buf', c') \<Rightarrow> cnBuf c' = cnBuf c \<and> cnInp c' = cnInp c \<and>
     (cnPhase c' \<noteq> Fresh \<and> (\<forall>err. cnPhase c' \<noteq> Ended err) \<and> busy_ok enc buf' c' \<or> (\<exists>err. cnPhase c' = Ended err) \<and> idle_ok enc c'))"

lemma keeps_end:
  assumes "quiet c" and "request c = (err, None)"
  shows "keeps enc c (buf', conn_end err c)"
  using assms by (simp add: keeps_def conn_end_def idle_ok_def quiet_def request_def)

lemma keeps_header:
  assumes "busy_ok enc buf c" and "cnPhase c = Drawn"
  shows "keeps enc c (conn_read_header buf c)"
proof (cases "read_full 12 (cnInp c)")
  case (Inl e)
  show ?thesis
  proof (cases "e = TcpEOF")
    case True
    then have "cnInp c = []" using Inl by (auto simp: read_full_def split: if_splits)
    then show ?thesis using assms Inl True by (simp add: conn_read_header_def keeps_def busy_ok_def quiet_def)
  next
    case False
    then have "request c = (Some e, None)" using Inl by (cases e) (auto simp: request_def read_request_def read_full_def split: if_splits)
    then show ?thesis using keeps_end [of c "Some e"] assms Inl False by (simp add: conn_read_header_def busy_ok_def)
  qed
next
  case (Inr r)
  then show ?thesis using assms by (cases r) (simp add: conn_read_header_def keeps_def busy_ok_def quiet_def buf_ok_def)
qed

lemma keeps_body:
  assumes "busy_ok enc buf c" and "cnPhase c = HeaderRead err"
  shows "keeps enc c (conn_read_body err buf c)"
proof -
  have q: "quiet c" and b: "buf_ok buf" using assms by (simp_all add: busy_ok_def)
  have r: "request c = read_body err (parse_header (pbHeader buf)) (cnRest c)"
    using assms header_safe_zero by (auto simp: busy_ok_def request_def read_request_def header_safe_def read_full_def)
  obtain buf' c' where s: "conn_read_body err buf c = (buf', c')" by (metis prod.exhaust)
  note R = conn_read_body_result [OF s]
  show ?thesis
  proof (cases "snd (read_body err (parse_header (pbHeader buf)) (cnRest c))")
    case None
    then show ?thesis using R keeps_end [OF q] r s by (auto split: prod.splits)
  next
    case (Some hb)
    then obtain h body where hb: "read_body err (parse_header (pbHeader buf)) (cnRest c) = (err, Some (h, body))"
      "length body \<le> MaxBodySize" "buf' = buf\<lparr>pbBody := fill body (pbBody buf)\<rparr>" "c' = c\<lparr>cnHeader := h, cnPhase := Handling (length body)\<rparr>"
      using R by (auto split: prod.splits)
    have none: "err = None"
      using assms hb(1) by (auto simp: busy_ok_def header_safe_def)
    have "in_handler enc (length body) body buf' c'"
      using hb b none r q read_body_safe [OF hb(1)] by (simp add: in_handler_def request_def sent_log_def quiet_def answers_def buf_ok_def)
    then show ?thesis using s hb b by (auto simp: keeps_def busy_ok_def buf_ok_def)
  qed
qed

lemma in_handler_again:
  assumes "in_handler enc n body buf c" and "cnInp c' = cnInp c" and "cnHeader c' = cnHeader c" and "cnBody c' \<in> {cnBody c, Some body}"
    and "cnClosed c' = cnClosed c" and "pbBody buf' = pbBody buf" and "pbHeader buf' = pbHeader buf"
    and "cnOut c' = answers enc (CorrelationID (cnHeader c)) (sent_log c')"
  shows "in_handler enc n body buf' c'"
  using assms unfolding in_handler_def request_def by auto

lemma in_handler_out: "in_handler enc n body buf c \<Longrightarrow> cnOut c = answers enc (CorrelationID (cnHeader c)) (sent_log c)"
  and in_handler_body: "in_handler enc n body buf c \<Longrightarrow> take n (pbBody buf) = body"
  unfolding in_handler_def by blast+

lemma keeps_handling:
  assumes "busy_ok enc buf c" and "cnPhase c = Handling n"
  shows "keeps enc c (conn_decode n buf c)" and "keeps enc c (conn_encode enc n m buf c)"
proof -
  obtain body where b: "in_handler enc n body buf c" and ok: "buf_ok buf" using assms by (auto simp: busy_ok_def)
  have "in_handler enc n body buf (c\<lparr>cnBody := Some (take n (pbBody buf))\<rparr>)"
    by (rule in_handler_again [OF b]) (use in_handler_out [OF b] in_handler_body [OF b] in \<open>simp_all add: sent_log_def\<close>)
  then show "keeps enc c (conn_decode n buf c)" using assms(2) ok by (auto simp: conn_decode_def keeps_def busy_ok_def)
  show "keeps enc c (conn_encode enc n m buf c)"
  proof (cases "enc m")
    case None
    have "in_handler enc n body buf (c\<lparr>cnLog := cnLog c @ [(m, 0)]\<rparr>)"
      by (rule in_handler_again [OF b]) (use in_handler_out [OF b] assms(2) in \<open>simp_all add: sent_log_def answers_snoc\<close>)
    then show ?thesis using None assms(2) ok by (auto simp: conn_encode_def keeps_def busy_ok_def)
  next
    case (Some x)
    let ?buf = "buf\<lparr>pbReply := tcp_Encode x (pbReply buf)\<rparr>"
    have "in_handler enc n body ?buf (c\<lparr>cnPhase := Encoded n m src\<rparr>)" for src
      by (rule in_handler_again [OF b]) (use in_handler_out [OF b] assms(2) in \<open>simp_all add: sent_log_def\<close>)
    moreover have "buf_ok ?buf" using ok by (simp add: buf_ok_def tcp_Encode_def)
    moreover have "length x \<le> length (pbReply buf) \<Longrightarrow> take (length x) (tcp_Encode x (pbReply buf)) = x" by (simp add: tcp_Encode_def)
    ultimately show ?thesis using Some by (auto simp: conn_encode_def keeps_def busy_ok_def)
  qed
qed

lemma keeps_write:
  assumes "busy_ok enc buf c" and "cnPhase c = Encoded n m src"
  shows "keeps enc c (conn_write n m src buf c)"
proof -
  obtain body b where b: "in_handler enc n body buf c" "enc m = Some b" and ok: "buf_ok buf"
    and src: "(case src of Inl k \<Rightarrow> take k (pbReply buf) | Inr b \<Rightarrow> b) = b"
    using assms by (cases src) (auto simp: busy_ok_def)
  show ?thesis
  proof (cases "length b \<le> MaxBodySize")
    case True
    let ?buf = "buf\<lparr>pbReply := snd (tcp_Write (CorrelationID (cnHeader c)) [] b (pbReply buf))\<rparr>"
    have "in_handler enc n body ?buf (c\<lparr>cnPhase := Sending n m 0 (8 + length b)\<rparr>)"
      by (rule in_handler_again [OF b(1)]) (use in_handler_out [OF b(1)] assms(2) in \<open>simp_all add: sent_log_def answers_snoc\<close>)
    moreover note W = tcp_Write_buffer [of "pbReply buf" b "CorrelationID (cnHeader c)"]
    ultimately show ?thesis using b(2) True ok src by (auto simp: conn_write_def Let_def keeps_def busy_ok_def buf_ok_def)
  next
    case False
    have "in_handler enc n body buf (c\<lparr>cnPhase := Handling n, cnLog := cnLog c @ [(m, 0)]\<rparr>)"
      by (rule in_handler_again [OF b(1)]) (use in_handler_out [OF b(1)] assms(2) in \<open>simp_all add: sent_log_def answers_snoc\<close>)
    then show ?thesis using False ok src by (auto simp: conn_write_def Let_def keeps_def busy_ok_def)
  qed
qed

lemma take_more: "off \<le> length xs \<Longrightarrow> take off xs @ take k (drop off xs) = take (off + length (take k (drop off xs))) xs"
  by (metis append_eq_conv_conj append_take_drop_id length_append length_take min.absorb2 take_add)

lemma keeps_sending:
  assumes "busy_ok enc buf c" and "cnPhase c = Sending n m off len"
  shows "keeps enc c (conn_send k n m off len buf c)" and "keeps enc c (conn_send_failed n m off buf c)"
proof -
  let ?f = "\<lambda>b. frame (CorrelationID (cnHeader c)) b"
  obtain body b where b: "in_handler enc n body buf c" "enc m = Some b" "length b \<le> MaxBodySize" "len = 8 + length b" "off \<le> len"
    and f: "take len (pbReply buf) = ?f b" and ok: "buf_ok buf"
    using assms by (auto simp: busy_ok_def)
  have a: "answer enc (CorrelationID (cnHeader c)) m = ?f b" using b(2,3) by (simp add: answer_def)
  have l: "length (?f b) = len" using b(4) by (simp add: frame_def)
  have out: "cnOut c = answers enc (CorrelationID (cnHeader c)) (cnLog c) @ take off (?f b)"
    using in_handler_out [OF b(1)] assms(2) a by (simp add: sent_log_def answers_snoc)
  have "in_handler enc n body buf (c\<lparr>cnPhase := Handling n, cnLog := cnLog c @ [(m, off)]\<rparr>)"
    by (rule in_handler_again [OF b(1)]) (use out a in \<open>simp_all add: sent_log_def answers_snoc\<close>)
  then show "keeps enc c (conn_send_failed n m off buf c)" using ok by (auto simp: conn_send_failed_def keeps_def busy_ok_def)
  let ?chunk = "take k (drop off (?f b))" let ?off = "off + length ?chunk"
  have t: "take off (?f b) @ ?chunk = take ?off (?f b)" using take_more [of off "?f b" k] b(5) l by simp
  have o: "?off \<le> len" using b(5) l by simp
  have s1: "in_handler enc n body buf (c\<lparr>cnOut := cnOut c @ ?chunk, cnPhase := Sending n m ?off len\<rparr>)"
    by (rule in_handler_again [OF b(1)]) (use out t a in \<open>simp_all add: sent_log_def answers_snoc\<close>)
  have s2: "in_handler enc n body buf (c\<lparr>cnOut := cnOut c @ ?chunk, cnPhase := Handling n, cnLog := cnLog c @ [(m, ?off)]\<rparr>)"
    by (rule in_handler_again [OF b(1)]) (use out t a in \<open>simp_all add: sent_log_def answers_snoc\<close>)
  show "keeps enc c (conn_send k n m off len buf c)"
  proof (cases "?off < len")
    case True
    then show ?thesis using s1 b f o ok by (auto simp: conn_send_def Let_def keeps_def busy_ok_def)
  next
    case False
    then show ?thesis using s2 f ok by (auto simp: conn_send_def Let_def keeps_def busy_ok_def)
  qed
qed

lemma conn_step_keeps: "conn_step enc (buf, c) r \<Longrightarrow> busy_ok enc buf c \<Longrightarrow> keeps enc c r"
  by (erule conn_step.cases) (auto intro: keeps_header keeps_body keeps_handling keeps_write keeps_sending)

section \<open>The server keeps buffers apart\<close>

definition conn_ok :: "(response \<Rightarrow> bytes option) \<Rightarrow> tcp_server \<Rightarrow> conn \<Rightarrow> bool" where
  "conn_ok enc s c \<longleftrightarrow> (case held c of None \<Rightarrow> idle_ok enc c
     | Some a \<Rightarrow> a < tsNext s \<and> a \<notin> set (tsFree s) \<and> busy_ok enc (tsHeap s a) c)"

definition server_inv :: "(response \<Rightarrow> bytes option) \<Rightarrow> tcp_server \<Rightarrow> bool" where
  "server_inv enc s \<longleftrightarrow> distinct (tsFree s)
     \<and> (\<forall>a \<in> set (tsFree s). a < tsNext s \<and> buf_ok (tsHeap s a) \<and> header_safe (pbHeader (tsHeap s a)))
     \<and> (\<forall>i < length (tsConns s). conn_ok enc s (tsConns s ! i))
     \<and> (\<forall>i < length (tsConns s). \<forall>j < length (tsConns s). i \<noteq> j \<longrightarrow> held (tsConns s ! i) \<noteq> None \<longrightarrow>
          held (tsConns s ! j) \<noteq> held (tsConns s ! i))"

text \<open>One connection changes: the buffers of the others, and their own, are what they were.\<close>

lemma server_update:
  assumes "server_inv enc s" and "i < length (tsConns s)" and "tsConns s' = (tsConns s)[i := c]" and "tsNext s \<le> tsNext s'"
    and "distinct (tsFree s')"
    and "\<forall>a \<in> set (tsFree s'). a < tsNext s' \<and> buf_ok (tsHeap s' a) \<and> header_safe (pbHeader (tsHeap s' a))"
    and "conn_ok enc s' c"
    and "\<And>j a. j < length (tsConns s) \<Longrightarrow> j \<noteq> i \<Longrightarrow> held (tsConns s ! j) = Some a \<Longrightarrow>
      tsHeap s' a = tsHeap s a \<and> a \<notin> set (tsFree s') \<and> held c \<noteq> Some a"
  shows "server_inv enc s'"
proof -
  have "conn_ok enc s' (tsConns s ! j)" if "j < length (tsConns s)" "j \<noteq> i" for j
  proof -
    have "conn_ok enc s (tsConns s ! j)" using assms(1) that(1) by (simp add: server_inv_def)
    with assms(4) assms(8) [OF that] show ?thesis by (cases "held (tsConns s ! j)") (auto simp: conn_ok_def)
  qed
  then have "\<forall>j < length (tsConns s'). conn_ok enc s' (tsConns s' ! j)"
    using assms(2,3,7) by (auto simp: nth_list_update)
  moreover have "held (tsConns s' ! k) \<noteq> held (tsConns s' ! j)"
    if "j < length (tsConns s')" "k < length (tsConns s')" "j \<noteq> k" "held (tsConns s' ! j) \<noteq> None" for j k
  proof -
    note here = that
    consider "j = i" "k \<noteq> i" | "k = i" "j \<noteq> i" | "j \<noteq> i" "k \<noteq> i" using here(3) by blast
    then show ?thesis
    proof cases
      case 1
      then show ?thesis using assms(8) [of k] that assms(2,3) by (cases "held (tsConns s ! k)") auto
    next
      case 2
      then show ?thesis using assms(8) [of j] that assms(2,3) by (cases "held (tsConns s ! j)") auto
    next
      case 3
      then show ?thesis using assms(1,3) that by (auto simp: server_inv_def)
    qed
  qed
  ultimately show ?thesis using assms(5,6) by (simp add: server_inv_def)
qed

lemma invD:
  assumes "server_inv enc s" and "i < length (tsConns s)"
  shows "conn_ok enc s (tsConns s ! i)"
    and "j < length (tsConns s) \<Longrightarrow> j \<noteq> i \<Longrightarrow> held (tsConns s ! j) = Some a \<Longrightarrow> held (tsConns s ! i) \<noteq> Some a"
    and "held (tsConns s ! i) = Some a \<Longrightarrow> a < tsNext s \<and> a \<notin> set (tsFree s) \<and> busy_ok enc (tsHeap s a) (tsConns s ! i)"
  using assms by (auto simp: server_inv_def conn_ok_def)

lemma freeD:
  "server_inv enc s \<Longrightarrow> a \<in> set (tsFree s) \<Longrightarrow> a < tsNext s \<and> buf_ok (tsHeap s a) \<and> header_safe (pbHeader (tsHeap s a))"
  by (simp add: server_inv_def)

lemma fresh_ok: "conn_ok enc s c \<Longrightarrow> cnPhase c = Fresh \<Longrightarrow> quiet c \<and> cnRest c = cnInp c"
  by (simp add: conn_ok_def held_def idle_ok_def)

lemma new_buffer_ok: "buf_ok new_buffer" "header_safe (pbHeader new_buffer)"
  by (simp_all add: buf_ok_def new_buffer_def header_safe_zero)

lemma tcp_step_inv:
  assumes "tcp_step enc s s'" and "server_inv enc s"
  shows "server_inv enc s'"
  using assms(1)
proof cases
  case (accept inp)
  have "conn_ok enc s c = conn_ok enc s' c" for c using accept by (simp add: conn_ok_def split: option.split)
  moreover have "conn_ok enc s' (new_conn inp)" "held (new_conn inp) = None"
    by (simp_all add: conn_ok_def held_def new_conn_def idle_ok_def quiet_def)
  ultimately show ?thesis using assms(2) accept by (auto simp: server_inv_def nth_append less_Suc_eq)
next
  case accept_error
  then show ?thesis using assms(2) by (auto simp: server_inv_def conn_ok_def split: option.splits)
next
  case (draw i a)
  have f: "quiet (tsConns s ! i) \<and> cnRest (tsConns s ! i) = cnInp (tsConns s ! i)"
    using fresh_ok [OF invD(1) [OF assms(2) draw(2)] draw(3)] .
  have d: "distinct (tsFree s)" using assms(2) by (simp add: server_inv_def)
  have o: "held (tsConns s ! j) = Some b \<Longrightarrow> j < length (tsConns s) \<Longrightarrow> b \<notin> set (tsFree s)" for j b
    using invD(3) [OF assms(2)] by blast
  show ?thesis
  proof (rule server_update [OF assms(2) draw(2)])
    show "\<forall>b \<in> set (tsFree s'). b < tsNext s' \<and> buf_ok (tsHeap s' b) \<and> header_safe (pbHeader (tsHeap s' b))"
      using draw(1) freeD [OF assms(2)] notin_set_remove1 by fastforce
    show "conn_ok enc s' ((tsConns s ! i)\<lparr>cnBuf := Some a, cnPhase := Drawn\<rparr>)"
      using draw(1) f d freeD [OF assms(2) draw(4)] by (simp add: conn_ok_def held_def busy_ok_def quiet_def)
    show "tsHeap s' b = tsHeap s b \<and> b \<notin> set (tsFree s') \<and> held ((tsConns s ! i)\<lparr>cnBuf := Some a, cnPhase := Drawn\<rparr>) \<noteq> Some b"
      if "j < length (tsConns s)" "j \<noteq> i" "held (tsConns s ! j) = Some b" for j b
      using o [OF that(3,1)] draw(1,4) by (auto simp: held_def dest: notin_set_remove1)
  qed (use draw(1) d in simp_all)
next
  case (draw_new i)
  have f: "quiet (tsConns s ! i) \<and> cnRest (tsConns s ! i) = cnInp (tsConns s ! i)"
    using fresh_ok [OF invD(1) [OF assms(2) draw_new(2)] draw_new(3)] .
  have o: "held (tsConns s ! j) = Some b \<Longrightarrow> j < length (tsConns s) \<Longrightarrow> b \<notin> set (tsFree s) \<and> b < tsNext s" for j b
    using invD(3) [OF assms(2)] by blast
  have n: "tsNext s \<notin> set (tsFree s)" using freeD [OF assms(2)] by blast
  show ?thesis
  proof (rule server_update [OF assms(2) draw_new(2)])
    show "\<forall>b \<in> set (tsFree s'). b < tsNext s' \<and> buf_ok (tsHeap s' b) \<and> header_safe (pbHeader (tsHeap s' b))"
      using draw_new(1) freeD [OF assms(2)] new_buffer_ok by (auto intro: less_SucI)
    show "conn_ok enc s' ((tsConns s ! i)\<lparr>cnBuf := Some (tsNext s), cnPhase := Drawn\<rparr>)"
      using draw_new(1) f n new_buffer_ok by (simp add: conn_ok_def held_def busy_ok_def quiet_def)
    show "tsHeap s' b = tsHeap s b \<and> b \<notin> set (tsFree s') \<and> held ((tsConns s ! i)\<lparr>cnBuf := Some (tsNext s), cnPhase := Drawn\<rparr>) \<noteq> Some b"
      if "j < length (tsConns s)" "j \<noteq> i" "held (tsConns s ! j) = Some b" for j b
      using o [OF that(3,1)] draw_new(1) by (auto simp: held_def)
  qed (use draw_new(1) assms(2) in \<open>simp_all add: server_inv_def\<close>)
next
  case (work i a buf c)
  note b = invD(3) [OF assms(2) work(2,3)]
  have k: "keeps enc (tsConns s ! i) (buf, c)" using conn_step_keeps [OF work(4)] b by blast
  have h: "held c = None \<and> idle_ok enc c \<or> held c = Some a \<and> busy_ok enc buf c"
    using k work(3) by (auto simp: keeps_def held_def split: phase.splits)
  show ?thesis
  proof (rule server_update [OF assms(2) work(2)])
    show "\<forall>b \<in> set (tsFree s'). b < tsNext s' \<and> buf_ok (tsHeap s' b) \<and> header_safe (pbHeader (tsHeap s' b))"
      using work(1) b freeD [OF assms(2)] by auto
    show "conn_ok enc s' c" using work(1) b h by (auto simp: conn_ok_def)
    show "tsHeap s' b = tsHeap s b \<and> b \<notin> set (tsFree s') \<and> held c \<noteq> Some b"
      if "j < length (tsConns s)" "j \<noteq> i" "held (tsConns s ! j) = Some b" for j b
      using invD(2) [OF assms(2) work(2) that] invD(3) [OF assms(2) that(1,3)] work(1,3) h by auto
  qed (use work(1) assms(2) in \<open>simp_all add: server_inv_def\<close>)
next
  case (close i c n a)
  have h: "held c = Some a" using close(4,5) by (simp add: held_def)
  note b = invD(3) [OF assms(2) close(2) h [unfolded close(3)], folded close(3)]
  obtain body where sv: "in_handler enc n body (tsHeap s a) c" and ok: "buf_ok (tsHeap s a)"
    using b close(4) by (auto simp: busy_ok_def)
  have free: "tsFree s' = a # tsFree s" using close(1) sv ok by (simp add: tcp_Close_def in_handler_def buf_ok_def)
  show ?thesis
  proof (rule server_update [OF assms(2) close(2)])
    show "\<forall>b \<in> set (tsFree s'). b < tsNext s' \<and> buf_ok (tsHeap s' b) \<and> header_safe (pbHeader (tsHeap s' b))"
      using free close(1) b ok sv freeD [OF assms(2)] by (auto simp: in_handler_def)
    show "conn_ok enc s' (c\<lparr>cnPhase := Ended None, cnClosed := True\<rparr>)"
      using sv close(4) by (auto simp: conn_ok_def held_def idle_ok_def in_handler_def request_def sent_log_def)
    show "tsHeap s' b = tsHeap s b \<and> b \<notin> set (tsFree s') \<and> held (c\<lparr>cnPhase := Ended None, cnClosed := True\<rparr>) \<noteq> Some b"
      if "j < length (tsConns s)" "j \<noteq> i" "held (tsConns s ! j) = Some b" for j b
      using invD(2) [OF assms(2) close(2) that] invD(3) [OF assms(2) that(1,3)] h close(1,3) free by (auto simp: held_def)
  qed (use close(1,3) free b assms(2) in \<open>simp_all add: server_inv_def\<close>)
next
  case (close_again i c a)
  then show ?thesis using assms(2) by (simp add: tcp_Close_def)
next
  case (dropped a)
  have "conn_ok enc s c \<Longrightarrow> conn_ok enc s' c" for c
    using dropped by (auto simp: conn_ok_def split: option.splits dest: notin_set_remove1)
  then show ?thesis using dropped assms(2) notin_set_remove1 by (fastforce simp: server_inv_def)
qed

lemma new_server_inv: "server_inv enc new_server"
  by (simp add: server_inv_def new_server_def)

lemma runs_server_inv: "(tcp_step enc)\<^sup>*\<^sup>* new_server s \<Longrightarrow> server_inv enc s"
  by (induction rule: rtranclp_induct) (auto intro: tcp_step_inv new_server_inv)

section \<open>Properties\<close>

text \<open>C13. Connections do not see each other. Buffers are drawn, filled, sent from, put back and drawn again by any
  number of connections in any interleaving, down to single writes of parts of a response, and a
  context may be closed again. No two goroutines ever work on one buffer, no buffer in use is in the pool, and the pool
  holds none twice. What a handler decodes is the body its own client sent, and the handler is reached only if that
  client's bytes alone are a request; the bytes that go out are the error text of the client's own failure, or
  the beginnings of the frames of the handler's responses under the client's own correlation id. Nothing that
  another connection left in a buffer is ever read, decoded or sent.\<close>

theorem connections_apart:
  assumes "(tcp_step enc)\<^sup>*\<^sup>* new_server s" and "i < length (tsConns s)" and "c = tsConns s ! i"
  shows "(\<forall>a. held c = Some a \<longrightarrow> a \<notin> set (tsFree s) \<and> (\<forall>j < length (tsConns s). j \<noteq> i \<longrightarrow> held (tsConns s ! j) \<noteq> Some a))
    \<and> distinct (tsFree s)
    \<and> (case read_request (replicate 12 0) (cnInp c) of
         (err, None) \<Rightarrow> cnBody c = None \<and> cnLog c = [] \<and> (cnOut c = [] \<or> cnOut c = error_text err)
       | (err, Some (h, body)) \<Rightarrow> err = None \<and> (cnBody c = None \<or> cnBody c = Some body)
           \<and> cnOut c = concat (map (\<lambda>(m, k). take k (case enc m of None \<Rightarrow> []
               | Some b \<Rightarrow> if length b \<le> 65536 then PutUint32 (of_nat (4 + length b)) @ PutUint32 (CorrelationID h) @ b else []))
                 (sent_log c)))"
proof -
  note inv = runs_server_inv [OF assms(1)]
  have own: "\<forall>a. held c = Some a \<longrightarrow> a \<notin> set (tsFree s) \<and> (\<forall>j < length (tsConns s). j \<noteq> i \<longrightarrow> held (tsConns s ! j) \<noteq> Some a)"
    using invD(2,3) [OF inv assms(2)] assms(3) by blast
  have m: "MaxBodySize = 65536" by (simp add: MaxBodySize_def)
  have ans: "answers enc corr lg = concat (map (\<lambda>(m, k). take k (case enc m of None \<Rightarrow> []
      | Some b \<Rightarrow> if length b \<le> 65536 then PutUint32 (of_nat (4 + length b)) @ PutUint32 corr @ b else [])) lg)" for corr lg
    unfolding answers_def answer_def frame_def m by (rule refl)
  have err: "err = None" if "request c = (err, Some r)" for err r
    using request_error [OF that [unfolded request_def]] .
  have q: "cnOut c = answers enc corr (sent_log c) \<and> cnLog c = []" if "quiet c" "\<forall>n m off len. cnPhase c \<noteq> Sending n m off len" for corr
  proof -
    have "sent_log c = []" using that by (cases "cnPhase c") (simp_all add: quiet_def sent_log_def)
    then show ?thesis using that(1) by (simp add: quiet_def answers_def)
  qed
  have "case request c of
         (err, None) \<Rightarrow> cnBody c = None \<and> cnLog c = [] \<and> (cnOut c = [] \<or> cnOut c = error_text err)
       | (err, Some (h, body)) \<Rightarrow> err = None \<and> (cnBody c = None \<or> cnBody c = Some body) \<and> cnOut c = answers enc (CorrelationID h) (sent_log c)"
  proof (cases "quiet c \<and> (\<forall>n m off len. cnPhase c \<noteq> Sending n m off len)")
    case True
    then show ?thesis using q err by (auto simp: quiet_def split: prod.splits option.splits)
  next
    case False
    have "conn_ok enc s c" using invD(1) [OF inv assms(2)] assms(3) by simp
    with False show ?thesis
      by (auto simp: conn_ok_def busy_ok_def idle_ok_def in_handler_def sent_log_def split: option.splits phase.splits if_splits)
  qed
  then show ?thesis using own inv unfolding request_def ans server_inv_def by blast
qed

text \<open>
  A client sends a request of one byte and is served; a second draws the same buffer, with the header of the
  first still in it, and closes without sending anything.
\<close>

definition sv :: "(nat \<Rightarrow> pooled) \<Rightarrow> nat \<Rightarrow> nat list \<Rightarrow> conn list \<Rightarrow> tcp_server" where
  "sv H n F C = \<lparr>tsHeap = H, tsNext = n, tsFree = F, tsConns = C, tsAccepting = True\<rparr>"

lemma sv_simps [simp]: "tsHeap (sv H n F C) = H" "tsNext (sv H n F C) = n" "tsFree (sv H n F C) = F" "tsConns (sv H n F C) = C"
  by (simp_all add: sv_def)

lemma sv_accept: "tcp_step enc (sv H n F C) (sv H n F (C @ [new_conn inp]))"
  using tcp_step.accept [of "sv H n F C" enc inp] by (simp add: sv_def)

lemma sv_work:
  assumes "i < length C" and "held (C ! i) = Some a" and "conn_step enc (H a, C ! i) (b, c)"
  shows "tcp_step enc (sv H n F C) (sv (H(a := b)) n F (C[i := c]))"
  using tcp_step.work [of i "sv H n F C" a enc b c] assms by (simp add: sv_def)

lemma sv_work_one:
  assumes "held c = Some a" and "conn_step enc (H a, c) (b, c')"
  shows "tcp_step enc (sv H n F [c]) (sv (H(a := b)) n F [c'])"
  using sv_work [of 0 "[c]" a enc H b c' n F] assms by simp

lemma served_once:
  "\<exists>H c. (tcp_step enc)\<^sup>*\<^sup>* new_server (sv H 1 [0] [c]) \<and> header_safe (pbHeader (H 0)) \<and> cnInp c = writeRequest 1 cmd [7]
     \<and> cnBody c \<noteq> None \<and> cnPhase c = Ended None \<and> cnLog c = []"
proof -
  let ?r = "writeRequest 1 cmd [7]" and ?H = "(\<lambda>_. new_buffer) :: nat \<Rightarrow> pooled"
  define c1 where "c1 = (new_conn ?r)\<lparr>cnBuf := Some 0, cnPhase := Drawn\<rparr>"
  have req: "read_request (replicate 12 0) (?r @ []) = (None, Some (\<lparr>MessageSize = of_nat (8 + 1), CorrelationID = 1, CommandType = cmd\<rparr>, [7]))"
    using read_request_write [of "[7]" "replicate 12 0" 1 cmd "[]"] by (simp add: MaxBodySize_def)
  then obtain h rest where h: "read_full 12 ?r = Inr (h, rest)"
    "read_body None (parse_header h) rest = (None, Some (\<lparr>MessageSize = of_nat (8 + 1), CorrelationID = 1, CommandType = cmd\<rparr>, [7]))"
    by (auto simp: read_request_def read_full_def writeRequest_def put_header_def split: if_splits)
  define c2 where "c2 = c1\<lparr>cnPhase := HeaderRead None, cnRest := rest\<rparr>"
  define b2 where "b2 = new_buffer\<lparr>pbHeader := h\<rparr>"
  obtain b3 c3 where s3: "conn_read_body None b2 c2 = (b3, c3)" by (metis prod.exhaust)
  have c3: "b3 = b2\<lparr>pbBody := fill [7] (pbBody b2)\<rparr>" "c3 = c2\<lparr>cnHeader := parse_header h, cnPhase := Handling 1\<rparr>"
    using conn_read_body_result [OF s3] h(2) by (auto simp: b2_def c2_def)
  define c4 where "c4 = snd (conn_decode 1 b3 c3)"
  have "(tcp_step enc)\<^sup>*\<^sup>* new_server (sv ?H 0 [] [new_conn ?r])"
    using sv_accept [of enc ?H 0 "[]" "[]" ?r] by (simp add: new_server_def sv_def)
  then have "(tcp_step enc)\<^sup>*\<^sup>* new_server (sv ?H 1 [] [c1])"
    by (rule rtranclp.rtrancl_into_rtrancl)
      (use tcp_step.draw_new [of 0 "sv ?H 0 [] [new_conn ?r]" enc] in \<open>simp add: sv_def new_conn_def c1_def fun_upd_idem\<close>)
  then have "(tcp_step enc)\<^sup>*\<^sup>* new_server (sv (?H(0 := b2)) 1 [] [c2])"
    by (rule rtranclp.rtrancl_into_rtrancl)
      (rule sv_work_one, use conn_step.header [of c1 enc new_buffer] h(1) in \<open>simp_all add: c1_def c2_def b2_def held_def conn_read_header_def new_conn_def\<close>)
  then have "(tcp_step enc)\<^sup>*\<^sup>* new_server (sv (?H(0 := b2, 0 := b3)) 1 [] [c3])"
    by (rule rtranclp.rtrancl_into_rtrancl)
      (rule sv_work_one, use conn_step.body [of c2 None enc b2] s3 in \<open>simp_all add: c1_def c2_def held_def\<close>)
  then have r4: "(tcp_step enc)\<^sup>*\<^sup>* new_server (sv (?H(0 := b3)) 1 [] [c4])"
    unfolding fun_upd_upd
    by (rule rtranclp.rtrancl_into_rtrancl)
      (use sv_work_one [of c3 0 enc "?H(0 := b3)" b3 c4 1 "[]"] conn_step.decode [of c3 1 enc b3] in
        \<open>simp add: c1_def c2_def c3(2) c4_def conn_decode_def held_def\<close>)
  have "buf_ok b3" using new_buffer_ok(1) by (simp add: c3(1) b2_def buf_ok_def MaxBodySize_def)
  then have "(tcp_step enc)\<^sup>*\<^sup>* new_server (sv (?H(0 := b3)) 1 [0] [c4\<lparr>cnPhase := Ended None, cnClosed := True\<rparr>])"
    by (intro rtranclp.rtrancl_into_rtrancl [OF r4])
      (use tcp_step.close [of 0 "sv (?H(0 := b3)) 1 [] [c4]" c4 1 0 enc] in
        \<open>simp add: c4_def c3(2) c2_def c1_def new_conn_def conn_decode_def tcp_Close_def buf_ok_def sv_def\<close>)
  moreover have "header_safe (pbHeader b3)" using read_body_safe [OF h(2)] by (simp add: c3(1) b2_def)
  ultimately show ?thesis
    by (intro exI [of _ "?H(0 := b3)"] exI [of _ "c4\<lparr>cnPhase := Ended None, cnClosed := True\<rparr>"])
      (simp add: c4_def c3(2) c2_def c1_def new_conn_def conn_decode_def)
qed

lemma silent_second:
  assumes "header_safe (pbHeader (H 0))"
  shows "\<exists>H' c2. (tcp_step enc)\<^sup>*\<^sup>* (sv H 1 [0] [c]) (sv H' 1 [] [c, c2]) \<and> cnInp c2 = [] \<and> cnBuf c2 = Some 0
    \<and> cnOut c2 = error_text (Some TcpEOF)"
proof -
  define c1 where "c1 = (new_conn [])\<lparr>cnBuf := Some 0, cnPhase := Drawn\<rparr>"
  define c2 where "c2 = c1\<lparr>cnPhase := HeaderRead (Some TcpEOF)\<rparr>"
  obtain b where b: "conn_read_body (Some TcpEOF) (H 0) c2 = (b, conn_end (Some TcpEOF) c2)"
    using conn_read_body_result [of "Some TcpEOF" "H 0" c2] assms by (cases "conn_read_body (Some TcpEOF) (H 0) c2")
      (auto simp: header_safe_def c2_def c1_def new_conn_def)
  have "(tcp_step enc)\<^sup>*\<^sup>* (sv H 1 [0] [c]) (sv H 1 [0] [c, new_conn []])"
    using sv_accept [of enc H 1 "[0]" "[c]" "[]"] by simp
  then have "(tcp_step enc)\<^sup>*\<^sup>* (sv H 1 [0] [c]) (sv H 1 [] [c, c1])"
    by (rule rtranclp.rtrancl_into_rtrancl)
      (use tcp_step.draw [of 1 "sv H 1 [0] [c, new_conn []]" 0 enc] in \<open>simp add: sv_def c1_def new_conn_def\<close>)
  then have "(tcp_step enc)\<^sup>*\<^sup>* (sv H 1 [0] [c]) (sv H 1 [] [c, c2])"
    by (rule rtranclp.rtrancl_into_rtrancl)
      (use sv_work [of 1 "[c, c1]" 0 enc H "H 0" c2 1 "[]"] conn_step.header [of c1 enc "H 0"] in
        \<open>simp add: c1_def c2_def new_conn_def held_def conn_read_header_def read_full_def\<close>)
  then have "(tcp_step enc)\<^sup>*\<^sup>* (sv H 1 [0] [c]) (sv (H(0 := b)) 1 [] [c, conn_end (Some TcpEOF) c2])"
    by (rule rtranclp.rtrancl_into_rtrancl)
      (use sv_work [of 1 "[c, c2]" 0 enc H b "conn_end (Some TcpEOF) c2" 1 "[]"] conn_step.body [of c2 "Some TcpEOF" enc "H 0"] b in
        \<open>simp add: c1_def c2_def new_conn_def held_def\<close>)
  then show ?thesis
    by (intro exI [of _ "H(0 := b)"] exI [of _ "conn_end (Some TcpEOF) c2"]) (simp add: conn_end_def c1_def c2_def new_conn_def)
qed

theorem connections_apart_witness:
  "\<exists>H c1 c2. (tcp_step (\<lambda>_. Some [7]))\<^sup>*\<^sup>* new_server (sv H 1 [] [c1, c2])
     \<and> cnBody c1 = Some [7] \<and> cnBuf c2 = Some 0 \<and> cnBody c2 = None \<and> cnOut c2 = error_text (Some TcpEOF)"
proof -
  let ?enc = "\<lambda>_ :: response. Some [7 :: byte]"
  obtain H c1 where c1: "(tcp_step ?enc)\<^sup>*\<^sup>* new_server (sv H 1 [0] [c1])" "header_safe (pbHeader (H 0))"
    "cnInp c1 = writeRequest 1 0 [7]" "cnBody c1 \<noteq> None"
    using served_once [of ?enc 0] by blast
  obtain H' c2 where c2: "(tcp_step ?enc)\<^sup>*\<^sup>* (sv H 1 [0] [c1]) (sv H' 1 [] [c1, c2])" "cnInp c2 = []" "cnBuf c2 = Some 0"
    "cnOut c2 = error_text (Some TcpEOF)"
    using silent_second [of H ?enc c1] c1(2) by blast
  have r: "(tcp_step ?enc)\<^sup>*\<^sup>* new_server (sv H' 1 [] [c1, c2])" by (rule rtranclp_trans [OF c1(1) c2(1)])
  have "read_request (replicate 12 0) (cnInp c1) = (None, Some (\<lparr>MessageSize = of_nat (8 + length [7 :: byte]), CorrelationID = 1, CommandType = 0\<rparr>, [7]))"
    using read_request_write [of "[7]" "replicate 12 0" 1 0 "[]"] c1(3) by (simp add: MaxBodySize_def)
  with connections_apart [OF r, of 0 c1] c1(4) have "cnBody c1 = Some [7]" by auto
  moreover have "cnBody c2 = None"
    using connections_apart [OF r, of 1 c2] c2(2) header_safe_zero
    by (auto simp: read_request_def read_full_def header_safe_def)
  ultimately show ?thesis using r c2(3,4) by blast
qed



end
