(* ===== verification/Restart.thy ===== *)
theory Restart
  imports Assignment
begin

text \<open>
  The manifest of local partitions, \<open>server/persistent/db/mongo.go\<close>, and what a restarted node does with
  it: every partition a node creates is recorded under (node, topic, partition), and at the start the
  records bring the partitions back. The collection is outside the repository: its two operations are
  the fields of \<open>mongo\<close>, on a state whose documents \<open>docs\<close> gives, and \<open>mongo_ok\<close> is what an upsert and a
  find document. \<open>None\<close> for the collection is the mock client, which records nothing.
\<close>

section \<open>The manifest\<close>

record 'm mongo =
  mUpdateOne :: "int \<times> string \<times> int \<Rightarrow> int \<Rightarrow> 'm \<Rightarrow> bool \<times> 'm"
    \<comment> \<open>\<open>$set\<close> of the retention with upsert, on the filter of three fields\<close>
  mFind :: "int \<Rightarrow> 'm \<Rightarrow> local_record list option \<times> 'm"
    \<comment> \<open>the decoded documents of a node\<close>

definition mongo_ok :: "'m mongo \<Rightarrow> ('m \<Rightarrow> int \<times> string \<times> int \<Rightarrow> int option) \<Rightarrow> bool" where
  "mongo_ok M docs \<longleftrightarrow>
     (\<forall>k ret m. docs (snd (mUpdateOne M k ret m)) = (if fst (mUpdateOne M k ret m) then (docs m)(k \<mapsto> ret) else docs m)) \<and>
     (\<forall>node m. docs (snd (mFind M node m)) = docs m \<and>
        (\<forall>recs. fst (mFind M node m) = Some recs \<longrightarrow>
           (\<forall>t i ret. \<lparr>recTopic = t, recPartitionID = i, recRetention = ret\<rparr> \<in> set recs \<longleftrightarrow> docs m (node, t, i) = Some ret)))"

definition UpsertLocalPartition :: "'m mongo option \<Rightarrow> int \<Rightarrow> local_record \<Rightarrow> 'm \<Rightarrow> go_error option \<times> 'm" where
  "UpsertLocalPartition coll node rec m =
     (case coll of
        None \<Rightarrow> (None, m)
      | Some M \<Rightarrow>
          (case mUpdateOne M (node, recTopic rec, recPartitionID rec) (recRetention rec) m of
             (done, m') \<Rightarrow> (if done then None else Some EIO, m')))"

definition ListLocalPartitions :: "'m mongo option \<Rightarrow> int \<Rightarrow> 'm \<Rightarrow> local_record list option \<times> 'm" where
  "ListLocalPartitions coll node m = (case coll of None \<Rightarrow> (Some [], m) | Some M \<Rightarrow> mFind M node m)"

text \<open>\<open>EnsureLocalPartition\<close> with its record; a failed write is only logged.\<close>

definition ensure_recorded ::
  "'m mongo option \<Rightarrow> disk_env \<Rightarrow> string \<Rightarrow> topic_partition \<Rightarrow> broker \<Rightarrow> 'm \<Rightarrow> (partition \<times> bool) \<times> broker \<times> 'm" where
  "ensure_recorded coll env topic part b m =
     (case EnsureLocalPartition env topic part b of
        ((p, created), b') \<Rightarrow>
          ((p, created), b',
           if created then snd (UpsertLocalPartition coll (Broker.GetNodeId b)
             \<lparr>recTopic = topic, recPartitionID = Id_tp part, recRetention = Retention part\<rparr> m)
           else m))"

definition LoadLocalPartitionsFromMongo :: "'m mongo option \<Rightarrow> disk_env \<Rightarrow> broker \<Rightarrow> 'm \<Rightarrow> go_error option \<times> broker \<times> 'm" where
  "LoadLocalPartitionsFromMongo coll env b m =
     (case ListLocalPartitions coll (Broker.GetNodeId b) m of
        (recs, m') \<Rightarrow> (case LoadLocalPartitions env recs b of (e, b') \<Rightarrow> (e, b', m')))"

section \<open>Every local partition is recorded\<close>

definition recorded :: "('m \<Rightarrow> int \<times> string \<times> int \<Rightarrow> int option) \<Rightarrow> broker \<Rightarrow> 'm \<Rightarrow> bool" where
  "recorded docs b m \<longleftrightarrow> (\<forall>t i. get_local (t, i) b \<noteq> None \<longrightarrow> docs m (bid b, t, i) \<noteq> None)"

lemma created_iff:
  assumes "broker_ok b" and "EnsureLocalPartition env t part b = ((p, created), b')"
  shows "created \<longleftrightarrow> get_local (t, Id_tp part) b = None"
    and "created \<Longrightarrow> \<exists>dn. p = NewPartitionProcessor (fst (env t (Id_tp part))) dn (Id_tp part) t
      (StartOffset part) (Retention part) (Replicas part) (snd (env t (Id_tp part)))"
proof -
  obtain tp pl where e: "EnsureTopic env t [] (bpool b) = (tp, pl)" by (cases "EnsureTopic env t [] (bpool b)")
  obtain tp' where e': "EnsurePartition env part tp = ((p, created), tp')"
    using assms(2) e by (auto simp: EnsureLocalPartition_def split: prod.splits)
  have pok: "pool_ok (bpool b)" using assms(1) by (simp add: broker_ok_def)
  have g: "pool_ok pl" "get_topic t pl = Some tp" using EnsureTopic_get [OF pok e] by auto
  obtain i where "map_of (topicProcessor pl) t = Some i" "processors pl ! i = Some tp"
    using g by (auto simp: get_topic_conv)
  then have name: "Name tp = t" using pool_okD(2) [OF g(1), of t i] by auto
  have old: "map_of (partitions tp) j = (case get_topic t (bpool b) of None \<Rightarrow> None | Some u \<Rightarrow> map_of (partitions u) j)" for j
    using EnsureTopic_partitions [OF pok e] by simp
  show "created \<longleftrightarrow> get_local (t, Id_tp part) b = None"
    using e' old [of "Id_tp part"] get_local_topic [OF assms(1), of t "Id_tp part"]
    by (auto simp: EnsurePartition_def Let_def split: option.splits)
  show "\<exists>dn. p = NewPartitionProcessor (fst (env t (Id_tp part))) dn (Id_tp part) t
      (StartOffset part) (Retention part) (Replicas part) (snd (env t (Id_tp part)))" if created
    using e' that name by (auto simp: EnsurePartition_def make_partition_def Let_def split: option.splits)
qed

lemma ensure_keeps_recorded:
  assumes "mongo_ok M docs" and "broker_ok b" and "recorded docs b m"
    and "ensure_recorded (Some M) env t part b m = ((p, created), b', m')"
    and "created \<Longrightarrow> fst (mUpdateOne M (bid b, t, Id_tp part) (Retention part) m)"
  shows "broker_ok b' \<and> bid b' = bid b \<and> recorded docs b' m'"
proof -
  have e: "EnsureLocalPartition env t part b = ((p, created), b')"
    and m': "m' = (if created then snd (mUpdateOne M (bid b, t, Id_tp part) (Retention part) m) else m)"
    using assms(4) by (auto simp: ensure_recorded_def UpsertLocalPartition_def Broker.GetNodeId_def split: prod.splits if_splits)
  note E = EnsureLocalPartition_get [OF assms(2) e]
  have d: "docs m' = (if created then (docs m)((bid b, t, Id_tp part) \<mapsto> Retention part) else docs m)"
    using assms(1,5) m' by (auto simp: mongo_ok_def)
  have "docs m' (bid b, s, i) \<noteq> None" if "get_local (s, i) b' \<noteq> None" for s i
    using that E(2) [of "(s, i)"] d assms(3) created_iff(1) [OF assms(2) e] by (auto simp: recorded_def split: if_splits)
  with E(1,5) show ?thesis by (simp add: recorded_def)
qed


section \<open>Restart\<close>

definition load_one :: "disk_env \<Rightarrow> local_record \<Rightarrow> broker \<Rightarrow> broker" where
  "load_one env rec b = snd (EnsureLocalPartition env (recTopic rec)
     \<lparr>Id_tp = recPartitionID rec, Replicas = [], Retention = recRetention rec, StartOffset = 0\<rparr> b)"

definition from_disk :: "disk_env \<Rightarrow> string \<Rightarrow> int \<Rightarrow> partition \<Rightarrow> bool" where
  "from_disk env t i p \<longleftrightarrow> (\<exists>dn ret. p = NewPartitionProcessor (fst (env t i)) dn i t 0 ret [] (snd (env t i)))"

definition settled :: "disk_env \<Rightarrow> broker \<Rightarrow> string \<Rightarrow> int \<Rightarrow> partition \<Rightarrow> bool" where
  "settled env b t i p \<longleftrightarrow> (case get_local (t, i) b of None \<Rightarrow> from_disk env t i p | Some q \<Rightarrow> p = q)"

lemma load_one_get:
  assumes "broker_ok b"
  shows "broker_ok (load_one env rec b)" and "bid (load_one env rec b) = bid b"
    and "\<exists>p. settled env b (recTopic rec) (recPartitionID rec) p
      \<and> (\<forall>k. get_local k (load_one env rec b) = (if k = (recTopic rec, recPartitionID rec) then Some p else get_local k b))"
proof -
  let ?part = "\<lparr>Id_tp = recPartitionID rec, Replicas = [], Retention = recRetention rec, StartOffset = 0\<rparr>"
  obtain p created b' where e: "EnsureLocalPartition env (recTopic rec) ?part b = ((p, created), b')" by (metis prod.exhaust)
  note E = EnsureLocalPartition_get [OF assms e] and C = created_iff [OF assms e]
  show "broker_ok (load_one env rec b)" "bid (load_one env rec b) = bid b" using E(1,5) e by (simp_all add: load_one_def)
  have "settled env b (recTopic rec) (recPartitionID rec) p"
    using E(3) C by (auto simp: settled_def from_disk_def split: option.split)
  then show "\<exists>p. settled env b (recTopic rec) (recPartitionID rec) p
      \<and> (\<forall>k. get_local k (load_one env rec b) = (if k = (recTopic rec, recPartitionID rec) then Some p else get_local k b))"
    using E(2) e by (intro exI [of _ p]) (simp add: load_one_def)
qed

text \<open>Loading records brings up exactly the partitions recorded, and leaves those already there.\<close>

definition load_at :: "disk_env \<Rightarrow> local_record list \<Rightarrow> broker \<Rightarrow> broker \<Rightarrow> string \<Rightarrow> int \<Rightarrow> bool" where
  "load_at env recs b b' t i \<longleftrightarrow>
     (case get_local (t, i) b of
        Some q \<Rightarrow> get_local (t, i) b' = Some q
      | None \<Rightarrow>
          (if \<exists>rec\<in>set recs. recTopic rec = t \<and> recPartitionID rec = i
           then \<exists>p. get_local (t, i) b' = Some p \<and> from_disk env t i p
           else get_local (t, i) b' = None))"

definition loaded :: "disk_env \<Rightarrow> local_record list \<Rightarrow> broker \<Rightarrow> broker \<Rightarrow> bool" where
  "loaded env recs b b' \<longleftrightarrow> broker_ok b' \<and> bid b' = bid b \<and>
     (\<forall>t i. load_at env recs b b' t i)"

lemma load_at_step:
  assumes "broker_ok b" and "load_at env recs (load_one env rec b) b' t i"
  shows "load_at env (rec # recs) b b' t i"
proof -
  obtain p where p: "settled env b (recTopic rec) (recPartitionID rec) p"
    and g: "\<And>k. get_local k (load_one env rec b) = (if k = (recTopic rec, recPartitionID rec) then Some p else get_local k b)"
    using load_one_get(3) [OF assms(1)] by blast
  show ?thesis
  proof (cases "(t, i) = (recTopic rec, recPartitionID rec)")
    case True
    then have "get_local (t, i) b' = Some p" using assms(2) g by (simp add: load_at_def)
    with p True show ?thesis by (auto simp: load_at_def settled_def split: option.splits)
  next
    case False
    with assms(2) g show ?thesis by (auto simp: load_at_def split: option.splits if_splits)
  qed
qed

lemma load_all: "broker_ok b \<Longrightarrow> loaded env recs b (fold (load_one env) recs b)"
proof (induction recs arbitrary: b)
  case Nil
  then show ?case by (simp add: loaded_def load_at_def split: option.split)
next
  case (Cons rec recs)
  note L = load_one_get [OF Cons.prems, of env rec]
  have "loaded env recs (load_one env rec b) (fold (load_one env) recs (load_one env rec b))" by (rule Cons.IH) (rule L(1))
  then show ?case using load_at_step [OF Cons.prems] L(2) by (simp add: loaded_def)
qed

text \<open>The disk after a crash: each directory with any byte prefix of the active segment's file.\<close>

definition crash_env :: "(string \<Rightarrow> int \<Rightarrow> nat) \<Rightarrow> broker \<Rightarrow> disk_env \<Rightarrow> bool" where
  "crash_env n b env \<longleftrightarrow> (\<forall>t i p. get_local (t, i) b = Some p \<longrightarrow>
     fst (env t i) = good_recover \<and> crash_dir (n t i) p (snd (env t i)))"

text \<open>A start on such a disk, when the manifest lists every partition the node had.\<close>

lemma restart_restores:
  assumes "mongo_ok M docs" and "broker_ok b" and "recorded docs b m" and "crash_env n b env"
    and "mFind M (bid b) m = (Some recs, m1)"
    and "LoadLocalPartitionsFromMongo (Some M) env (NewBroker (bid b) False) m = (e, b', m')"
  shows "e = None \<and> broker_ok b' \<and> recorded docs b' m' \<and>
    (\<forall>t i p base ms. get_local (t, i) b = Some p \<and> part_rep p base ms \<longrightarrow>
       (\<exists>p' k a. get_local (t, i) b' = Some p' \<and> part_rep p' base (take k ms) \<and> activeSegment p = Some a \<and>
          unat (BaseOffset (segs p ! a)) \<le> unat base + k \<and> (CurrentSize (segs p ! a) \<le> n t i \<longrightarrow> take k ms = ms))) \<and>
    (\<forall>t i. get_local (t, i) b' \<noteq> None \<longleftrightarrow> docs m (bid b, t, i) \<noteq> None)"
proof -
  let ?b0 = "NewBroker (bid b) False"
  have b0: "broker_ok ?b0" "bid ?b0 = bid b" "get_local k ?b0 = None" for k
    by (simp_all add: NewBroker_def broker_ok_def NewProcessorPool_def pool_ok_def get_local_def local_partition_def GetTopicProcessor_def)
  have b': "e = None" "b' = fold (load_one env) recs ?b0" "m' = m1"
    using assms(5,6) b0(2)
    by (auto simp: LoadLocalPartitionsFromMongo_def ListLocalPartitions_def Broker.GetNodeId_def LoadLocalPartitions_def
        load_one_def [abs_def] split: prod.splits)
  have L: "loaded env recs ?b0 b'" unfolding b'(2) by (rule load_all [OF b0(1)])
  have docs: "docs m1 = docs m" "\<lparr>recTopic = t, recPartitionID = i, recRetention = ret\<rparr> \<in> set recs \<longleftrightarrow> docs m (bid b, t, i) = Some ret" for t i ret
    using assms(1,5) by (auto simp: mongo_ok_def dest!: spec [where x = "bid b"] spec [where x = m])
  have listed: "(\<exists>rec\<in>set recs. recTopic rec = t \<and> recPartitionID rec = i) \<longleftrightarrow> docs m (bid b, t, i) \<noteq> None" for t i
  proof
    assume "\<exists>rec\<in>set recs. recTopic rec = t \<and> recPartitionID rec = i"
    then obtain rec where "rec \<in> set recs" "rec = \<lparr>recTopic = t, recPartitionID = i, recRetention = recRetention rec\<rparr>" by auto
    then show "docs m (bid b, t, i) \<noteq> None" using docs(2) by (metis option.distinct(1))
  next
    assume "docs m (bid b, t, i) \<noteq> None"
    then obtain ret where "docs m (bid b, t, i) = Some ret" by blast
    then show "\<exists>rec\<in>set recs. recTopic rec = t \<and> recPartitionID rec = i" using docs(2) by force
  qed
  have here: "if docs m (bid b, t, i) \<noteq> None then \<exists>p. get_local (t, i) b' = Some p \<and> from_disk env t i p
      else get_local (t, i) b' = None" for t i
  proof -
    have "load_at env recs ?b0 b' t i" using L by (simp add: loaded_def)
    then show ?thesis unfolding load_at_def b0(3) listed by simp
  qed
  have kept: "\<exists>p' k a. get_local (t, i) b' = Some p' \<and> part_rep p' base (take k ms) \<and> activeSegment p = Some a \<and>
      unat (BaseOffset (segs p ! a)) \<le> unat base + k \<and> (CurrentSize (segs p ! a) \<le> n t i \<longrightarrow> take k ms = ms)"
    if p: "get_local (t, i) b = Some p" and r: "part_rep p base ms" for t i p base ms
  proof -
    have "docs m (bid b, t, i) \<noteq> None" using assms(3) p by (auto simp: recorded_def)
    then obtain p' where p': "get_local (t, i) b' = Some p'" "from_disk env t i p'" using here [of t i] by auto
    have d: "fst (env t i) = good_recover" "crash_dir (n t i) p (snd (env t i))" using assms(4) p by (auto simp: crash_env_def)
    obtain dn ret where n: "p' = NewPartitionProcessor good_recover dn i t 0 ret [] (snd (env t i))"
      using p'(2) d(1) by (auto simp: from_disk_def)
    from crash_recovers [OF r d(2), of dn i t 0 ret "[]"] show ?thesis
      unfolding n [symmetric] using p'(1) by fastforce
  qed
  have same: "get_local (t, i) b' \<noteq> None \<longleftrightarrow> docs m (bid b, t, i) \<noteq> None" for t i
    using here [of t i] by (auto split: if_splits)
  have ok: "broker_ok b'" "bid b' = bid b" using L b0(2) by (simp_all add: loaded_def)
  have "recorded docs b' m'" using same unfolding recorded_def b'(3) docs(1) ok(2) by blast
  then show ?thesis using b'(1) ok(1) kept same by blast
qed

text \<open>A collection as an association list.\<close>

definition list_mongo :: "((int \<times> string \<times> int) \<times> int) list mongo" where
  "list_mongo = \<lparr>mUpdateOne = (\<lambda>k ret m. (True, AList.update k ret m)),
     mFind = (\<lambda>node m. (Some (map (\<lambda>((_, t, i), ret). \<lparr>recTopic = t, recPartitionID = i, recRetention = ret\<rparr>)
       (filter (\<lambda>((n, t, i), ret). n = node) (AList.clearjunk m))), m))\<rparr>"

lemma list_mongo_ok: "mongo_ok list_mongo map_of"
proof -
  have "map_of m (node, t, i) = Some ret \<longleftrightarrow> ((node, t, i), ret) \<in> set (AList.clearjunk m)"
    for node t i ret and m :: "((int \<times> string \<times> int) \<times> int) list"
    by (metis map_of_clearjunk distinct_clearjunk map_of_eq_Some_iff)
  then show ?thesis by (force simp: mongo_ok_def list_mongo_def update_conv' image_iff)
qed

section \<open>Shutdown and the topics of the configuration\<close>

record topic_doc =
  docId :: int
  docName :: string
  docPartitions :: "topic_partition list"

text \<open>The collection of topics: an upsert under the id, and all documents.\<close>

record 'm topic_coll =
  tUpdateOne :: "int \<Rightarrow> string \<times> topic_partition list \<Rightarrow> 'm \<Rightarrow> bool \<times> 'm"
  tFind :: "'m \<Rightarrow> topic_doc list option \<times> 'm"

definition topic_coll_ok :: "'m topic_coll \<Rightarrow> ('m \<Rightarrow> int \<Rightarrow> (string \<times> topic_partition list) option) \<Rightarrow> bool" where
  "topic_coll_ok M docs \<longleftrightarrow>
     (\<forall>k v m. docs (snd (tUpdateOne M k v m)) = (if fst (tUpdateOne M k v m) then (docs m)(k \<mapsto> v) else docs m)) \<and>
     (\<forall>m ts. fst (tFind M m) = Some ts \<longrightarrow>
        (\<forall>k n ps. \<lparr>docId = k, docName = n, docPartitions = ps\<rparr> \<in> set ts \<longleftrightarrow> docs m k = Some (n, ps)))"

definition UpdateTopic :: "'m topic_coll option \<Rightarrow> topic_doc \<Rightarrow> 'm \<Rightarrow> go_error option \<times> 'm" where
  "UpdateTopic coll t m =
     (case coll of
        None \<Rightarrow> (None, m)
      | Some M \<Rightarrow> (case tUpdateOne M (docId t) (docName t, docPartitions t) m of (done, m') \<Rightarrow> (if done then None else Some EIO, m')))"

text \<open>\<open>FetchAllTopics\<close> has no test for the mock client: there it calls \<open>Find\<close> on a nil collection.\<close>

definition FetchAllTopics :: "'m topic_coll option \<Rightarrow> 'm \<Rightarrow> (go_error + topic_doc list) \<times> 'm" where
  "FetchAllTopics coll m =
     (case coll of
        None \<Rightarrow> (Inl EPanic, m)
      | Some M \<Rightarrow> (case tFind M m of (None, m') \<Rightarrow> (Inl EIO, m') | (Some ts, m') \<Rightarrow> (Inr ts, m')))"

definition InitConfig :: "'m topic_coll option \<Rightarrow> topic_doc list \<Rightarrow> 'm \<Rightarrow> go_error option \<times> topic_doc list \<times> 'm" where
  "InitConfig coll lst m =
     (case FetchAllTopics coll m of (Inl e, m') \<Rightarrow> (Some e, lst, m') | (Inr ts, m') \<Rightarrow> (None, ts, m'))"

text \<open>\<open>Stop\<close> cancels the broker's context and with it the pool's, the topics' and the partitions'.\<close>

definition stop_broker :: "broker \<Rightarrow> broker" where
  "stop_broker b = b\<lparr>bdone := True,
     bpool := bpool b\<lparr>pooldone := True, processors := map (map_option stop_topic) (processors (bpool b))\<rparr>\<rparr>"

text \<open>
  \<open>Shutdown\<close> stops the broker and writes the topics of its configuration, going on after an error. The
  wait between the two is for a wait group nothing is ever added to, so it does not wait.
\<close>

definition Shutdown :: "'m topic_coll option \<Rightarrow> topic_doc list \<Rightarrow> broker \<Rightarrow> 'm \<Rightarrow> go_error option \<times> broker \<times> 'm" where
  "Shutdown coll lst b m = (None, stop_broker b, fold (\<lambda>t m. snd (UpdateTopic coll t m)) lst m)"

text \<open>The partitions of a stopped node keep their logs and their state; only their context is cancelled.\<close>

lemma stop_broker_get:
  "get_local k (stop_broker b) = map_option (\<lambda>p. p\<lparr>pdone := True\<rparr>) (get_local k b)"
proof -
  have mp: "map_of (map (\<lambda>(i, p). (i, p\<lparr>pdone := True\<rparr>)) ps) i = map_option (\<lambda>p. p\<lparr>pdone := True\<rparr>) (map_of ps i)" for ps i
    by (simp add: map_of_map)
  show ?thesis
    by (auto simp: get_local_def local_partition_def stop_broker_def GetTopicProcessor_def processor_at_def GetPartition_def
        stop_topic_def mp split: option.splits)
qed

lemma stop_broker_ok: "broker_ok b \<Longrightarrow> broker_ok (stop_broker b)"
  by (fastforce simp: broker_ok_def pool_ok_def stop_broker_def stop_topic_def comp_def case_prod_beta')

text \<open>
  A shutdown keeps everything a later start needs: the manifest still lists the partitions, and a
  directory the crash would have left is one the shutdown leaves.
\<close>

lemma shutdown_restartable:
  assumes "broker_ok b" and "recorded docs b m" and "crash_env n b env"
    and "Shutdown coll lst b mt = (e, b', mt')"
  shows "e = None \<and> broker_ok b' \<and> recorded docs b' m \<and> crash_env n b' env"
proof -
  have b': "b' = stop_broker b" "e = None" using assms(4) by (simp_all add: Shutdown_def)
  have "bid (stop_broker b) = bid b" by (simp add: stop_broker_def)
  moreover have "crash_dir k (p\<lparr>pdone := True\<rparr>) d = crash_dir k p d" for k p d by (simp add: crash_dir_def split: option.split)
  ultimately show ?thesis using assms(2,3) b' stop_broker_ok [OF assms(1)]
    by (auto simp: recorded_def crash_env_def stop_broker_get)
qed

definition docs_of :: "topic_doc list \<Rightarrow> int \<Rightarrow> (string \<times> topic_partition list) option" where
  "docs_of lst = map_of (map (\<lambda>t. (docId t, docName t, docPartitions t)) lst)"

lemma docs_of_None: "docs_of lst k = None \<longleftrightarrow> k \<notin> docId ` set lst"
  by (simp add: docs_of_def map_of_eq_None_iff image_image)

lemma docs_of_Some: "distinct (map docId lst) \<Longrightarrow> docs_of lst (docId t) = Some (docName t, docPartitions t) \<longleftrightarrow> t \<in> set lst"
proof -
  assume "distinct (map docId lst)"
  then have keys: "distinct (map fst (map (\<lambda>t. (docId t, docName t, docPartitions t)) lst))" by (simp add: comp_def)
  have eq: "t = u" if "docId t = docId u" "docName t = docName u" "docPartitions t = docPartitions u" for u
    using that by (simp add: topic_doc.equality)
  show ?thesis unfolding docs_of_def map_of_eq_Some_iff [OF keys] by (auto simp: image_iff) (metis eq)
qed

text \<open>The next start reads the configuration the last one wrote.\<close>

lemma config_roundtrip:
  assumes "topic_coll_ok M docs" and "distinct (map docId lst)"
    and "\<And>k v m. fst (tUpdateOne M k v m)" and "dom (docs m) \<subseteq> docId ` set lst"
    and "Shutdown (Some M) lst b m = (e, b', m1)" and "InitConfig (Some M) [] m1 = (None, lst', m2)"
  shows "set lst' = set lst"
proof -
  have step: "docs (snd (UpdateTopic (Some M) t m)) = (docs m)(docId t \<mapsto> (docName t, docPartitions t))" for t m
    using assms(1,3) by (simp add: UpdateTopic_def topic_coll_ok_def split_beta)
  have "docs (fold (\<lambda>t m. snd (UpdateTopic (Some M) t m)) ts m) = docs m ++ docs_of ts" if "distinct (map docId ts)" for ts m
    using that
  proof (induction ts arbitrary: m)
    case (Cons t ts)
    then have "docs_of ts (docId t) = None" by (simp add: docs_of_None)
    with Cons show ?case by (auto simp: step docs_of_def map_add_def fun_eq_iff split: option.splits)
  qed (simp add: docs_of_def)
  then have m1: "docs m1 = docs m ++ docs_of lst" using assms(2,5) by (auto simp: Shutdown_def)
  have f: "fst (tFind M m1) = Some lst'"
    using assms(6) by (auto simp: InitConfig_def FetchAllTopics_def split: prod.splits option.splits)
  have "t \<in> set lst' \<longleftrightarrow> t \<in> set lst" for t
  proof -
    have "t \<in> set lst' \<longleftrightarrow> docs m1 (docId t) = Some (docName t, docPartitions t)"
      using assms(1) f by (cases t) (simp add: topic_coll_ok_def)
    also have "\<dots> \<longleftrightarrow> docs_of lst (docId t) = Some (docName t, docPartitions t)"
    proof (cases "docs_of lst (docId t)")
      case None
      with assms(4) have "docs m (docId t) = None" by (auto simp: docs_of_None)
      with None show ?thesis by (simp add: m1 map_add_def)
    qed (simp add: m1 map_add_def)
    also have "\<dots> \<longleftrightarrow> t \<in> set lst" by (rule docs_of_Some [OF assms(2)])
    finally show ?thesis .
  qed
  then show ?thesis by blast
qed

end
