(* ===== verification/Typing.thy ===== *)
theory Typing
  imports Restart
begin

text \<open>
  Well-typed nodes. A partition is well-typed at (topic, id) when it carries that topic and id, has an
  active segment, every segment pointer it holds is one of its segments, and every segment's file is
  named after its base offset; a node is, when its pool is and every partition is at its key. One lemma
  for each operation says that it keeps this, whatever the devices and the network answer, and creates no
  partition; another that it does not panic (\<open>panics\<close>) on a well-typed state.
\<close>

section \<open>Partitions\<close>

definition seg_wt :: "segment \<Rightarrow> bool" where
  "seg_wt s \<longleftrightarrow> Path s = fileName (BaseOffset s)"

definition part_wt :: "string \<Rightarrow> int \<Rightarrow> partition \<Rightarrow> bool" where
  "part_wt t i p \<longleftrightarrow> topicName p = t \<and> id_p p = i
     \<and> (\<exists>a. activeSegment p = Some a \<and> a < length (segs p))
     \<and> (\<forall>j \<in> set (closedSegments p). j < length (segs p)) \<and> (\<forall>s \<in> set (segs p). seg_wt s)"

lemma part_wt_active: "part_wt t i p \<Longrightarrow> activeSegment p = Some a \<Longrightarrow> a < length (segs p)"
  by (simp add: part_wt_def)

lemma part_wt_seg: "part_wt t i p \<Longrightarrow> j < length (segs p) \<Longrightarrow> seg_wt (segs p ! j)"
  by (simp add: part_wt_def)

text \<open>An operation that replaces one segment by another of the same file.\<close>

lemma part_wt_replace:
  assumes "part_wt t i p" and "seg_wt s"
    and "segs p' = (segs p)[a := s]" "activeSegment p' = activeSegment p"
    and "closedSegments p' = closedSegments p" "topicName p' = topicName p" "id_p p' = id_p p"
  shows "part_wt t i p'"
  using assms set_update_subset_insert [of "segs p" a s] by (auto simp: part_wt_def)

text \<open>An operation that leaves the segments alone.\<close>

lemma part_wt_other:
  assumes "part_wt t i p" and "segs p' = segs p" "activeSegment p' = activeSegment p"
    and "closedSegments p' = closedSegments p" "topicName p' = topicName p" "id_p p' = id_p p"
  shows "part_wt t i p'"
  using assms by (simp add: part_wt_def)

lemma Append_wt: "Append io off ts pl (f, s) = (r, f', s') \<Longrightarrow> seg_wt s \<Longrightarrow> seg_wt s'"
  by (auto simp: Append_def Let_def seg_wt_def split: if_splits write_result.splits)

lemma TruncateFrom_wt: "TruncateFrom io off (f, s) = (r, f', s') \<Longrightarrow> seg_wt s \<Longrightarrow> seg_wt s'"
  by (auto simp: TruncateFrom_def Let_def seg_wt_def split: if_splits option.splits)

lemma NewSegment_wt: "NewSegment io base d = (Inr s, d') \<Longrightarrow> seg_wt s"
  by (auto simp: NewSegment_def Let_def seg_wt_def recoverIndex_def sbind_Inr_conv split: if_splits sum.splits)

lemma seg_Close_wt [simp]: "seg_wt (seg_Close s) = seg_wt s"
  by (simp add: seg_Close_def seg_wt_def)

lemma append_active_wt:
  assumes "part_wt t i p" and "a < length (segs p)"
  shows "part_wt t i (snd (append_active io off ts pl a p))"
proof -
  obtain r f' s' where A: "Append io off ts pl (dir_get (files p) (Path (segs p ! a)), segs p ! a) = (r, f', s')"
    by (metis prod_cases3)
  from part_wt_replace [OF assms(1) Append_wt [OF A part_wt_seg [OF assms]], where a = a] A show ?thesis
    by (auto simp: append_active_def Let_def split: sum.splits)
qed

lemma rotate_wt:
  assumes "part_wt t i p" and "activeSegment p = Some a" and "rotate io off a p = (e, p')"
  shows "part_wt t i p'"
proof -
  have a: "a < length (segs p)" by (rule part_wt_active [OF assms(1,2)])
  show ?thesis
    using assms a by (auto simp: rotate_def Let_def part_wt_def less_Suc_eq dest!: NewSegment_wt split: prod.splits sum.splits)
qed

lemma appendLocked_wt:
  assumes "part_wt t i p"
  shows "part_wt t i (snd (appendLocked io off ts pl p))"
proof -
  obtain a where a: "activeSegment p = Some a" "a < length (segs p)" using assms by (auto simp: part_wt_def)
  obtain e p' where r: "rotate (rotateIO io) off a p = (e, p')" by (metis prod.collapse)
  note w = rotate_wt [OF assms a(1) r]
  then obtain a' where a': "activeSegment p' = Some a'" "a' < length (segs p')" by (auto simp: part_wt_def)
  show ?thesis
    using append_active_wt [OF assms a(2)] append_active_wt [OF w a'(2)] w a(1) a'(1) r
    by (auto simp: appendLocked_def split: option.splits)
qed


lemma AppendEntry_wt: "part_wt t i p \<Longrightarrow> part_wt t i (snd (AppendEntry io off ts pl p))"
  using appendLocked_wt [of t i p io off ts pl] by (auto simp: AppendEntry_def split: prod.splits option.splits)

lemma TryApplyPush_wt: "part_wt t i p \<Longrightarrow> part_wt t i (snd (TryApplyPush io off ts pl p))"
  using appendLocked_wt [of t i p io off ts pl] by (auto simp: TryApplyPush_def split: prod.splits option.splits)

lemma InvalidateOffset_wt:
  assumes "part_wt t i p"
  shows "part_wt t i (snd (InvalidateOffset io off p))"
proof -
  obtain a where a: "activeSegment p = Some a" "a < length (segs p)" using assms by (auto simp: part_wt_def)
  obtain r f' s' where T: "TruncateFrom io off (dir_get (files p) (Path (segs p ! a)), segs p ! a) = (r, f', s')"
    by (metis prod_cases3)
  from part_wt_replace [OF assms TruncateFrom_wt [OF T part_wt_seg [OF assms a(2)]], where a = a] assms a T show ?thesis
    by (auto simp: InvalidateOffset_def Let_def split: option.splits)
qed

lemma clean_loop_wt:
  "part_wt t i p \<Longrightarrow> \<forall>j \<in> set is \<union> set acc. j < length (segs p) \<Longrightarrow> clean_loop io c is p acc = (p', rest) \<Longrightarrow>
     part_wt t i p' \<and> length (segs p') = length (segs p) \<and> activeSegment p' = activeSegment p
       \<and> (\<forall>j \<in> set rest. j < length (segs p))"
proof (induction io c "is" p acc rule: clean_loop.induct)
  case (2 io c j js p acc)
  let ?p = "p\<lparr>segs := (segs p)[j := seg_Close (segs p ! j)]\<rparr>"
  have j: "j < length (segs p)" using 2(6) by simp
  have wt: "part_wt t i ?p" "part_wt t i (?p\<lparr>files := f\<rparr>)" for f
    using part_wt_replace [OF 2(5), of "seg_Close (segs p ! j)" _ j] part_wt_seg [OF 2(5) j] by simp_all
  show ?case
    using 2(1-4) [of "segs p ! j"] 2(5-7) wt by (auto simp: Let_def split: if_splits option.splits)
qed simp

lemma CleanOldMessages_wt: "part_wt t i p \<Longrightarrow> part_wt t i (snd (CleanOldMessages io now r p))"
proof -
  assume wt: "part_wt t i p"
  obtain p1 rest where c: "clean_loop io (now - r) (closedSegments p) p [] = (p1, rest)" by (metis prod.collapse)
  have "part_wt t i p1" "\<forall>j \<in> set rest. j < length (segs p1)"
    using clean_loop_wt [OF wt _ c] wt by (auto simp: part_wt_def)
  then have "part_wt t i (p1\<lparr>closedSegments := rest, baseOffset := o'\<rparr>)" "part_wt t i (p1\<lparr>closedSegments := rest\<rparr>)" for o'
    by (auto simp: part_wt_def)
  with c show ?thesis by (auto simp: CleanOldMessages_def Let_def split: list.splits option.splits)
qed

lemma part_wt_sync [simp]:
  "part_wt t i (ForceInSync p) = part_wt t i p" "part_wt t i (SetReplicas rs p) = part_wt t i p"
  "part_wt t i (SetReplicaInSync r s p) = part_wt t i p" "part_wt t i (snd (TryFinalizeInSync hw p)) = part_wt t i p"
  "part_wt t i (p\<lparr>pdone := d\<rparr>) = part_wt t i p"
  by (simp_all add: ForceInSync_def SetReplicas_def SetReplicaInSync_def TryFinalizeInSync_def part_wt_def)

lemma apply_entries_wt: "part_wt t i p \<Longrightarrow> part_wt t i (snd (apply_entries io ms p))"
proof (induction io ms p rule: apply_entries.induct)
  case (2 io m ms p)
  with AppendEntry_wt [OF 2(2), of io "Offset m" "Timestamp m" "Payload m"] show ?case
    by (auto split: prod.splits option.splits)
qed simp

lemma catch_up_loop_wt:
  "part_wt t i p \<Longrightarrow> catch_up_loop fuel io cancelled fetch n p = Some (e, p') \<Longrightarrow> part_wt t i p'"
proof (induction fuel arbitrary: n p)
  case (Suc fuel)
  from Suc(3) show ?case
  proof (cases "fetch n (GetNextOffset p)")
    case (Some resp)
    obtain e1 p1 where a: "apply_entries io (Entries resp) p = (e1, p1)" by (metis prod.collapse)
    obtain fin p2 where f: "TryFinalizeInSync (HighWatermark resp) p1 = (fin, p2)" by (metis prod.collapse)
    have w: "part_wt t i p1" using apply_entries_wt [OF Suc(2)] a by (metis snd_conv)
    then have "part_wt t i p2" using f by (metis part_wt_sync(4) snd_conv)
    with Suc a f w Some show ?thesis by (auto split: if_splits option.splits bool.splits)
  qed (use Suc in \<open>auto split: if_splits\<close>)
qed simp

text \<open>A partition whose recovery succeeded is well-typed.\<close>

lemma open_segments_wt:
  "open_segments io ns p = (e, p') \<Longrightarrow> \<forall>j \<in> set (closedSegments p). j < length (segs p) \<Longrightarrow> \<forall>s \<in> set (segs p). seg_wt s \<Longrightarrow>
     (\<forall>j \<in> set (closedSegments p'). j < length (segs p')) \<and> (\<forall>s \<in> set (segs p'). seg_wt s)
       \<and> topicName p' = topicName p \<and> id_p p' = id_p p \<and> activeSegment p' = activeSegment p"
proof (induction io ns p rule: open_segments.induct)
  case (2 io name names p)
  show ?case
  proof (cases "scan_fileName name")
    case None
    with 2(1,3-5) show ?thesis by simp
  next
    case (Some base)
    obtain r d where n: "NewSegment (io base) base (files p) = (r, d)" by (metis prod.collapse)
    show ?thesis
    proof (cases r)
      case (Inl x)
      with 2(3-5) Some n show ?thesis by auto
    next
      case (Inr s)
      have "seg_wt s" using NewSegment_wt n Inr by metis
      with 2(2) [OF Some n [symmetric]] 2(3-5) Some n Inr show ?thesis
        by (auto simp: less_Suc_eq)
    qed
  qed
qed simp

lemma recoverSegments_wt:
  assumes "recoverSegments io p = (None, p')" and "segs p = []" "closedSegments p = []" "topicName p = t" "id_p p = i"
  shows "part_wt t i p'"
proof -
  obtain p1 where o: "open_segments (segOpen io) (sort (filter has_log_suffix (map fst (files p)))) p = (None, p1)"
    using assms(1) by (auto simp: recoverSegments_def split: if_splits prod.splits option.splits)
  note w = open_segments_wt [OF o, unfolded assms(2-5), simplified]
  have q: "part_wt t i (p2\<lparr>baseOffset := x\<rparr>) = part_wt t i p2" for p2 x by (simp add: part_wt_def)
  show ?thesis
  proof (cases "closedSegments p1 = []")
    case False
    then have "last (closedSegments p1) \<in> set (closedSegments p1)" by simp
    then have "part_wt t i (p1\<lparr>activeSegment := Some (last (closedSegments p1)), closedSegments := butlast (closedSegments p1),
        nextOffset := NextOffset (segs p1 ! last (closedSegments p1))\<rparr>)"
      using w by (auto simp: part_wt_def dest: in_set_butlastD)
    with assms(1) o False q show ?thesis by (auto simp: recoverSegments_def Let_def split: if_splits)
  next
    case True
    obtain r d where n: "NewSegment (segOpen io (baseOffset p1)) (baseOffset p1) (files p1) = (r, d)" by (metis prod.collapse)
    with assms(1) o True obtain s where r: "r = Inr s"
      by (auto simp: recoverSegments_def split: if_splits sum.splits)
    have "seg_wt s" using NewSegment_wt n r by metis
    with w True have "part_wt t i (p1\<lparr>segs := segs p1 @ [s], activeSegment := Some (length (segs p1)), files := d,
        nextOffset := baseOffset p1\<rparr>)" by (auto simp: part_wt_def)
    with assms(1) o n r True q show ?thesis by (auto simp: recoverSegments_def split: if_splits)
  qed
qed

text \<open>A disk whose directories can be recovered.\<close>

definition recovers :: "disk_env \<Rightarrow> bool" where
  "recovers env \<longleftrightarrow> (\<forall>t i p. segs p = [] \<longrightarrow> closedSegments p = [] \<longrightarrow> files p = snd (env t i) \<longrightarrow> fst (recoverSegments (fst (env t i)) p) = None)"

lemma NewPartitionProcessor_wt:
  "recovers env \<Longrightarrow> part_wt t i (NewPartitionProcessor (fst (env t i)) dn i t off ret rs (snd (env t i)))"
proof -
  assume r: "recovers env"
  let ?p = "\<lparr>id_p = i, topicName = t, segs = [], activeSegment = None, closedSegments = [], baseOffset = off,
    nextOffset = off, ttl = ret, maxSegmentSize = 10 * 1024 * 1024, inSyncQuota = 0, replicas = rs,
    syncState = StateReplicating, state = PartitionActive, pdone = dn, files = snd (env t i)\<rparr>"
  have p: "segs ?p = []" "files ?p = snd (env t i)" "closedSegments ?p = []" "topicName ?p = t" "id_p ?p = i" by simp_all
  then have "recoverSegments (fst (env t i)) ?p = (None, snd (recoverSegments (fst (env t i)) ?p))"
    using r unfolding recovers_def by (metis prod.collapse)
  from recoverSegments_wt [OF this p(1,3-5)] show ?thesis by (simp add: NewPartitionProcessor_def)
qed

section \<open>No panic in a well-typed partition\<close>

fun panics :: "go_error \<Rightarrow> bool" where
  "panics EPanic = True"
| "panics (ELeaderCommit e) = panics e"
| "panics (ENoReplicationClient i e) = panics e"
| "panics (EFetchLog e) = panics e"
| "panics (EApplyFetched off e) = panics e"
| "panics e = False"

lemma file_ReadAt_err: "file_ReadAt fault f pos n = Inl e \<Longrightarrow> \<not> panics e"
  by (auto simp: file_ReadAt_def split: if_splits)

lemma recover_loop_err: "recover_loop fault f n pos idx nxt = Inl e \<Longrightarrow> \<not> panics e"
proof (induction fault f n pos idx nxt rule: recover_loop.induct)
  case (1 fault f n pos idx nxt)
  from 1(2) show ?case
    by (subst (asm) recover_loop.simps)
      (auto simp: Let_def split: if_splits sum.splits dest: file_ReadAt_err 1(1) [rotated -1])
qed

lemma NewSegment_err: "NewSegment io base d = (Inl e, d') \<Longrightarrow> \<not> panics e"
  by (auto simp: NewSegment_def Let_def recoverIndex_def split: if_splits sum.splits prod.splits elim!: sbind.elims dest: recover_loop_err)

lemma payload_no_overflow: "payload_ok pl \<Longrightarrow> \<not> unat (4 + of_nat (16 + length pl) :: u32) < 20"
  by (simp only: total_size_word not_less le_add1)

lemma Append_err: "Append io off ts pl (f, s) = (Inl e, f', s') \<Longrightarrow> payload_ok pl \<Longrightarrow> \<not> panics e"
  using payload_no_overflow [of pl] by (auto simp: Append_def Let_def split: if_splits write_result.splits)

lemma append_active_err: "append_active io off ts pl a p = (Some e, p') \<Longrightarrow> payload_ok pl \<Longrightarrow> \<not> panics e"
  by (auto simp: append_active_def Let_def split: prod.splits sum.splits dest: Append_err)

lemma appendLocked_err:
  assumes "part_wt t i p" and "payload_ok pl" and "appendLocked io off ts pl p = (Some e, p')"
  shows "\<not> panics e"
  using assms
  by (auto simp: appendLocked_def rotate_def Let_def part_wt_def split: if_splits prod.splits sum.splits option.splits
      dest: append_active_err NewSegment_err)

lemma AppendEntry_err:
  "part_wt t i p \<Longrightarrow> payload_ok pl \<Longrightarrow> AppendEntry io off ts pl p = ((n, Some e), p') \<Longrightarrow> \<not> panics e"
  by (auto simp: AppendEntry_def split: if_splits prod.splits option.splits dest: appendLocked_err)

lemma apply_entries_err:
  "part_wt t i p \<Longrightarrow> \<forall>m \<in> set ms. payload_ok (Payload m) \<Longrightarrow> apply_entries io ms p = (Some e, p') \<Longrightarrow> \<not> panics e"
proof (induction io ms p rule: apply_entries.induct)
  case (2 io m ms p)
  obtain n r q where a: "AppendEntry io (Offset m) (Timestamp m) (Payload m) p = ((n, r), q)" by (metis prod_cases3 prod.collapse)
  have "part_wt t i q" using AppendEntry_wt [OF 2(2)] a by (metis snd_conv)
  with 2 a show ?case by (auto split: option.splits dest: AppendEntry_err)
qed simp

definition fetched_ok :: "(nat \<Rightarrow> 'r \<Rightarrow> fetch_response option) \<Rightarrow> bool" where
  "fetched_ok fetch \<longleftrightarrow> (\<forall>n r resp. fetch n r = Some resp \<longrightarrow> (\<forall>m \<in> set (Entries resp). payload_ok (Payload m)))"

lemma catch_up_loop_err:
  "part_wt t i p \<Longrightarrow> fetched_ok fetch \<Longrightarrow> catch_up_loop fuel io cancelled fetch n p = Some (Some e, p') \<Longrightarrow> \<not> panics e"
proof (induction fuel arbitrary: n p)
  case (Suc fuel)
  show ?case
  proof (cases "fetch n (GetNextOffset p)")
    case (Some resp)
    obtain e1 p1 where a: "apply_entries io (Entries resp) p = (e1, p1)" by (metis prod.collapse)
    obtain fin p2 where f: "TryFinalizeInSync (HighWatermark resp) p1 = (fin, p2)" by (metis prod.collapse)
    have "part_wt t i p1" using apply_entries_wt [OF Suc(2)] a by (metis snd_conv)
    then have "part_wt t i p2" using f by (metis part_wt_sync(4) snd_conv)
    moreover have "\<not> panics x" if "e1 = Some x" for x
      using apply_entries_err [OF Suc(2) _ a [unfolded that]] Suc(3) Some by (auto simp: fetched_ok_def)
    ultimately show ?thesis using Suc a f Some by (auto split: if_splits option.splits bool.splits)
  qed (use Suc in \<open>auto split: if_splits\<close>)
qed simp

lemma InvalidateOffset_err: "InvalidateOffset io off p = (Some e, p') \<Longrightarrow> \<not> panics e"
  by (auto simp: InvalidateOffset_def TruncateFrom_def Let_def split: if_splits option.splits prod.splits)

lemma CleanOldMessages_err: "part_wt t i p \<Longrightarrow> fst (CleanOldMessages io now r p) = None"
proof -
  assume wt: "part_wt t i p"
  obtain p1 rest where c: "clean_loop io (now - r) (closedSegments p) p [] = (p1, rest)" by (metis prod.collapse)
  have "activeSegment p1 = activeSegment p" using clean_loop_wt [OF wt _ c] wt by (auto simp: part_wt_def)
  with wt c show ?thesis by (auto simp: CleanOldMessages_def Let_def part_wt_def split: list.splits)
qed

lemma StopAndRemove_err: "part_wt t i p \<Longrightarrow> StopAndRemove ok force p = (Some e, p') \<Longrightarrow> \<not> panics e"
  by (auto simp: StopAndRemove_def CloseAllSegments_def part_wt_def split: if_splits option.splits)

section \<open>Topics and the pool\<close>

text \<open>What every operation does on a topic and a pool: it keeps the types and creates no partition.\<close>

definition topic_wt :: "string \<Rightarrow> topic_processor \<Rightarrow> bool" where
  "topic_wt t tp \<longleftrightarrow> Name tp = t \<and> distinct (map fst (partitions tp))
     \<and> (\<forall>i p. map_of (partitions tp) i = Some p \<longrightarrow> part_wt t i p)"

definition pool_wt :: "pool \<Rightarrow> bool" where
  "pool_wt pl \<longleftrightarrow> pool_ok pl \<and> (\<forall>t tp. get_topic t pl = Some tp \<longrightarrow> topic_wt t tp)"

definition has_part :: "pool \<Rightarrow> string \<Rightarrow> int \<Rightarrow> bool" where
  "has_part pl t i \<longleftrightarrow> (case get_topic t pl of None \<Rightarrow> False | Some tp \<Rightarrow> map_of (partitions tp) i \<noteq> None)"

definition topic_kept :: "string \<Rightarrow> topic_processor \<Rightarrow> topic_processor \<Rightarrow> bool" where
  "topic_kept t tp tp' \<longleftrightarrow> topic_wt t tp' \<and> (\<forall>i. map_of (partitions tp) i = None \<longrightarrow> map_of (partitions tp') i = None)"

definition pool_kept :: "pool \<Rightarrow> pool \<Rightarrow> bool" where
  "pool_kept pl pl' \<longleftrightarrow> pool_wt pl' \<and> (\<forall>t i. has_part pl' t i \<longrightarrow> has_part pl t i)"

lemma topic_kept_refl [simp]: "topic_wt t tp \<Longrightarrow> topic_kept t tp tp" by (simp add: topic_kept_def)
lemma pool_kept_refl [simp]: "pool_wt pl \<Longrightarrow> pool_kept pl pl" by (simp add: pool_kept_def)
lemma pool_kept_trans: "pool_kept a b \<Longrightarrow> pool_kept b c \<Longrightarrow> pool_kept a c" by (auto simp: pool_kept_def)

lemma pool_wt_topic: "pool_wt pl \<Longrightarrow> GetTopicProcessor t pl = Inr tp \<Longrightarrow> topic_wt t tp"
  by (auto simp: pool_wt_def get_topic_def split: sum.splits)

lemma topic_wt_part: "topic_wt t tp \<Longrightarrow> GetPartition i tp = Inr p \<Longrightarrow> part_wt t i p"
  by (auto simp: topic_wt_def GetPartition_def split: option.splits)

lemma put_partition_kept:
  "topic_wt t tp \<Longrightarrow> GetPartition i tp = Inr p \<Longrightarrow> part_wt t i p' \<Longrightarrow> topic_kept t tp (put_partition i p' tp)"
  by (auto simp: topic_kept_def topic_wt_def put_partition_def GetPartition_def update_conv' distinct_update split: option.splits if_splits)

lemma put_topic_kept:
  assumes "pool_wt pl" and "GetTopicProcessor t pl = Inr tp" and "topic_kept t tp tp'"
  shows "pool_kept pl (put_topic t tp' pl)"
proof -
  have ok: "pool_ok pl" and g: "get_topic t pl = Some tp" using assms(1,2) by (auto simp: pool_wt_def get_topic_def)
  have st: "same_topic t tp tp'" using assms pool_wt_topic [OF assms(1,2)] by (simp add: same_topic_def topic_kept_def topic_wt_def)
  have ok': "pool_ok (put_topic t tp' pl)" by (rule topics.put_ok [OF ok g st])
  have get': "get_topic s (put_topic t tp' pl) = (if s = t then Some tp' else get_topic s pl)" for s
    by (rule topics.get_put [OF ok g st])
  show ?thesis
    using assms(1,3) ok' g by (auto simp: pool_kept_def pool_wt_def has_part_def get' topic_kept_def split: option.splits if_splits)
qed

lemma EnsurePartition_wt:
  assumes "topic_wt t tp" and "recovers env" and "EnsurePartition env part tp = ((p, created), tp')"
  shows "topic_wt t tp'" and "map_of (partitions tp') i = (if i = Id_tp part then Some p else map_of (partitions tp) i)"
proof -
  have "part_wt t (Id_tp part) (make_partition env tp part)"
    using assms(1) NewPartitionProcessor_wt [OF assms(2)] by (simp add: make_partition_def topic_wt_def)
  then show "topic_wt t tp'" "map_of (partitions tp') i = (if i = Id_tp part then Some p else map_of (partitions tp) i)"
    using assms(1,3)
    by (auto simp: EnsurePartition_def Let_def topic_wt_def put_partition_def update_conv' distinct_update split: option.splits if_splits)
qed

lemma DeletePartition_kept:
  "topic_wt t tp \<Longrightarrow> topic_kept t tp (fst (snd (DeletePartition ok i force tp)))"
  by (auto simp: topic_kept_def topic_wt_def DeletePartition_parts delete_conv' distinct_delete simp del: map_of_eq_Some_iff split: if_splits)

lemma DeletePartition_err:
  assumes "topic_wt t tp" and "DeletePartition ok i force tp = (Some e, r)"
  shows "\<not> panics e"
proof (cases "map_of (partitions tp) i")
  case (Some p)
  then have "part_wt t i (p\<lparr>state := PartitionStopping\<rparr>)" using assms(1) by (simp add: topic_wt_def part_wt_def)
  from StopAndRemove_err [OF this, of ok force e] assms(2) Some show ?thesis
    by (auto simp: DeletePartition_def split: prod.splits)
qed (use assms(2) in \<open>auto simp: DeletePartition_def\<close>)

text \<open>The replicated write.\<close>

lemma ReplicateAndAppend_kept:
  assumes "topic_wt t tp"
  shows "topic_kept t tp (fst (snd (ReplicateAndAppend net io now i pl tp w)))"
    and "payload_ok pl \<Longrightarrow> fst (ReplicateAndAppend net io now i pl tp w) = Inl e \<Longrightarrow> \<not> panics e"
proof -
  have c: "topic_kept t tp (fst (snd (produce_commit net io i off now pl pushed tp w1)))"
    "payload_ok pl \<Longrightarrow> fst (produce_commit net io i off now pl pushed tp w1) = Inl e \<Longrightarrow> \<not> panics e" for off pushed w1
  proof -
    have "topic_kept t tp (put_partition i q tp)" if "GetPartition i tp = Inr p" "AppendEntry io off now pl p = (r, q)" for p q r
      using put_partition_kept [OF assms that(1)] AppendEntry_wt [OF topic_wt_part [OF assms that(1)], of io off now pl] that(2) by simp
    then show "topic_kept t tp (fst (snd (produce_commit net io i off now pl pushed tp w1)))"
      using assms by (auto simp: produce_commit_def split: sum.splits prod.splits option.splits)
    show "\<not> panics e" if "payload_ok pl" "fst (produce_commit net io i off now pl pushed tp w1) = Inl e"
      using that AppendEntry_err topic_wt_part [OF assms]
      by (fastforce simp: produce_commit_def GetPartition_def split: sum.splits prod.splits option.splits)
  qed
  show "topic_kept t tp (fst (snd (ReplicateAndAppend net io now i pl tp w)))"
    using assms c(1) by (simp add: ReplicateAndAppend_def split: sum.splits prod.splits)
  show "\<not> panics e" if "payload_ok pl" "fst (ReplicateAndAppend net io now i pl tp w) = Inl e"
    using that c(2) by (fastforce simp: ReplicateAndAppend_def produce_prepare_def produce_replicate_def GetPartition_def
        split: sum.splits prod.splits option.splits if_splits)
qed

lemma GetTopicProcessor_err: "pool_wt pl \<Longrightarrow> GetTopicProcessor t pl = Inl e \<Longrightarrow> e = ETopicNotExist"
  by (auto simp: pool_wt_def GetTopicProcessor_get_topic split: option.splits)

lemma SendMessage_kept:
  assumes "pool_wt pl" and "SendMessage net io now t i msg pl w = (r, pl', w')"
  shows "pool_kept pl pl'" and "payload_ok msg \<Longrightarrow> r = Some e \<Longrightarrow> \<not> panics e"
proof -
  have "pool_kept pl pl' \<and> (payload_ok msg \<longrightarrow> r = Some e \<longrightarrow> \<not> panics e)"
  proof (cases "GetTopicProcessor t pl")
    case (Inl x)
    with assms GetTopicProcessor_err [OF assms(1) Inl] show ?thesis by (auto simp: SendMessage_def)
  next
    case (Inr tp)
    obtain x tp' w1 where ra: "ReplicateAndAppend net io now i msg tp w = (x, tp', w1)" by (metis prod_cases3)
    note k = ReplicateAndAppend_kept [OF pool_wt_topic [OF assms(1) Inr], where net = net and io = io and now = now
        and i = i and pl = msg and w = w, unfolded ra, simplified]
    from put_topic_kept [OF assms(1) Inr k(1)] k(2) assms(2) Inr ra show ?thesis
      by (auto simp: SendMessage_def split: sum.splits)
  qed
  then show "pool_kept pl pl'" "payload_ok msg \<Longrightarrow> r = Some e \<Longrightarrow> \<not> panics e" by blast+
qed

lemma RemoveTopic_kept:
  assumes "pool_wt pl" and "RemoveTopic t pl = (r, pl', old)"
  shows "pool_kept pl pl'" and "r = Some e \<Longrightarrow> \<not> panics e"
proof -
  have ok: "pool_ok pl" using assms(1) by (simp add: pool_wt_def)
  have r: "pool_ok pl'" "get_topic s pl' = (if s = t then None else get_topic s pl)" for s
    using RemoveTopic_ok [OF ok assms(2)] by simp_all
  with assms(1) show "pool_kept pl pl'"
    by (auto simp: pool_kept_def pool_wt_def has_part_def split: option.splits if_splits)
  show "\<not> panics e" if "r = Some e"
    using that assms(2) GetTopicProcessor_err [OF assms(1), of t]
    by (cases "GetTopicProcessor t pl") (auto simp: RemoveTopic_def Let_def)
qed

section \<open>The node\<close>

definition broker_wt :: "broker \<Rightarrow> bool" where
  "broker_wt b \<longleftrightarrow> pool_wt (bpool b)"

definition kept :: "broker \<Rightarrow> broker \<Rightarrow> bool" where
  "kept b b' \<longleftrightarrow> pool_kept (bpool b) (bpool b') \<and> bid b' = bid b"

lemma kept_refl [simp]: "broker_wt b \<Longrightarrow> kept b b" by (simp add: kept_def broker_wt_def)
lemma kept_trans: "kept a b \<Longrightarrow> kept b c \<Longrightarrow> kept a c" by (auto simp: kept_def intro: pool_kept_trans)
lemma kept_wt: "kept b b' \<Longrightarrow> broker_wt b'" by (simp add: kept_def broker_wt_def pool_kept_def)
lemma kept_pool: "broker_wt b \<Longrightarrow> bpool b' = bpool b \<Longrightarrow> bid b' = bid b \<Longrightarrow> kept b b'"
  by (simp add: kept_def broker_wt_def)

lemma broker_wt_ok: "broker_wt b \<Longrightarrow> broker_ok b" by (simp add: broker_wt_def pool_wt_def broker_ok_def)

lemma has_part_local: "broker_ok b \<Longrightarrow> has_part (bpool b) t i \<longleftrightarrow> get_local (t, i) b \<noteq> None"
  by (simp add: has_part_def get_local_topic split: option.split)

lemma local_wt: "broker_wt b \<Longrightarrow> local_partition t i b = Inr p \<Longrightarrow> part_wt t i p"
  by (auto simp: broker_wt_def local_partition_def sbind_Inr_conv intro: topic_wt_part pool_wt_topic)

lemma local_partition_err: "broker_wt b \<Longrightarrow> local_partition t i b = Inl e \<Longrightarrow> \<not> panics e"
  by (auto simp: broker_wt_def local_partition_def GetPartition_def elim!: sbind.elims dest: GetTopicProcessor_err split: option.splits)

lemma put_local_kept:
  assumes "broker_wt b" and "local_partition t i b = Inr p" and "part_wt t i p'"
  shows "kept b (put_local t i p' b)"
proof -
  obtain tp where tp: "GetTopicProcessor t (bpool b) = Inr tp" "GetPartition i tp = Inr p"
    using assms(2) by (auto simp: local_partition_def sbind_Inr_conv)
  have pl: "pool_wt (bpool b)" using assms(1) by (simp add: broker_wt_def)
  from put_topic_kept [OF pl tp(1) put_partition_kept [OF pool_wt_topic [OF pl tp(1)] tp(2) assms(3)]] tp(1)
  show ?thesis by (simp add: kept_def put_local_def)
qed

lemma ReplicationLogHandler_kept: "broker_wt b \<Longrightarrow> kept b (snd (ReplicationLogHandler io req b))"
proof -
  assume b: "broker_wt b"
  show ?thesis
  proof (cases "local_partition (arTopicName req) (uint (arPartitionId req)) b")
    case (Inr p)
    from put_local_kept [OF b Inr TryApplyPush_wt [OF local_wt [OF b Inr]]] Inr show ?thesis
      by (simp add: ReplicationLogHandler_def split_beta)
  qed (use b in \<open>simp add: ReplicationLogHandler_def\<close>)
qed

lemma InvalidateLogHandler_kept: "broker_wt b \<Longrightarrow> kept b (snd (InvalidateLogHandler io req b))"
proof -
  assume b: "broker_wt b"
  show ?thesis
  proof (cases "local_partition (irTopicName req) (uint (irPartitionId req)) b")
    case (Inl e)
    with b show ?thesis by (auto simp: InvalidateLogHandler_def local_partition_def split: sum.splits)
  next
    case (Inr p)
    obtain tp where tp: "GetTopicProcessor (irTopicName req) (bpool b) = Inr tp" "GetPartition (uint (irPartitionId req)) tp = Inr p"
      using Inr by (auto simp: local_partition_def sbind_Inr_conv)
    obtain e p' where i: "InvalidateOffset io (irTargetOffset req) p = (e, p')" by (metis prod.collapse)
    have "kept b (put_local (irTopicName req) (uint (irPartitionId req)) p' b)"
      using put_local_kept [OF b Inr] InvalidateOffset_wt [OF local_wt [OF b Inr]] i by (metis snd_conv)
    with tp i show ?thesis by (cases e) (simp_all add: InvalidateLogHandler_def)
  qed
qed

lemma CatchUpPartition_kept:
  assumes "broker_wt b" and "CatchUpPartition fuel io cancelled fetch t i leader b = Some (e, b')"
  shows "kept b b'" and "fetched_ok fetch \<Longrightarrow> e = Some x \<Longrightarrow> \<not> panics x"
proof -
  have "kept b b' \<and> (fetched_ok fetch \<longrightarrow> e = Some x \<longrightarrow> \<not> panics x)"
  proof (cases "local_partition t i b")
    case (Inl y)
    with assms local_partition_err [OF assms(1) Inl] show ?thesis by (auto simp: CatchUpPartition_def)
  next
    case (Inr p)
    note w = local_wt [OF assms(1) Inr]
    let ?f = "\<lambda>n off. fetch n (fetch_req t i off)"
    have f: "fetched_ok ?f" if "fetched_ok fetch" using that by (auto simp: fetched_ok_def)
    from assms(2) Inr show ?thesis
      using put_local_kept [OF assms(1) Inr catch_up_loop_wt [OF w]] catch_up_loop_err [OF w f] assms(1)
      by (auto simp: CatchUpPartition_def split: if_splits option.splits)
  qed
  then show "kept b b'" "fetched_ok fetch \<Longrightarrow> e = Some x \<Longrightarrow> \<not> panics x" by blast+
qed

lemma restore_loop_kept:
  "broker_wt b \<Longrightarrow> restore_loop (CatchUpPartition fuel io cancelled fetch) fallback xs b = Some (e, b') \<Longrightarrow> kept b b'"
proof (induction "CatchUpPartition fuel io cancelled fetch" fallback xs b rule: restore_loop.induct)
  case (2 fallback topic partID xs b)
  let ?leader = "case GetPartitionLeader topic partID b of None \<Rightarrow> fallback | Some l \<Rightarrow> if l = 0 then fallback else l"
  show ?case
  proof (cases "?leader = 0 \<or> ?leader = Broker.GetNodeId b")
    case True
    with 2 show ?thesis by (simp add: Let_def)
  next
    case False
    then obtain r b1 where c: "CatchUpPartition fuel io cancelled fetch topic partID ?leader b = Some (r, b1)"
      using 2(4) by (auto simp: Let_def split: option.splits prod.splits)
    note k = CatchUpPartition_kept(1) [OF 2(3) c]
    show ?thesis
    proof (cases r)
      case None
      have "kept b1 b'"
        using 2(2) [OF refl False c refl None kept_wt [OF k]] 2(4) False c None by (simp add: Let_def)
      with kept_trans [OF k] show ?thesis by blast
    next
      case (Some y)
      with 2(4) False c k show ?thesis by (auto simp: Let_def)
    qed
  qed
qed simp

lemma clear_own_leader_pool [simp]: "bpool (clear_own_leader t i b) = bpool b" "bid (clear_own_leader t i b) = bid b"
  by (simp_all add: clear_own_leader_def DeletePartitionLeader_def split: option.split)

lemma fold_clear_pool [simp]:
  "bpool (fold (\<lambda>i. clear_own_leader t (int i)) is b) = bpool b" "bid (fold (\<lambda>i. clear_own_leader t (int i)) is b) = bid b"
  by (induction "is" arbitrary: b) simp_all

lemma DeleteTopicPartition_kept:
  assumes "broker_wt b" and "DeleteTopicPartition ok entry b = (e, b')"
  shows "kept b b'" and "e = Some x \<Longrightarrow> \<not> panics x"
proof -
  let ?t = "TopicName_de entry"
  have pl: "pool_wt (bpool b)" using assms(1) by (simp add: broker_wt_def)
  have "kept b b' \<and> (e = Some x \<longrightarrow> \<not> panics x)"
  proof (cases "GetTopicProcessor ?t (bpool b)")
    case (Inl y)
    with assms GetTopicProcessor_err [OF pl Inl] show ?thesis
      by (auto simp: DeleteTopicPartition_def split: option.splits if_splits)
  next
    case (Inr tp)
    note tw = pool_wt_topic [OF pl Inr]
    obtain r pl1 old where rm: "RemoveTopic ?t (bpool b) = (r, pl1, old)" by (metis prod_cases3)
    note k = RemoveTopic_kept [OF pl rm]
    obtain d tp' p where dp: "DeletePartition ok (PartitionId_de entry) (Force entry) tp = (d, tp', p)" by (metis prod_cases3)
    have "pool_kept (bpool b) (put_topic ?t tp' (bpool b))"
      using put_topic_kept [OF pl Inr] DeletePartition_kept [OF tw] dp by (metis fst_conv snd_conv)
    with assms Inr rm k dp pool_kept_refl [OF pl] DeletePartition_err [OF tw, of ok "PartitionId_de entry" "Force entry"] show ?thesis
      by (auto simp: DeleteTopicPartition_def kept_def Let_def split: option.splits if_splits prod.splits)
  qed
  then show "kept b b'" "e = Some x \<Longrightarrow> \<not> panics x" by blast+
qed

lemma MarkPartitionReplicaInSync_kept: "broker_wt b \<Longrightarrow> kept b (MarkPartitionReplicaInSync t i r b)"
  using put_local_kept [of b t i] local_wt [of b t i] by (auto simp: MarkPartitionReplicaInSync_def split: sum.split)

text \<open>The data plane.\<close>

definition quiet :: "responder \<Rightarrow> bool" where
  "quiet respond \<longleftrightarrow> (\<forall>r e. respond r = Some e \<longrightarrow> \<not> panics e)"

lemma producerHandler_kept:
  assumes "broker_wt b" and "producerHandler net io now respond body b w = ((e, rs), b', w')"
  shows "kept b b'" and "quiet respond \<Longrightarrow> payload_ok (ppMsg body) \<Longrightarrow> e = Some x \<Longrightarrow> \<not> panics x"
proof -
  have pl: "pool_wt (bpool b)" using assms(1) by (simp add: broker_wt_def)
  obtain r pl1 w1 where s: "SendMessage net io now (ppTopicName body) (ppPartitionId body) (ppMsg body) (bpool b) w = (r, pl1, w1)"
    by (metis prod_cases3)
  note k = SendMessage_kept [OF pl s]
  show "kept b b'"
    using assms k(1) s pool_kept_refl [OF pl] by (auto simp: producerHandler_def kept_def Let_def split: if_splits option.splits)
  show "\<not> panics x" if "quiet respond" "payload_ok (ppMsg body)" "e = Some x"
    using that assms(2) k(2) s by (auto simp: producerHandler_def quiet_def Let_def split: if_splits option.splits)
qed

lemma consume_stream_err: "quiet respond \<Longrightarrow> fst (consume_stream respond es) = Some x \<Longrightarrow> \<not> panics x"
  by (induction respond es rule: consume_stream.induct) (auto simp: quiet_def split: option.splits prod.splits)

lemma consumerHandler_err:
  assumes "broker_wt b" and "quiet respond" and "consumerHandler fault respond events body b = (Some x, rs)"
  shows "\<not> panics x"
proof -
  have q: "respond r = Some y \<Longrightarrow> \<not> panics y" for r y using assms(2) by (simp add: quiet_def)
  let ?read = "ReadMessages fault (cpTopicName body) (cpPartitionID body) (start_spec (cpStart body)) (fin_spec (cpFin body)) (bpool b)"
  show ?thesis
  proof (cases ?read)
    case (Inl e)
    have "\<not> panics e"
      using Inl assms(1) GetTopicProcessor_err [of "bpool b" "cpTopicName body"]
      by (cases "GetTopicProcessor (cpTopicName body) (bpool b)")
        (auto simp: ReadMessages_def readFrom_def GetPartition_def broker_wt_def Let_def split: option.splits if_splits prod.splits)
    with assms(3) Inl q show ?thesis by (auto simp: consumerHandler_def Let_def split: if_splits)
  next
    case (Inr res)
    obtain ms c where res: "res = (ms, c)" by (cases res)
    show ?thesis
    proof (cases c)
      case None
      with assms(3) Inr res q show ?thesis by (auto simp: consumerHandler_def Let_def split: if_splits option.splits)
    next
      case (Some off)
      with assms(3) Inr res q consume_stream_err [OF assms(2), of "events off"] show ?thesis
        by (auto simp: consumerHandler_def Let_def split: if_splits option.splits prod.splits)
    qed
  qed
qed

definition decodes_ok :: "codec \<Rightarrow> bool" where
  "decodes_ok cd \<longleftrightarrow> (\<forall>body r. decodeProduce cd body = Some r \<longrightarrow> payload_ok (ppMsg r))"

lemma HandleCommand_kept:
  assumes "broker_wt b" and "HandleCommand net io now fault respond events cd command body b w = ((e, rs), b', w')"
  shows "kept b b'" and "quiet respond \<Longrightarrow> decodes_ok cd \<Longrightarrow> e = Some x \<Longrightarrow> \<not> panics x"
proof -
  show "kept b b'"
    using assms producerHandler_kept(1) [OF assms(1)] by (auto simp: HandleCommand_def split: if_splits option.splits)
  show "\<not> panics x" if "quiet respond" "decodes_ok cd" "e = Some x"
  proof -
    have "\<not> panics x" if "producerHandler net io now respond r b w = ((Some x, rs), b', w')" "payload_ok (ppMsg r)" for r
      by (rule producerHandler_kept(2) [OF assms(1) that(1) \<open>quiet respond\<close> that(2) refl])
    with that assms(2) consumerHandler_err [OF assms(1) that(1)] show ?thesis
      by (auto simp: HandleCommand_def decodes_ok_def quiet_def split: if_splits option.splits)
  qed
qed

end
