(* ===== verification/NodeSteps.thy ===== *)
theory NodeSteps
  imports Typing
begin

text \<open>
  The life of one node: the handlers of the broker as steps \<open>node_step\<close> on the node and its manifest, the
  invariants of every state they reach, and what a crash and a restart do to such a node.
\<close>

section \<open>The steps of a node\<close>

text \<open>
  One step per handler, on the node and the manifest \<open>m\<close>: the data plane over TCP and HTTP, the
  replication service, catch-up, creation and deletion of partitions, the calls by which the coordinator
  applies an assignment (\<open>SetReplicas\<close>, \<open>ForceInSync\<close>, the leader map), the retention worker, and
  the epoch, role and peers. Devices, clocks, requests and the network are any; a partition is
  created on a disk it can recover, and the database takes its record.
\<close>

inductive node_step :: "'m mongo \<Rightarrow> broker \<times> 'm \<Rightarrow> broker \<times> 'm \<Rightarrow> bool" for M where
  created: "recovers env \<Longrightarrow> created \<longrightarrow> fst (mUpdateOne M (bid b, t, Id_tp part) (Retention part) m) \<Longrightarrow>
    ensure_recorded (Some M) env t part b m = ((p, created), b', m') \<Longrightarrow> node_step M (b, m) (b', m')"
| command: "HandleCommand (net :: world cluster_net) io now fault respond events cd cmd body b w = (r, b', w') \<Longrightarrow>
    node_step M (b, m) (b', m)"
| produce: "producerHandler (net :: world cluster_net) io now respond body b w = (r, b', w') \<Longrightarrow> node_step M (b, m) (b', m)"
| push: "node_step M (b, m) (snd (ReplicationLogHandler io req b), m)"
| rollback: "node_step M (b, m) (snd (InvalidateLogHandler tio ireq b), m)"
| catch_up: "CatchUpPartition fuel io cancelled fetch t i leader b = Some (e, b') \<Longrightarrow> node_step M (b, m) (b', m)"
| restore: "RestoreData (CatchUpPartition fuel io cancelled fetch) leader b = Some (e, b') \<Longrightarrow> node_step M (b, m) (b', m)"
| deleted: "DeleteTopicPartition ok entry b = (e, b') \<Longrightarrow> node_step M (b, m) (b', m)"
| assigned: "local_partition t i b = Inr p \<Longrightarrow> node_step M (b, m) (put_local t i (SetReplicas rs p) b, m)"
| forced: "local_partition t i b = Inr p \<Longrightarrow> node_step M (b, m) (put_local t i (ForceInSync p) b, m)"
| promoted: "local_partition t i b = Inr p \<Longrightarrow> node_step M (b, m) (put_local t i (ForceInSync (SetReplicas rs p)) b, m)"
| marked: "node_step M (b, m) (MarkPartitionReplicaInSync t i k b, m)"
| cleaned: "local_partition t i b = Inr p \<Longrightarrow> node_step M (b, m) (put_local t i (snd (CleanOldMessages cio clock ret p)) b, m)"
| led: "node_step M (b, m) (SetPartitionLeader t i l b, m)"
| unled: "node_step M (b, m) (DeletePartitionLeader t i b, m)"
| epoch: "node_step M (b, m) (SetEpoch num b, m)"
| controller: "node_step M (b, m) (ToController b, m)"
| follower: "node_step M (b, m) (ToFollower b, m)"
| add_peers: "node_step M (b, m) (AddPeers ps b, m)"
| remove_peer: "node_step M (b, m) (RemovePeer k b, m)"

inductive_cases node_stepE: "node_step M (b, m) (b', m')"

lemma AddPeers_pool: "bpool (AddPeers ps b) = bpool b" "bid (AddPeers ps b) = bid b"
proof -
  have "bpool (AddPeers ps b) = bpool b \<and> bid (AddPeers ps b) = bid b"
    by (induction ps arbitrary: b) (auto simp: AddPeers_def split: option.split)
  then show "bpool (AddPeers ps b) = bpool b" "bid (AddPeers ps b) = bid b" by blast+
qed

text \<open>Every step but a creation keeps types and manifest and brings no partition.\<close>

lemmas kept_rules = HandleCommand_kept(1) producerHandler_kept(1) ReplicationLogHandler_kept InvalidateLogHandler_kept
  CatchUpPartition_kept(1) restore_loop_kept DeleteTopicPartition_kept(1) MarkPartitionReplicaInSync_kept

lemma step_kept:
  assumes "node_step M (b, m) (b', m')" and "broker_wt b"
  shows "(kept b b' \<and> m' = m) \<or> (\<exists>env created t part p. recovers env
      \<and> (created \<longrightarrow> fst (mUpdateOne M (bid b, t, Id_tp part) (Retention part) m))
      \<and> ensure_recorded (Some M) env t part b m = ((p, created), b', m'))"
  using assms(1)
proof (cases rule: node_step.cases)
  case created
  then show ?thesis by blast
next
  case (assigned t i p rs)
  with put_local_kept [OF assms(2) assigned(3), of "SetReplicas rs p"] local_wt [OF assms(2) assigned(3)] show ?thesis by simp
next
  case (forced t i p)
  with put_local_kept [OF assms(2) forced(3), of "ForceInSync p"] local_wt [OF assms(2) forced(3)] show ?thesis by simp
next
  case (promoted t i p rs)
  with put_local_kept [OF assms(2) promoted(3), of "ForceInSync (SetReplicas rs p)"] local_wt [OF assms(2) promoted(3)]
  show ?thesis by simp
next
  case (cleaned t i p cio clock ret)
  with put_local_kept [OF assms(2) cleaned(3) CleanOldMessages_wt [OF local_wt [OF assms(2) cleaned(3)]]] show ?thesis by simp
qed (use assms(2) in \<open>auto intro: kept_rules kept_pool
      simp: SetPartitionLeader_def DeletePartitionLeader_def SetEpoch_def ToController_def ToFollower_def
        AddPeers_pool RemovePeer_def RestoreData_def\<close>)

lemma EnsureLocalPartition_wt:
  assumes "broker_wt b" and "recovers env" and "EnsureLocalPartition env t part b = (r, b')"
  shows "broker_wt b'"
proof -
  obtain tp pl where e: "EnsureTopic env t [] (bpool b) = (tp, pl)" by (cases "EnsureTopic env t [] (bpool b)")
  obtain p created tp' where e': "EnsurePartition env part tp = ((p, created), tp')" by (metis prod_cases3 prod.collapse)
  have b': "bpool b' = put_topic t tp' pl" using assms(3) e e' by (auto simp: EnsureLocalPartition_def)
  have w: "pool_ok (bpool b)" "\<And>s u. get_topic s (bpool b) = Some u \<Longrightarrow> topic_wt s u"
    using assms(1) by (simp_all add: broker_wt_def pool_wt_def)
  have g: "pool_ok pl" "get_topic t pl = Some tp" "\<And>s. s \<noteq> t \<Longrightarrow> get_topic s pl = get_topic s (bpool b)"
    using EnsureTopic_get [OF w(1) e] by auto
  obtain i where "map_of (topicProcessor pl) t = Some i" "processors pl ! i = Some tp"
    using g(1,2) by (auto simp: get_topic_conv)
  then have "Name tp = t \<and> distinct (map fst (partitions tp))" using pool_okD(2) [OF g(1), of t i] by auto
  then have "topic_wt t tp"
    using EnsureTopic_partitions [OF w(1) e] w(2) [of t] by (auto simp: topic_wt_def simp del: map_of_eq_Some_iff split: option.splits)
  note tp' = EnsurePartition_wt(1) [OF this assms(2) e']
  then have st: "same_topic t tp tp'" using \<open>topic_wt t tp\<close> by (simp add: same_topic_def topic_wt_def)
  have get': "get_topic s (bpool b') = (if s = t then Some tp' else get_topic s pl)" for s
    unfolding b' by (rule topics.get_put [OF g(1,2) st])
  have "topic_wt s u" if "get_topic s (bpool b') = Some u" for s u
    using that tp' g(3) [of s] w(2) [of s u] unfolding get' by (cases "s = t") auto
  moreover have "pool_ok (bpool b')" unfolding b' by (rule topics.put_ok [OF g(1,2) st])
  ultimately show ?thesis by (simp add: broker_wt_def pool_wt_def)
qed

lemma NewBroker_wt: "broker_wt (NewBroker i d)" "bid (NewBroker i d) = i" "get_local k (NewBroker i d) = None"
  by (simp_all add: broker_wt_def pool_wt_def NewBroker_def NewProcessorPool_def pool_ok_def get_topic_def GetTopicProcessor_def
      get_local_def local_partition_def)

lemma step_wt:
  assumes "node_step M (b, m) (b', m')" and "broker_wt b"
  shows "broker_wt b' \<and> bid b' = bid b"
  using step_kept [OF assms]
proof (elim disjE conjE exE)
  assume "kept b b'"
  then show ?thesis using kept_wt by (auto simp: kept_def)
next
  fix env created t part p
  assume "recovers env" and "ensure_recorded (Some M) env t part b m = ((p, created), b', m')"
  then have e: "EnsureLocalPartition env t part b = ((p, created), b')" by (auto simp: ensure_recorded_def split: prod.splits)
  show ?thesis
    using EnsureLocalPartition_wt [OF assms(2) \<open>recovers env\<close> e] EnsureLocalPartition_get(5) [OF broker_wt_ok [OF assms(2)] e] by simp
qed

lemma step_recorded:
  assumes "node_step M (b, m) (b', m')" and "broker_wt b" and "mongo_ok M docs" and "recorded docs b m"
  shows "recorded docs b' m'"
  using step_kept [OF assms(1,2)]
proof (elim disjE conjE exE)
  assume k: "kept b b'" and "m' = m"
  have "get_local (t, i) b' \<noteq> None \<longrightarrow> get_local (t, i) b \<noteq> None" for t i
    using k has_part_local [OF broker_wt_ok [OF assms(2)], of t i] has_part_local [OF broker_wt_ok [OF kept_wt [OF k]], of t i]
    by (auto simp: kept_def pool_kept_def)
  with assms(4) k \<open>m' = m\<close> show ?thesis by (auto simp: recorded_def kept_def)
next
  fix env created t part p
  assume "recovers env" "created \<longrightarrow> fst (mUpdateOne M (bid b, t, Id_tp part) (Retention part) m)"
    "ensure_recorded (Some M) env t part b m = ((p, created), b', m')"
  with ensure_keeps_recorded [OF assms(3) broker_wt_ok [OF assms(2)] assms(4)] show ?thesis by blast
qed

text \<open>What holds of a node in any state its handlers bring it to.\<close>

lemma runs_wt:
  assumes "(node_step M)\<^sup>*\<^sup>* (NewBroker i d, m0) (b, m)"
  shows "broker_wt b" and "bid b = i"
proof -
  have "broker_wt (fst s) \<and> bid (fst s) = i" if "(node_step M)\<^sup>*\<^sup>* (NewBroker i d, m0) s" for s
    using that
  proof induction
    case (step s s')
    then show ?case using step_wt [of M "fst s" "snd s" "fst s'" "snd s'"] by simp
  qed (simp add: NewBroker_wt)
  from this [OF assms] show "broker_wt b" "bid b = i" by simp_all
qed

lemma runs_recorded:
  assumes "(node_step M)\<^sup>*\<^sup>* (NewBroker i d, m0) (b, m)" and "mongo_ok M docs"
  shows "recorded docs b m"
proof -
  have "broker_wt (fst s) \<and> recorded docs (fst s) (snd s)" if "(node_step M)\<^sup>*\<^sup>* (NewBroker i d, m0) s" for s
    using that
  proof induction
    case (step s s')
    then show ?case
      using step_wt [of M "fst s" "snd s" "fst s'" "snd s'"] step_recorded [of M "fst s" "snd s" "fst s'" "snd s'" docs] assms(2) by simp
  qed (simp add: NewBroker_wt recorded_def)
  from this [OF assms(1)] show ?thesis by simp
qed

section \<open>The coordinator acts through these steps\<close>

text \<open>Applying the parameters of a topic, from a watch event or at the start of the watch, is a run of steps.\<close>

lemma apply_partition_steps:
  assumes "recovers env" and "\<And>k ret m. fst (mUpdateOne M k ret m)" and "broker_wt (cbroker n)"
  shows "\<exists>m'. (node_step M)\<^sup>*\<^sup>* (cbroker n, m) (cbroker (snd (apply_partition env ra t part n)), m')"
proof -
  let ?i = "PartitionId part"
  let ?b1 = "SetPartitionLeader t ?i (LeaderNodeId part) (cbroker n)"
  have s1: "(node_step M)\<^sup>*\<^sup>* (cbroker n, m) (?b1, m)" by (rule r_into_rtranclp) (rule node_step.led)
  show ?thesis
  proof (cases "ContainsNode part (nodeID n)")
    case False
    have "node_step M (?b1, m) (snd (DeleteTopicPartition ra (unassigned_entry t ?i) ?b1), m)"
      by (rule node_step.deleted) (rule prod.collapse [symmetric])
    with s1 False show ?thesis by (auto simp: apply_partition_def Let_def intro: rtranclp.rtrancl_into_rtrancl)
  next
    case True
    obtain pp created b2 where e: "EnsureLocalPartition env t (local_part part) ?b1 = ((pp, created), b2)" by (metis prod.collapse)
    obtain m2 where r: "ensure_recorded (Some M) env t (local_part part) ?b1 m = ((pp, created), b2, m2)"
      using e by (simp add: ensure_recorded_def)
    have "node_step M (?b1, m) (b2, m2)" by (rule node_step.created [OF assms(1) _ r]) (simp add: assms(2))
    with s1 have s2: "(node_step M)\<^sup>*\<^sup>* (cbroker n, m) (b2, m2)" by (rule rtranclp.rtrancl_into_rtrancl)
    have ok: "broker_ok ?b1" using broker_wt_ok [OF assms(3)] by simp
    have l: "local_partition t ?i b2 = Inr pp"
      using EnsureLocalPartition_get(2) [OF ok e, of "(t, ?i)"] by (simp add: local_partition_get local_part_def)
    let ?put = "\<lambda>p. put_local t ?i p b2" and ?rs = "part_replicas part"
    have a: "(node_step M)\<^sup>*\<^sup>* (cbroker n, m) (?put (SetReplicas ?rs pp), m2)"
      using s2 by (rule rtranclp.rtrancl_into_rtrancl) (rule node_step.assigned [OF l])
    have f: "(node_step M)\<^sup>*\<^sup>* (cbroker n, m) (?put (ForceInSync (SetReplicas ?rs pp)), m2)"
      using s2 by (rule rtranclp.rtrancl_into_rtrancl) (rule node_step.promoted [OF l])
    then have "(node_step M)\<^sup>*\<^sup>* (cbroker n, m)
        (MarkPartitionReplicaInSync t ?i (nodeID n) (?put (ForceInSync (SetReplicas ?rs pp))), m2)"
      by (rule rtranclp.rtrancl_into_rtrancl) (rule node_step.marked)
    with a f True e show ?thesis by (auto simp: apply_partition_def startCatchUp_def Let_def)
  qed
qed

lemma steps_wt:
  assumes "(node_step M)\<^sup>*\<^sup>* (b, m) (b', m')" and "broker_wt b"
  shows "broker_wt b'"
proof -
  have "broker_wt (fst s)" if "(node_step M)\<^sup>*\<^sup>* (b, m) s" for s
    using that
  proof induction
    case (step s s')
    then show ?case using step_wt [of M "fst s" "snd s" "fst s'" "snd s'"] by simp
  qed (simp add: assms(2))
  from this [OF assms(1)] show ?thesis by simp
qed

lemma apply_partitions_steps:
  assumes "recovers env" and "\<And>k ret m. fst (mUpdateOne M k ret m)" and "broker_wt (cbroker n)"
  shows "\<exists>m'. (node_step M)\<^sup>*\<^sup>* (cbroker n, m) (cbroker (snd (apply_partitions env ra t parts n)), m')"
  using assms(3)
proof (induction parts arbitrary: n m)
  case (Cons part parts)
  obtain jobs n1 where n1: "apply_partition env ra t part n = (jobs, n1)" by (metis prod.collapse)
  obtain m1 where s1: "(node_step M)\<^sup>*\<^sup>* (cbroker n, m) (cbroker n1, m1)"
    using apply_partition_steps [OF assms(1,2) Cons.prems, of m ra t part] n1 by auto
  obtain m2 where "(node_step M)\<^sup>*\<^sup>* (cbroker n1, m1) (cbroker (snd (apply_partitions env ra t parts n1)), m2)"
    using Cons.IH [OF steps_wt [OF s1 Cons.prems]] by blast
  from rtranclp_trans [OF s1 this] n1 show ?case by (auto split: prod.splits)
qed auto

lemma watch_topic_event_steps:
  assumes "recovers env" and "\<And>k ret m. fst (mUpdateOne M k ret m)" and "broker_wt (cbroker n)"
  shows "\<exists>m'. (node_step M)\<^sup>*\<^sup>* (cbroker n, m) (cbroker (snd (watch_topic_event env ra ev n)), m')"
proof (cases ev)
  case (WatchPut key v)
  with apply_partitions_steps [OF assms] show ?thesis
    by (auto simp: watch_topic_event_def apply_topic_value_def applyTopicParams_def split: option.split)
next
  case (WatchDelete key old)
  have "node_step M (cbroker n, m) (snd (DeleteTopicPartition ra entry (cbroker n)), m)" for entry
    by (rule node_step.deleted) (rule prod.collapse [symmetric])
  with WatchDelete show ?thesis by (auto simp: watch_topic_event_def applyTopicDelete_def)
qed

section \<open>Properties\<close>


text \<open>C4. A restart brings the node back. A node runs any sequence of its handlers, the database taking the record of
  every partition it creates; it crashes, leaving in each partition's directory any byte prefix of
  the active segment, and starts again. Then it has every partition it had: where a partition represented
  a log, it represents that log again up to records of the active segment that were not written, and all of it
  where the bytes are complete. It has exactly the partitions that are recorded; and as deleting a
  partition does not touch the manifest, a deleted one comes back.\<close>

theorem node_restart:
  assumes "mongo_ok M docs" and "(node_step M)\<^sup>*\<^sup>* (NewBroker i d, m0) (b, m)" and "crash_env n b env"
    and "mFind M i m = (Some recs, m1)"
    and "LoadLocalPartitionsFromMongo (Some M) env (NewBroker i False) m = (e, b', m')"
  shows "e = None \<and> broker_ok b' \<and> recorded docs b' m' \<and>
    (\<forall>t j p base ms. get_local (t, j) b = Some p \<and> part_rep p base ms \<longrightarrow>
       (\<exists>p' k a. get_local (t, j) b' = Some p' \<and> part_rep p' base (take k ms) \<and> activeSegment p = Some a \<and>
          unat (BaseOffset (segs p ! a)) \<le> unat base + k \<and> (CurrentSize (segs p ! a) \<le> n t j \<longrightarrow> take k ms = ms))) \<and>
    (\<forall>t j. get_local (t, j) b' \<noteq> None \<longleftrightarrow> docs m (i, t, j) \<noteq> None)"
  using restart_restores [OF assms(1) broker_wt_ok [OF runs_wt(1) [OF assms(2)]] runs_recorded [OF assms(2,1)] assms(3)]
    assms(4,5) runs_wt(2) [OF assms(2)] by simp

section \<open>A node with one record\<close>

text \<open>It creates partition 3 of a topic, is told that it is in sync, and receives one record from the leader.\<close>

definition a_push :: append_request where
  "a_push = \<lparr>arTerm = 1, arLeaderId = 2, arTopicName = ''orders'', arPartitionId = 3, arTargetOffset = 0,
     arPayload = [7], arTimestamp = 8\<rparr>"

definition first_record :: message where
  "first_record = \<lparr>Offset = 0, Timestamp = 8, Payload = [7]\<rparr>"

lemma sample_recovers: "recovers sample_env"
  by (simp add: recovers_def sample_env_def recoverSegments_def good_recover_def NewSegment_def good_open_def
      dir_get_def Let_def)

lemma short_life:
  "\<exists>b p. (node_step list_mongo)\<^sup>*\<^sup>* (NewBroker 1 False, []) (b, [((1, ''orders'', 3), 0)])
     \<and> get_local (''orders'', 3) b = Some p \<and> part_rep p 0 [first_record]
     \<and> (\<forall>k. k \<noteq> (''orders'', 3) \<longrightarrow> get_local k b = None)"
proof -
  let ?b0 = "NewBroker 1 False" and ?k = "(''orders'', 3 :: int)" and ?m = "[((1 :: int, ''orders'', 3 :: int), 0 :: int)]"
  obtain p created b1 where e: "EnsureLocalPartition sample_env ''orders'' (Pool.sample_part 3) ?b0 = ((p, created), b1)"
    by (metis prod.collapse)
  note ok0 = broker_wt_ok [OF NewBroker_wt(1)]
  have id: "Id_tp (Pool.sample_part 3) = 3" "Retention (Pool.sample_part 3) = 0" by (simp_all add: Pool.sample_part_def)
  note E = EnsureLocalPartition_get [OF ok0 e]
  have created: created using created_iff(1) [OF ok0 e] NewBroker_wt(3) by simp
  obtain dn where p: "p = NewPartitionProcessor good_recover dn 3 ''orders'' 0 0 [] []"
    using created_iff(2) [OF ok0 e created] by (auto simp: sample_env_def Pool.sample_part_def)
  have rep: "part_rep p 0 []" unfolding p by (rule NewPartitionProcessor_empty) (simp_all add: log_names_def)
  have r: "ensure_recorded (Some list_mongo) sample_env ''orders'' (Pool.sample_part 3) ?b0 [] = ((p, created), b1, ?m)"
    using e created by (simp add: ensure_recorded_def UpsertLocalPartition_def list_mongo_def id Broker.GetNodeId_def NewBroker_wt(2))
  have s1: "node_step list_mongo (?b0, []) (b1, ?m)"
    by (rule node_step.created [OF sample_recovers _ r]) (simp add: list_mongo_def)
  have g1: "get_local ?k b1 = Some p" "get_local k b1 = None" if "k \<noteq> ?k" for k
    using that E(2) id by (simp_all add: NewBroker_wt(3))
  have l1: "local_partition ''orders'' 3 b1 = Inr p" using E(2) [of ?k] id by (simp add: local_partition_get)
  let ?b2 = "set_local ?k (ForceInSync p) b1"
  have s2: "node_step list_mongo (b1, ?m) (?b2, ?m)" using node_step.forced [OF l1] by (simp add: set_local_def)
  have g2: "broker_ok ?b2" "get_local k ?b2 = (if k = ?k then Some (ForceInSync p) else get_local k b1)" for k
    using locals.put_ok [OF E(1), of ?k p] locals.get_put [OF E(1), of ?k p] l1 by (simp_all add: local_partition_get)
  have rep2: "part_rep (ForceInSync p) 0 []" by (rule part_rep_other [OF rep]) (simp_all add: ForceInSync_def)
  have n: "nextOffset (ForceInSync p) = 0" using part.rep_nxt [OF rep2] by simp
  obtain oc mo q where t: "TryApplyPush good_io (arTargetOffset a_push) (arTimestamp a_push) (arPayload a_push) (ForceInSync p) = ((oc, mo), q)"
    by (metis prod.collapse)
  have q: "part_rep q 0 [first_record]"
    using TryApplyPush_rep [OF rep2, of "[7]" 0 8] t n by (auto simp: a_push_def payload_ok_def ForceInSync_def first_record_def)
  have wire: "wire_id 3" by (simp add: wire_id_def)
  have push: "arTopicName a_push = ''orders''" "arPartitionId a_push = of_int 3" by (simp_all add: a_push_def)
  let ?b3 = "snd (ReplicationLogHandler good_io a_push ?b2)"
  have g3: "get_local k ?b3 = (if k = ?k then Some q else get_local k ?b2)" for k
    by (rule ReplicationLogHandler_node(3) [OF g2(1) _ wire push t]) (simp add: g2(2))
  have s3: "node_step list_mongo (?b2, ?m) (?b3, ?m)" by (rule node_step.push)
  have "(node_step list_mongo)\<^sup>*\<^sup>* (?b0, []) (b1, ?m)" by (rule r_into_rtranclp) (rule s1)
  then have "(node_step list_mongo)\<^sup>*\<^sup>* (?b0, []) (?b2, ?m)" by (rule rtranclp.rtrancl_into_rtrancl) (rule s2)
  then have "(node_step list_mongo)\<^sup>*\<^sup>* (?b0, []) (?b3, ?m)" by (rule rtranclp.rtrancl_into_rtrancl) (rule s3)
  moreover have "get_local k ?b3 = None" if "k \<noteq> ?k" for k
    unfolding g3 g2(2) if_not_P [OF that] by (rule g1(2) [OF that])
  moreover have "get_local ?k ?b3 = Some q" by (simp only: g3 if_True refl)
  ultimately show ?thesis using q by blast
qed


theorem node_restart_witness:
  "\<exists>env b' p'. LoadLocalPartitionsFromMongo (Some list_mongo) env (NewBroker 1 False) [((1, ''orders'', 3), 0)]
       = (None, b', [((1, ''orders'', 3), 0)])
     \<and> get_local (''orders'', 3) b' = Some p' \<and> part_rep p' 0 [first_record]"
proof -
  let ?m = "[((1, ''orders'', 3), 0)] :: ((int \<times> string \<times> int) \<times> int) list"
  obtain b p where r: "(node_step list_mongo)\<^sup>*\<^sup>* (NewBroker 1 False, []) (b, ?m)"
    and p: "get_local (''orders'', 3) b = Some p" "part_rep p 0 [first_record]"
    and none: "\<forall>k. k \<noteq> (''orders'', 3) \<longrightarrow> get_local k b = None" using short_life by blast
  let ?env = "\<lambda>(_ :: string) (_ :: int). (good_recover, files p)"
  obtain n a where a: "activeSegment p = Some a" "CurrentSize (segs p ! a) \<le> n" "crash_dir n p (files p)"
    using crash_dir_self [OF p(2)] by blast
  have c: "crash_env (\<lambda>_ _. n) b ?env"
    unfolding crash_env_def
  proof (intro allI impI)
    fix t i q
    assume "get_local (t, i) b = Some q"
    with none p(1) have "q = p" by (cases "(t, i) = (''orders'', 3)") auto
    with a(3) show "fst (good_recover, files p) = good_recover \<and> crash_dir n q (snd (good_recover, files p))" by simp
  qed
  obtain recs m1 where f: "mFind list_mongo 1 ?m = (Some recs, m1)" by (simp add: list_mongo_def)
  obtain e b' m' where l: "LoadLocalPartitionsFromMongo (Some list_mongo) ?env (NewBroker 1 False) ?m = (e, b', m')"
    by (metis prod_cases3)
  have m': "m' = ?m" using l f by (auto simp: LoadLocalPartitionsFromMongo_def ListLocalPartitions_def list_mongo_def split: prod.splits)
  note R = node_restart [OF list_mongo_ok r c f l]
  obtain p' k a' where p':  "get_local (''orders'', 3) b' = Some p'" "part_rep p' 0 (take k [first_record])"
    "activeSegment p = Some a'" "CurrentSize (segs p ! a') \<le> n \<longrightarrow> take k [first_record] = [first_record]"
    using R [THEN conjunct2, THEN conjunct2, THEN conjunct2, THEN conjunct1, rule_format, OF conjI [OF p]] by blast
  have "e = None" by (rule R [THEN conjunct1])
  with l m' p' a(1,2) show ?thesis by (intro exI [of _ ?env] exI [of _ b'] exI [of _ p']) simp
qed

end
