(* ===== verification/Boot.thy ===== *)
theory Boot
  imports NodeSteps Watch Web
begin

text \<open>
  The start of a process, \<open>server/main.go\<close>: the flags, the addresses a node publishes and listens on, and
  the order in which the components are brought up. What the machine answers (which addresses can be
  bound, whether the etcd client can be made) is an argument. \<open>main\<close> always makes the mock database client.
\<close>

section \<open>Addresses\<close>

definition advertised :: "string \<Rightarrow> string \<Rightarrow> string" where
  "advertised advertise bind = (if advertise \<noteq> [] then advertise else bind)"

text \<open>\<open>net.SplitHostPort\<close>: the port is after the last colon; a host with colons is in brackets.\<close>

definition SplitHostPort :: "string \<Rightarrow> (string \<times> string) option" where
  "SplitHostPort s =
     (if CHR '':'' \<notin> set s then None
      else
        let port = rev (takeWhile (\<lambda>c. c \<noteq> CHR '':'') (rev s));
            i = length s - length port - 1
        in if hd s = CHR ''['' then
             (let end = length (takeWhile (\<lambda>c. c \<noteq> CHR '']'') s)
              in if CHR '']'' \<notin> set s \<or> end + 1 \<noteq> i \<or> CHR ''['' \<in> set (drop 1 s) \<or> CHR '']'' \<in> set (drop (end + 1) s) then None
                 else Some (drop 1 (take end s), port))
           else if CHR '':'' \<in> set (take i s) \<or> CHR ''['' \<in> set s \<or> CHR '']'' \<in> set s then None
           else Some (take i s, port))"

definition splitHostPort :: "string \<Rightarrow> string \<times> string" where
  "splitHostPort addr = (case SplitHostPort addr of None \<Rightarrow> (addr, []) | Some hp \<Rightarrow> hp)"

text \<open>\<open>CreateListener\<close> joins the two with a colon; \<open>net.Listen\<close> parses the address again, and an error is a panic.\<close>

definition listen_address :: "string \<Rightarrow> string \<Rightarrow> string" where
  "listen_address addr port = addr @ '':'' @ port"

definition CreateListener :: "(string \<Rightarrow> bool) \<Rightarrow> string \<Rightarrow> string \<Rightarrow> bool" where
  "CreateListener binds addr port =
     (let a = listen_address addr port in SplitHostPort a \<noteq> None \<and> binds a)"

section \<open>Flags and the start\<close>

record flags =
  fId :: int
  fTCP :: string
  fGRPC :: string
  fControl :: string
  fHTTP :: string
  fAdvTCP :: string
  fAdvGRPC :: string
  fAdvControl :: string
  fAdvHTTP :: string
  fCors :: string

definition node_addresses :: "flags \<Rightarrow> NodeAddresses" where
  "node_addresses fl = \<lparr>naReplication = advertised (fAdvGRPC fl) (fGRPC fl), naTCP = advertised (fAdvTCP fl) (fTCP fl),
     naControl = advertised (fAdvControl fl) (fControl fl), naHTTP = advertised (fAdvHTTP fl) (fHTTP fl)\<rparr>"

record machine =
  etcdClient :: bool
  binds :: "string \<Rightarrow> bool"

text \<open>The process exits, panics, or runs with the coordinator's workers and the origins of its web server.\<close>

datatype boot_result = BootExit | BootPanic | BootRunning "worker list" coordinator "string list"

definition boot ::
  "'e etcd \<Rightarrow> unicode \<Rightarrow> machine \<Rightarrow> flags \<Rightarrow> disk_env \<Rightarrow> int option \<Rightarrow> bool \<Rightarrow> string \<Rightarrow> 'e \<Rightarrow> boot_result \<times> 'e" where
  "boot E U os fl env granted keepAlive startTime e =
     (if \<not> etcdClient os then (BootExit, e)
      else case eGet E StatePath e of
        (Inl x, e1) \<Rightarrow> (BootExit, e1)
      | (Inr _, e1) \<Rightarrow>
          let myBroker = SetNodeId (fId fl) (NewBroker (fId fl) False);
              (loadErr, b, _) = LoadLocalPartitionsFromMongo (None :: unit mongo option) env myBroker ()
          in if \<not> binds os (fGRPC fl) then (BootExit, e1)
             else let n0 = NewNodeCoordinator (fId fl) b \<lparr>naReplication = [], naTCP = [], naControl = [], naHTTP = []\<rparr>
             in if \<not> binds os (fControl fl) then (BootExit, e1)
             else case Start E granted keepAlive startTime (node_addresses fl) n0 e1 of
               (workers, n, e2) \<Rightarrow>
                 (case splitHostPort (fTCP fl) of
                    (host, port) \<Rightarrow>
                      if CreateListener (binds os) host port
                      then (BootRunning workers n (allowed_of_flag U (fCors fl)), e2) else (BootPanic, e2)))"

section \<open>The listener's address\<close>

lemma takeWhile_rev_colon: "CHR '':'' \<notin> set p \<Longrightarrow> takeWhile (\<lambda>c. c \<noteq> CHR '':'') (rev (h @ '':'' @ p)) = rev p"
  using takeWhile_append2 [of "rev p" "\<lambda>c. c \<noteq> CHR '':''" "CHR '':'' # rev h"] by auto

text \<open>A host and a port without brackets and further colons are taken apart and put together again.\<close>

lemma plain_address:
  assumes "set h \<inter> {CHR '':'', CHR ''['', CHR '']''} = {}" and "set p \<inter> {CHR '':'', CHR ''['', CHR '']''} = {}"
  shows "SplitHostPort (listen_address h p) = Some (h, p)" and "splitHostPort (listen_address h p) = (h, p)"
proof -
  have "hd (h @ '':'' @ p) \<noteq> CHR ''[''" using assms(1) by (cases h) auto
  moreover have "rev (takeWhile (\<lambda>c. c \<noteq> CHR '':'') (rev (h @ '':'' @ p))) = p"
    using takeWhile_rev_colon [of p h] assms(2) by simp
  ultimately show "SplitHostPort (listen_address h p) = Some (h, p)"
    using assms unfolding SplitHostPort_def listen_address_def by (auto simp: Let_def)
  then show "splitHostPort (listen_address h p) = (h, p)" by (simp add: splitHostPort_def)
qed

text \<open>A host with a colon, which only comes out of brackets, gives an address that cannot be parsed.\<close>

lemma colon_address:
  assumes "CHR '':'' \<in> set h" and "CHR ''['' \<notin> set h" and "CHR '':'' \<notin> set p"
  shows "SplitHostPort (listen_address h p) = None"
proof -
  have "hd (h @ '':'' @ p) \<noteq> CHR ''[''" using assms(1,2) by (cases h) auto
  moreover have "rev (takeWhile (\<lambda>c. c \<noteq> CHR '':'') (rev (h @ '':'' @ p))) = p"
    using takeWhile_rev_colon [OF assms(3), of h] by simp
  ultimately show ?thesis using assms(1) unfolding SplitHostPort_def listen_address_def by (auto simp: Let_def)
qed

lemma SplitHostPort_host:
  assumes "SplitHostPort s = Some (h, p)"
  shows "CHR ''['' \<notin> set h \<and> CHR '':'' \<notin> set p"
proof -
  have "CHR '':'' \<notin> set (rev (takeWhile (\<lambda>c. c \<noteq> CHR '':'') (rev s)))" by (auto dest: set_takeWhileD)
  then show ?thesis
    using assms by (auto simp: SplitHostPort_def Let_def drop_take dest: in_set_takeD in_set_dropD split: if_splits)
qed

section \<open>What a start leaves behind\<close>

definition own_state :: "flags \<Rightarrow> string \<Rightarrow> NodeState" where
  "own_state fl startTime =
     \<lparr>nsID = fId fl, nsAddress = (if fAdvGRPC fl = [] then fGRPC fl else fAdvGRPC fl), nsTcpAddress = (if fAdvTCP fl = [] then fTCP fl else fAdvTCP fl),
      nsControlAddress = (if fAdvControl fl = [] then fControl fl else fAdvControl fl), nsHttpAddress = (if fAdvHTTP fl = [] then fHTTP fl else fAdvHTTP fl),
      nsStartTime = startTime, nsRole = Unroled\<rparr>"

definition registered :: "flags \<Rightarrow> string \<Rightarrow> int \<Rightarrow> etcd_store \<Rightarrow> bool" where
  "registered fl startTime lease s \<longleftrightarrow>
     (\<exists>kv. store_get (nodeKey (fId fl)) s = Some kv \<and> kvValue kv = VNode (own_state fl startTime) \<and> kvLease kv = lease)"

lemma Start_fields:
  assumes "Start E granted keepAlive startTime addrs n e = (ws, n', e')"
  shows "cbroker n' = cbroker n" and "nodeID n' = nodeID n" and "addresses n' = addrs"
    and "ws = [] \<or> ws = [NodeWatch, RebalanceWorker, MetadataWatch, TopicWatch, ReconcileLoop, LocalReports, Elections]"
  using assms by (auto simp: Start_def PutNodeState_def Let_def split: option.splits sum.splits prod.splits if_splits)

lemma Start_registers:
  assumes "etcd_ok E view P" and "Start E granted keepAlive startTime (node_addresses fl) n e = (ws, n', e')"
    and "ws \<noteq> []" and "nodeID n = fId fl"
  shows "\<exists>lease. granted = Some lease \<and> leaseId n' = lease \<and> registered fl startTime lease (view e')"
proof -
  obtain lease where l: "granted = Some lease" "keepAlive"
    using assms(2,3) by (auto simp: Start_def PutNodeState_def Let_def split: option.splits sum.splits prod.splits if_splits)
  have st: "own_state fl startTime = \<lparr>nsID = nodeID n, nsAddress = naReplication (node_addresses fl), nsTcpAddress = naTCP (node_addresses fl),
      nsControlAddress = naControl (node_addresses fl), nsHttpAddress = naHTTP (node_addresses fl), nsStartTime = startTime,
      nsRole = Unroled\<rparr>" by (simp add: own_state_def node_addresses_def advertised_def assms(4))
  obtain r e1 where t: "eTxn E [] [OpPut (nodeKey (fId fl)) (VNode (own_state fl startTime)) lease] e = (r, e1)"
    by (metis prod.collapse)
  then have s: "put_node_key E lease (own_state fl startTime) e = (r, e1)" by (simp add: put_node_key_def own_state_def)
  then obtain b where b: "r = Inr b" "e' = e1" "leaseId n' = lease"
    using assms(2,3) l st [symmetric]
    by (auto simp: Start_def PutNodeState_def Let_def split: sum.splits prod.splits if_splits)
  obtain s0 where "store_txn [] [OpPut (nodeKey (fId fl)) (VNode (own_state fl startTime)) lease] s0 = (b, view e1)"
    using etcd_txn [OF assms(1) t] b(1) by metis
  then have "view e1 = store_commit [OpPut (nodeKey (fId fl)) (VNode (own_state fl startTime)) lease] s0"
    by (simp add: store_txn_def)
  then show ?thesis using l(1) b(2,3) by (simp add: registered_def store_get_def store_commit_def update_conv')
qed

text \<open>The start step by step: it stops before the registration, or gets to the coordinator's start and the listener.\<close>

definition new_node :: "flags \<Rightarrow> coordinator" where
  "new_node fl = NewNodeCoordinator (fId fl) (NewBroker (fId fl) False) \<lparr>naReplication = [], naTCP = [], naControl = [], naHTTP = []\<rparr>"

lemma boot_unfold:
  "boot E U os fl env lease keepAlive startTime e =
     (if \<not> etcdClient os then (BootExit, e)
      else case eGet E StatePath e of
        (Inl x, e1) \<Rightarrow> (BootExit, e1)
      | (Inr _, e1) \<Rightarrow>
          if \<not> binds os (fGRPC fl) \<or> \<not> binds os (fControl fl) then (BootExit, e1)
          else case Start E lease keepAlive startTime (node_addresses fl) (new_node fl) e1 of
            (workers, n, e2) \<Rightarrow>
              if CreateListener (binds os) (fst (splitHostPort (fTCP fl))) (snd (splitHostPort (fTCP fl)))
              then (BootRunning workers n (allowed_of_flag U (fCors fl)), e2) else (BootPanic, e2))"
proof -
  have b: "SetNodeId (fId fl) (NewBroker (fId fl) False) = NewBroker (fId fl) False" by (simp add: SetNodeId_def NewBroker_def)
  have "LoadLocalPartitionsFromMongo (None :: unit mongo option) env (NewBroker (fId fl) False) () = (None, NewBroker (fId fl) False, ())"
    by (simp add: LoadLocalPartitionsFromMongo_def ListLocalPartitions_def LoadLocalPartitions_def)
  then show ?thesis by (simp add: boot_def b new_node_def Let_def split_beta split: sum.split)
qed

text \<open>The brackets of an IPv6 host are lost, so its address cannot be listened on.\<close>

lemma ipv6_listener:
  assumes "SplitHostPort s = Some (h, p)" and "CHR '':'' \<in> set h"
  shows "\<not> CreateListener ok (fst (splitHostPort s)) (snd (splitHostPort s))"
  using colon_address [OF assms(2)] SplitHostPort_host [OF assms(1)] assms(1) by (auto simp: CreateListener_def Let_def splitHostPort_def)

lemma plain_listener:
  assumes "CreateListener ok (fst (splitHostPort (listen_address h p))) (snd (splitHostPort (listen_address h p)))"
    and "set h \<inter> {CHR '':'', CHR ''['', CHR '']''} = {}" and "set p \<inter> {CHR '':'', CHR ''['', CHR '']''} = {}"
  shows "ok (listen_address h p)"
  using assms(1) plain_address(2) [OF assms(2,3)] by (simp add: CreateListener_def Let_def)


definition sample_flags :: flags where
  "sample_flags = \<lparr>fId = 4, fTCP = ''127.0.0.1:5090'', fGRPC = ''127.0.0.1:6090'', fControl = ''127.0.0.1:7090'',
     fHTTP = ''127.0.0.1:8090'', fAdvTCP = ''broker-4:5090'', fAdvGRPC = [], fAdvControl = [], fAdvHTTP = [], fCors = []\<rparr>"

definition sample_machine :: machine where
  "sample_machine = \<lparr>etcdClient = True, binds = (\<lambda>_. True)\<rparr>"


end
