(* ===== verification/Stop.thy ===== *)
theory Stop
  imports NodeSteps Placement
begin

text \<open>
  The end of a process: the cache of connections to other nodes' control services (\<open>controlClient\<close> in
  \<open>cluster/control_forward.go\<close>, \<open>Close\<close> in \<open>cluster/node.go\<close>) and the order in which \<open>main\<close> stops the components.
\<close>

section \<open>Connections\<close>

text \<open>A connection is a number; \<open>ccOpen\<close> has those that were made and not closed.\<close>

record connections =
  ccMap :: "(string, nat) gomap"
  ccOpen :: "nat list"
  ccNext :: nat

definition no_connections :: connections where
  "no_connections = \<lparr>ccMap = [], ccOpen = [], ccNext = 0\<rparr>"

definition controlClient :: "(string \<Rightarrow> bool) \<Rightarrow> string \<Rightarrow> connections \<Rightarrow> nat option \<times> connections" where
  "controlClient dialOk addr cc =
     (case map_of (ccMap cc) addr of
        Some conn \<Rightarrow> (Some conn, cc)
      | None \<Rightarrow>
          if \<not> dialOk addr then (None, cc)
          else let conn = ccNext cc
               in (Some conn, cc\<lparr>ccMap := AList.update addr conn (ccMap cc), ccOpen := ccOpen cc @ [conn], ccNext := conn + 1\<rparr>))"

text \<open>\<open>Close\<close> of the coordinator closes every connection of the map; an error is logged and the entry goes all the same.\<close>

definition close_connections :: "(nat \<Rightarrow> bool) \<Rightarrow> connections \<Rightarrow> connections" where
  "close_connections closeOk cc =
     cc\<lparr>ccMap := [], ccOpen := filter (\<lambda>c. \<not> (c \<in> set (map snd (ccMap cc)) \<and> closeOk c)) (ccOpen cc)\<rparr>"

text \<open>Each open connection is in the map, under one address.\<close>

definition conn_wt :: "connections \<Rightarrow> bool" where
  "conn_wt cc \<longleftrightarrow> distinct (map fst (ccMap cc)) \<and> ccOpen cc = map snd (ccMap cc) \<and> distinct (ccOpen cc) \<and>
     (\<forall>c \<in> set (ccOpen cc). c < ccNext cc)"

definition connected :: "connections \<Rightarrow> string set" where
  "connected cc = fst ` set (ccMap cc)"

lemma controlClient_wt:
  assumes "conn_wt cc" and "controlClient dialOk addr cc = (r, cc')"
  shows "conn_wt cc'" and "connected cc' = connected cc \<union> {a. a = addr \<and> dialOk a}  \<or> addr \<in> connected cc \<and> cc' = cc"
    and "r = map_of (ccMap cc') addr"
proof -
  consider (known) c where "map_of (ccMap cc) addr = Some c" "cc' = cc" "r = Some c"
    | (failed) "map_of (ccMap cc) addr = None" "\<not> dialOk addr" "cc' = cc" "r = None"
    | (new) "map_of (ccMap cc) addr = None" "dialOk addr" "r = Some (ccNext cc)"
        "cc' = cc\<lparr>ccMap := ccMap cc @ [(addr, ccNext cc)], ccOpen := ccOpen cc @ [ccNext cc], ccNext := ccNext cc + 1\<rparr>"
    using assms(2) by (auto simp: controlClient_def Let_def update_new map_of_eq_None_iff [symmetric] split: option.splits if_splits)
  then have "conn_wt cc' \<and> (connected cc' = connected cc \<union> {a. a = addr \<and> dialOk a}  \<or> addr \<in> connected cc \<and> cc' = cc)
    \<and> r = map_of (ccMap cc') addr"
  proof cases
    case known
    then show ?thesis using assms(1) by (auto simp: connected_def dest: map_of_SomeD intro: rev_image_eqI)
  next
    case failed
    then show ?thesis using assms(1) by auto
  next
    case new
    then have "addr \<notin> fst ` set (ccMap cc)" by (simp add: map_of_eq_None_iff)
    with new assms(1) show ?thesis by (fastforce simp: conn_wt_def connected_def map_add_def)
  qed
  then show "conn_wt cc'" "connected cc' = connected cc \<union> {a. a = addr \<and> dialOk a}  \<or> addr \<in> connected cc \<and> cc' = cc"
    "r = map_of (ccMap cc') addr" by blast+
qed

text \<open>Any number of calls, each for the address of the controller at the time.\<close>

definition forward_all :: "(string \<Rightarrow> bool) \<Rightarrow> string list \<Rightarrow> connections \<Rightarrow> connections" where
  "forward_all dialOk addrs cc = fold (\<lambda>a cc. snd (controlClient dialOk a cc)) addrs cc"

lemma forward_all_wt:
  assumes "conn_wt cc" and "connected cc \<subseteq> {a. dialOk a}"
  shows "conn_wt (forward_all dialOk addrs cc) \<and> connected (forward_all dialOk addrs cc) = connected cc \<union> {a \<in> set addrs. dialOk a}"
  using assms
proof (induction addrs arbitrary: cc)
  case (Cons a addrs)
  obtain r cc1 where c: "controlClient dialOk a cc = (r, cc1)" by (metis prod.collapse)
  note W = controlClient_wt [OF Cons.prems(1) c]
  have n: "connected cc1 = connected cc \<union> {x. x = a \<and> dialOk x}" using W(2) Cons.prems(2) by auto
  then have "connected cc1 \<subseteq> {a. dialOk a}" using Cons.prems(2) by auto
  with Cons.IH [OF W(1)] c n show ?case by (auto simp: forward_all_def)
qed (simp add: forward_all_def)

lemma close_connections_wt:
  assumes "conn_wt cc" and "\<forall>c. closeOk c"
  shows "conn_wt (close_connections closeOk cc) \<and> connected (close_connections closeOk cc) = {} \<and> ccOpen (close_connections closeOk cc) = []"
  using assms by (auto simp: conn_wt_def close_connections_def connected_def filter_empty_conv image_iff)

lemma open_count: "conn_wt cc \<Longrightarrow> length (ccOpen cc) = card (connected cc)"
  unfolding conn_wt_def connected_def by (metis distinct_card length_map set_map)

section \<open>The order of the stop\<close>

text \<open>
  After the signal: the gRPC servers, the coordinator, the web server, the broker, the database. The web
  server takes requests until it is told to stop; \<open>late\<close> are the addresses its handlers forward to after
  the coordinator was closed.
\<close>

definition main_stop ::
  "'m topic_coll option \<Rightarrow> topic_doc list \<Rightarrow> (string \<Rightarrow> bool) \<Rightarrow> (nat \<Rightarrow> bool) \<Rightarrow> string list \<Rightarrow> connections \<Rightarrow> broker \<Rightarrow> 'm
     \<Rightarrow> connections \<times> broker \<times> 'm" where
  "main_stop coll lst dialOk closeOk late cc b m =
     (let cc1 = close_connections closeOk cc;
          cc2 = forward_all dialOk late cc1
      in case Shutdown coll lst b m of (e, b', m') \<Rightarrow> (cc2, b', m'))"

definition left_env :: "broker \<Rightarrow> disk_env \<Rightarrow> bool" where
  "left_env b env \<longleftrightarrow> (\<forall>t i p. get_local (t, i) b = Some p \<longrightarrow> env t i = (good_recover, files p))"

lemma left_crash_env:
  assumes "left_env b env" and "\<forall>t i p. get_local (t, i) b = Some p \<longrightarrow> (\<exists>base ms. part_rep p base ms)"
  shows "\<exists>n. crash_env n b env \<and> (\<forall>t i p a. get_local (t, i) b = Some p \<and> activeSegment p = Some a \<longrightarrow> CurrentSize (segs p ! a) \<le> n t i)"
proof -
  define Q where "Q k t i \<longleftrightarrow> (\<forall>p. get_local (t, i) b = Some p \<longrightarrow> crash_dir k p (snd (env t i)) \<and>
      (\<forall>a. activeSegment p = Some a \<longrightarrow> CurrentSize (segs p ! a) \<le> k))" for k t i
  have "\<exists>k. Q k t i" for t i
  proof (cases "get_local (t, i) b")
    case (Some p)
    then obtain base ms where "part_rep p base ms" using assms(2) by blast
    from crash_dir_self [OF this] Some assms(1) show ?thesis by (auto simp: left_env_def Q_def)
  qed (simp add: Q_def)
  then obtain n where n: "Q (n t i) t i" for t i by metis
  have "crash_env n b env"
    unfolding crash_env_def
  proof (intro allI impI)
    fix t i p
    assume "get_local (t, i) b = Some p"
    with n [of t i, unfolded Q_def] assms(1) show "fst (env t i) = good_recover \<and> crash_dir (n t i) p (snd (env t i))" by (simp add: left_env_def)
  qed
  moreover have "CurrentSize (segs p ! a) \<le> n t i" if "get_local (t, i) b = Some p" "activeSegment p = Some a" for t i p a
    using n [of t i, unfolded Q_def] that by simp
  ultimately show ?thesis by blast
qed



end
