(* ===== verification/Lifecycle.thy ===== *)
theory Lifecycle
  imports Restart
begin

text \<open>
  The life cycles of a node's components, \<open>server/helper/lifecycle.go\<close>: a context derived from the one of the
  component above and a wait group. The theories of the components keep a context as a flag of the object
  (\<open>bdone\<close>, \<open>pooldone\<close>, \<open>tdone\<close>, \<open>pdone\<close>); here contexts are a tree, as \<open>context.WithCancel\<close> makes it, and the flags
  are shown to be what the tree says.
\<close>

section \<open>Contexts and life cycles\<close>

text \<open>
  A context is its own number before those of the contexts it was derived from; it is done when one of them was
  cancelled. The world has the next number and the cancelled ones.
\<close>

record ctx_world =
  cwNext :: nat
  cwCancelled :: "nat list"

definition WithCancel :: "nat list \<Rightarrow> ctx_world \<Rightarrow> nat list \<times> ctx_world" where
  "WithCancel parent w = (cwNext w # parent, w\<lparr>cwNext := Suc (cwNext w)\<rparr>)"

definition cancel_ctx :: "nat list \<Rightarrow> ctx_world \<Rightarrow> ctx_world" where
  "cancel_ctx c w = w\<lparr>cwCancelled := hd c # cwCancelled w\<rparr>"

definition ctx_done :: "ctx_world \<Rightarrow> nat list \<Rightarrow> bool" where
  "ctx_done w c \<longleftrightarrow> list_ex (\<lambda>i. i \<in> set (cwCancelled w)) c"

record lifecycle =
  lfCtx :: "nat list"
  lfWorkers :: nat   \<comment> \<open>the wait group\<close>

definition DeriveLifecycle :: "nat list \<Rightarrow> ctx_world \<Rightarrow> lifecycle \<times> ctx_world" where
  "DeriveLifecycle parent w = (case WithCancel parent w of (c, w1) \<Rightarrow> (\<lparr>lfCtx = c, lfWorkers = 0\<rparr>, w1))"

definition lifecycle_Go :: "lifecycle \<Rightarrow> lifecycle" where "lifecycle_Go l = l\<lparr>lfWorkers := lfWorkers l + 1\<rparr>"
definition worker_done :: "lifecycle \<Rightarrow> lifecycle" where "worker_done l = l\<lparr>lfWorkers := lfWorkers l - 1\<rparr>"

text \<open>The result says whether \<open>Stop\<close> returns at once or waits for workers.\<close>

definition lifecycle_Stop :: "lifecycle \<Rightarrow> ctx_world \<Rightarrow> bool \<times> ctx_world" where
  "lifecycle_Stop l w = (lfWorkers l = 0, cancel_ctx (lfCtx l) w)"

section \<open>The life cycles of a node\<close>

text \<open>\<open>lvGone\<close> has those of the partitions and topics that were removed.\<close>

record life =
  lvWorld :: ctx_world
  lvBroker :: lifecycle
  lvPool :: lifecycle
  lvTopics :: "string \<Rightarrow> lifecycle option"
  lvParts :: "string \<times> int \<Rightarrow> lifecycle option"
  lvGone :: "lifecycle set"

text \<open>The root context of \<open>main\<close>, then the broker's, then the pool's.\<close>

definition new_life :: life where
  "new_life = (case DeriveLifecycle [0] \<lparr>cwNext = 1, cwCancelled = []\<rparr> of (b, w1) \<Rightarrow>
     (case DeriveLifecycle (lfCtx b) w1 of (p, w2) \<Rightarrow>
        \<lparr>lvWorld = w2, lvBroker = b, lvPool = p, lvTopics = (\<lambda>_. None), lvParts = (\<lambda>_. None), lvGone = {}\<rparr>))"

definition life_topic :: "string \<Rightarrow> life \<Rightarrow> life" where
  "life_topic t v =
     (case lvTopics v t of
        Some l \<Rightarrow> v
      | None \<Rightarrow> (case DeriveLifecycle (lfCtx (lvPool v)) (lvWorld v) of
          (l, w) \<Rightarrow> v\<lparr>lvWorld := w, lvTopics := (lvTopics v)(t \<mapsto> l)\<rparr>))"

definition life_part :: "string \<Rightarrow> int \<Rightarrow> life \<Rightarrow> life" where
  "life_part t i v =
     (case lvParts v (t, i) of
        Some l \<Rightarrow> v
      | None \<Rightarrow> (case lvTopics v t of
          None \<Rightarrow> v
        | Some tc \<Rightarrow> (case DeriveLifecycle (lfCtx tc) (lvWorld v) of
            (l, w) \<Rightarrow> v\<lparr>lvWorld := w, lvParts := (lvParts v)((t, i) \<mapsto> l)\<rparr>)))"

text \<open>\<open>StopAndRemove\<close> stops the partition's life cycle; \<open>RemoveTopic\<close> the topic's; \<open>Shutdown\<close> the broker's.\<close>

definition life_delete :: "string \<Rightarrow> int \<Rightarrow> life \<Rightarrow> life" where
  "life_delete t i v =
     (case lvParts v (t, i) of
        None \<Rightarrow> v
      | Some l \<Rightarrow> v\<lparr>lvWorld := snd (lifecycle_Stop l (lvWorld v)), lvParts := (lvParts v)((t, i) := None),
                   lvGone := insert l (lvGone v)\<rparr>)"

definition life_remove :: "string \<Rightarrow> life \<Rightarrow> life" where
  "life_remove t v =
     (case lvTopics v t of
        None \<Rightarrow> v
      | Some l \<Rightarrow> v\<lparr>lvWorld := snd (lifecycle_Stop l (lvWorld v)), lvTopics := (lvTopics v)(t := None),
                   lvParts := (\<lambda>(u, i). if u = t then None else lvParts v (u, i)),
                   lvGone := insert l (lvGone v \<union> {k. \<exists>i. lvParts v (t, i) = Some k})\<rparr>)"

definition life_stop :: "life \<Rightarrow> life" where
  "life_stop v = v\<lparr>lvWorld := snd (lifecycle_Stop (lvBroker v) (lvWorld v))\<rparr>"

text \<open>
  The operations that make and end components, on the broker and on its life cycles. Everything else
  replaces a partition by one with the same context.
\<close>

inductive life_step :: "broker \<times> life \<Rightarrow> broker \<times> life \<Rightarrow> bool" where
  ensure: "EnsureLocalPartition env t part b = (r, b') \<Longrightarrow>
    life_step (b, v) (b', life_part t (Id_tp part) (life_topic t v))"
| delete: "get_topic t (bpool b) = Some tp \<Longrightarrow> DeletePartition ra i force tp = (e, tp', old) \<Longrightarrow>
    life_step (b, v) (b\<lparr>bpool := put_topic t tp' (bpool b)\<rparr>, life_delete t i v)"
| remove: "RemoveTopic t (bpool b) = (e, pl, old) \<Longrightarrow> life_step (b, v) (b\<lparr>bpool := pl\<rparr>, life_remove t v)"
| work: "get_local k b = Some p \<Longrightarrow> pdone p' = pdone p \<Longrightarrow> life_step (b, v) (set_local k p' b, v)"
| stop: "life_step (b, v) (stop_broker b, life_stop v)"

section \<open>Contexts are kept apart\<close>

definition below :: "life \<Rightarrow> lifecycle \<Rightarrow> bool" where
  "below v l \<longleftrightarrow> (\<forall>x \<in> set (lfCtx l). x < cwNext (lvWorld v))"

definition child :: "lifecycle \<Rightarrow> lifecycle \<Rightarrow> bool" where
  "child l p \<longleftrightarrow> (\<exists>x. lfCtx l = x # lfCtx p \<and> x \<notin> set (lfCtx p))"

definition own :: "lifecycle \<Rightarrow> nat" where "own l = hd (lfCtx l)"

definition separate :: "life \<Rightarrow> bool" where
  "separate v \<longleftrightarrow> below v (lvPool v) \<and> child (lvPool v) (lvBroker v) \<and> lfCtx (lvBroker v) \<noteq> []
     \<and> (\<forall>t l. lvTopics v t = Some l \<longrightarrow> below v l \<and> child l (lvPool v)
          \<and> (\<forall>u m. lvTopics v u = Some m \<and> own m = own l \<longrightarrow> t = u) \<and> (\<forall>k m. lvParts v k = Some m \<longrightarrow> own m \<noteq> own l))
     \<and> (\<forall>t i l. lvParts v (t, i) = Some l \<longrightarrow> below v l \<and> (\<exists>d. lvTopics v t = Some d \<and> child l d)
          \<and> (\<forall>k m. lvParts v k = Some m \<and> own m = own l \<longrightarrow> (t, i) = k))"

definition cancelled_below :: "life \<Rightarrow> bool" where
  "cancelled_below v \<longleftrightarrow> (\<forall>x \<in> set (cwCancelled (lvWorld v)). x < cwNext (lvWorld v))"

definition flags_ok :: "broker \<Rightarrow> life \<Rightarrow> bool" where
  "flags_ok b v \<longleftrightarrow> (let d = (\<lambda>l. ctx_done (lvWorld v) (lfCtx l)) in
     bdone b = d (lvBroker v) \<and> pooldone (bpool b) = d (lvPool v)
     \<and> (\<forall>t. map_option tdone (get_topic t (bpool b)) = map_option d (lvTopics v t))
     \<and> (\<forall>k. map_option pdone (get_local k b) = map_option d (lvParts v k))
     \<and> (\<forall>l \<in> lvGone v. d l))"

lemma done_Cons [simp]: "ctx_done w (x # c) \<longleftrightarrow> x \<in> set (cwCancelled w) \<or> ctx_done w c"
  by (simp add: ctx_done_def)

lemma done_cancel: "ctx_done (cancel_ctx c w) d \<longleftrightarrow> hd c \<in> set d \<or> ctx_done w d"
  by (auto simp: ctx_done_def cancel_ctx_def list_ex_iff)

lemma done_derive [simp]: "ctx_done (w\<lparr>cwNext := n\<rparr>) c = ctx_done w c"
  by (simp add: ctx_done_def)

lemma derive_simp: "DeriveLifecycle p w = (\<lparr>lfCtx = cwNext w # p, lfWorkers = 0\<rparr>, w\<lparr>cwNext := Suc (cwNext w)\<rparr>)"
  by (simp add: DeriveLifecycle_def WithCancel_def)

lemma child_own: "child l p \<Longrightarrow> lfCtx l = own l # lfCtx p \<and> own l \<notin> set (lfCtx p)"
  by (auto simp: child_def own_def)

lemma separate_partD:
  assumes "separate v" and "lvParts v (t, i) = Some l"
  obtains d where "lvTopics v t = Some d" and "child l d" and "below v l"
  using assms unfolding separate_def by blast

lemma separate_own:
  assumes "separate v"
  shows "lvTopics v t = Some l \<Longrightarrow> own l < cwNext (lvWorld v)" and "lvParts v k = Some l \<Longrightarrow> own l < cwNext (lvWorld v)"
proof -
  show "own l < cwNext (lvWorld v)" if "lvTopics v t = Some l"
  proof -
    have "below v l" "child l (lvPool v)" using assms that by (auto simp: separate_def)
    then show ?thesis using child_own by (fastforce simp: below_def)
  qed
  show "own l < cwNext (lvWorld v)" if "lvParts v k = Some l"
  proof -
    note here = that
    obtain t i where k: "k = (t, i)" by (cases k)
    obtain d where "child l d" "below v l" using separate_partD [OF assms here [unfolded k]] by blast
    then show ?thesis using child_own by (fastforce simp: below_def)
  qed
qed

text \<open>A new life cycle has a number of its own.\<close>

lemma separate_topic:
  assumes "separate v"
  shows "separate (life_topic t v)"
proof (cases "lvTopics v t")
  case None
  define n where "n = cwNext (lvWorld v)"
  define l where "l = \<lparr>lfCtx = n # lfCtx (lvPool v), lfWorkers = 0\<rparr>"
  define v' where "v' = v\<lparr>lvWorld := (lvWorld v)\<lparr>cwNext := Suc n\<rparr>, lvTopics := (lvTopics v)(t \<mapsto> l)\<rparr>"
  have v: "life_topic t v = v'" using None by (simp add: life_topic_def derive_simp v'_def l_def n_def)
  have up: "below v m \<Longrightarrow> below v' m" for m by (auto simp: below_def v'_def n_def)
  have l: "below v' l" "child l (lvPool v)" "own l = n"
    using assms by (auto simp: below_def child_def own_def l_def v'_def n_def separate_def)
  have o: "lvTopics v u = Some m \<Longrightarrow> own m \<noteq> n" "lvParts v k = Some m \<Longrightarrow> own m \<noteq> n" for u k m
    using separate_own [OF assms] by (fastforce simp: n_def)+
  have np: "lvParts v (t, i) = None" for i
  proof (rule ccontr)
    assume "lvParts v (t, i) \<noteq> None"
    then obtain m where "lvParts v (t, i) = Some m" by blast
    from separate_partD [OF assms this] None show False by auto
  qed
  have simps: "lvPool v' = lvPool v" "lvBroker v' = lvBroker v" "lvParts v' = lvParts v" "lvTopics v' = (lvTopics v)(t \<mapsto> l)"
    by (simp_all add: v'_def)
  show ?thesis
    using assms up l np unfolding v separate_def simps by (auto split: if_splits dest: o)
qed (use assms in \<open>simp add: life_topic_def\<close>)

lemma separate_part:
  assumes "separate v"
  shows "separate (life_part t i v)"
proof (cases "lvParts v (t, i) = None \<and> lvTopics v t \<noteq> None")
  case True
  then obtain d where d: "lvParts v (t, i) = None" "lvTopics v t = Some d" by blast
  define n where "n = cwNext (lvWorld v)"
  define l where "l = \<lparr>lfCtx = n # lfCtx d, lfWorkers = 0\<rparr>"
  define v' where "v' = v\<lparr>lvWorld := (lvWorld v)\<lparr>cwNext := Suc n\<rparr>, lvParts := (lvParts v)((t, i) \<mapsto> l)\<rparr>"
  have v: "life_part t i v = v'" using d by (simp add: life_part_def derive_simp v'_def l_def n_def)
  have up: "below v m \<Longrightarrow> below v' m" for m by (auto simp: below_def v'_def n_def)
  have "below v d" using assms d(2) by (simp add: separate_def)
  then have l: "below v' l" "child l d" "own l = n"
    by (auto simp: below_def child_def own_def l_def v'_def n_def)
  have o: "lvTopics v u = Some m \<Longrightarrow> own m \<noteq> n" "lvParts v k = Some m \<Longrightarrow> own m \<noteq> n" for u k m
    using separate_own [OF assms] by (fastforce simp: n_def)+
  have simps: "lvPool v' = lvPool v" "lvBroker v' = lvBroker v" "lvTopics v' = lvTopics v" "lvParts v' = (lvParts v)((t, i) \<mapsto> l)"
    by (simp_all add: v'_def)
  show ?thesis
    using assms up l d unfolding v separate_def simps by (auto split: if_splits dest: o)
qed (use assms in \<open>auto simp: life_part_def split: option.splits\<close>)

lemma separate_ends:
  assumes "separate v"
  shows "separate (life_delete t i v)" and "separate (life_remove t v)" and "separate (life_stop v)"
  using assms
  by (auto simp: life_delete_def life_remove_def life_stop_def lifecycle_Stop_def cancel_ctx_def separate_def below_def split: option.split if_splits)

lemma separate_new: "separate new_life \<and> cancelled_below new_life"
  by (auto simp: new_life_def derive_simp separate_def below_def child_def cancelled_below_def)

lemma separate_broker: "separate v \<Longrightarrow> hd (lfCtx (lvBroker v)) \<in> set (lfCtx (lvPool v)) \<and> hd (lfCtx (lvBroker v)) < cwNext (lvWorld v)"
  by (cases "lfCtx (lvBroker v)") (auto simp: separate_def child_def below_def)

lemma cancelled_below_step:
  assumes "separate v" and "cancelled_below v"
  shows "cancelled_below (life_topic t v)" and "cancelled_below (life_part t i v)" and "cancelled_below (life_delete t i v)"
    and "cancelled_below (life_remove t v)" and "cancelled_below (life_stop v)"
  using assms separate_own [OF assms(1)] separate_broker [OF assms(1)]
  by (fastforce simp: cancelled_below_def life_topic_def life_part_def life_delete_def life_remove_def life_stop_def
      derive_simp lifecycle_Stop_def cancel_ctx_def own_def split: option.splits)+

section \<open>The flags of the components\<close>

lemma open_segments_pdone: "pdone (snd (open_segments io names p)) = pdone p"
  by (induction io names p rule: open_segments.induct) (auto split: option.splits sum.splits prod.splits)

lemma NewPartitionProcessor_pdone [simp]: "pdone (NewPartitionProcessor io dn i t off ret rs d) = dn"
proof -
  have "pdone (snd (recoverSegments io p)) = pdone p" for p
    using open_segments_pdone [of "segOpen io" "sort (filter has_log_suffix (map fst (files p)))" p]
    by (auto simp: recoverSegments_def Let_def split: option.splits sum.splits prod.splits)
  then show ?thesis by (simp add: NewPartitionProcessor_def)
qed

lemma pooldone_put [simp]: "pooldone (put_topic t tp pl) = pooldone pl"
  by (simp add: put_topic_def split: option.split)

text \<open>What a creation, a deletion and a removal do to the flags.\<close>

definition topic_flag :: "string \<Rightarrow> broker \<Rightarrow> bool" where
  "topic_flag t b = (case get_topic t (bpool b) of None \<Rightarrow> pooldone (bpool b) | Some tp \<Rightarrow> tdone tp)"

lemma ensure_flags:
  assumes "broker_ok b" and "EnsureLocalPartition env t part b = ((p, created), b')"
  shows "bdone b' = bdone b" and "pooldone (bpool b') = pooldone (bpool b)"
    and "map_option tdone (get_topic s (bpool b')) = (if s = t then Some (topic_flag t b) else map_option tdone (get_topic s (bpool b)))"
    and "pdone p = (case get_local (t, Id_tp part) b of None \<Rightarrow> topic_flag t b | Some q \<Rightarrow> pdone q)"
proof -
  obtain tp pl where e: "EnsureTopic env t [] (bpool b) = (tp, pl)" by (cases "EnsureTopic env t [] (bpool b)")
  obtain tp' where e': "EnsurePartition env part tp = ((p, created), tp')" and b': "b' = b\<lparr>bpool := put_topic t tp' pl\<rparr>"
    using assms(2) e by (auto simp: EnsureLocalPartition_def split: prod.splits)
  have pok: "pool_ok (bpool b)" using assms(1) by (simp add: broker_ok_def)
  note g = EnsureTopic_get [OF pok e]
  have pd: "pooldone pl = pooldone (bpool b)" using e by (auto simp: EnsureTopic_def Let_def split: sum.splits)
  show "bdone b' = bdone b" "pooldone (bpool b') = pooldone (bpool b)" using pd b' by simp_all
  have td: "tdone tp = topic_flag t b"
  proof (cases "get_topic t (bpool b)")
    case None
    then have "map_of (topicProcessor (bpool b)) t = None"
      using GetTopicProcessor_some [OF pok, of t] by (cases "map_of (topicProcessor (bpool b)) t") (auto simp: get_topic_def)
    with e None show ?thesis by (auto simp: EnsureTopic_def NewTopicProcessor_def Let_def topic_flag_def)
  qed (use EnsureTopic_present [OF pok, of t] e in \<open>auto simp: topic_flag_def\<close>)
  have gi: "\<exists>i. map_of (topicProcessor pl) t = Some i \<and> processors pl ! i = Some tp" using g by (auto simp: get_topic_conv)
  then have dist: "distinct (map fst (partitions tp))" using pool_okD(2) [of pl t] g by fastforce
  have tp': "same_topic t tp tp'" "tdone tp' = tdone tp"
    using e' dist by (auto simp: EnsurePartition_def same_topic_def put_partition_def Let_def distinct_update split: option.splits)
  have "get_topic s (bpool b') = (if s = t then Some tp' else get_topic s (bpool b))"
    unfolding b' using topics.get_put [of pl t tp tp' s] g tp'(1) by simp
  then show "map_option tdone (get_topic s (bpool b')) = (if s = t then Some (topic_flag t b) else map_option tdone (get_topic s (bpool b)))"
    using tp'(2) td by simp
  show "pdone p = (case get_local (t, Id_tp part) b of None \<Rightarrow> topic_flag t b | Some q \<Rightarrow> pdone q)"
    using e' td EnsureTopic_partitions [OF pok e, of "Id_tp part"] get_local_topic [OF assms(1), of t "Id_tp part"]
    by (auto simp: EnsurePartition_def make_partition_def Let_def split: option.splits)
qed

lemma delete_flags:
  assumes "broker_ok b" and "get_topic t (bpool b) = Some tp" and "DeletePartition ra i force tp = (e, tp', old)"
  defines "b' \<equiv> b\<lparr>bpool := put_topic t tp' (bpool b)\<rparr>"
  shows "broker_ok b'" and "map_option tdone (get_topic s (bpool b')) = map_option tdone (get_topic s (bpool b))"
    and "get_local k b' = (if k = (t, i) then None else get_local k b)"
proof -
  have pok: "pool_ok (bpool b)" using assms(1) by (simp add: broker_ok_def)
  have "\<exists>j. map_of (topicProcessor (bpool b)) t = Some j \<and> processors (bpool b) ! j = Some tp"
    using pok assms(2) by (auto simp: get_topic_conv)
  then have dist: "distinct (map fst (partitions tp))" using pool_okD(2) [OF pok, of t] by fastforce
  have tp': "partitions tp' = (if map_of (partitions tp) i = None then partitions tp else AList.delete i (partitions tp))"
    "Name tp' = Name tp" "tdone tp' = tdone tp"
    using assms(3) DeletePartition_parts [of ra i force tp] by (auto simp: DeletePartition_def split: option.splits prod.splits)
  then have st: "same_topic t tp tp'" using dist by (simp add: same_topic_def distinct_delete)
  have gt: "get_topic u (bpool b') = (if u = t then Some tp' else get_topic u (bpool b))" for u
    using topics.get_put [OF pok assms(2) st] by (simp add: b'_def)
  show ok: "broker_ok b'" using topics.put_ok [OF pok assms(2) st] by (simp add: broker_ok_def b'_def)
  show "map_option tdone (get_topic s (bpool b')) = map_option tdone (get_topic s (bpool b))" using gt tp'(3) assms(2) by simp
  show "get_local k b' = (if k = (t, i) then None else get_local k b)"
    using get_local_topic [OF ok, of "fst k" "snd k"] get_local_topic [OF assms(1), of "fst k" "snd k"] gt tp'(1) assms(2)
    by (cases k) (auto simp: delete_conv' split: option.splits)
qed

lemma remove_flags:
  assumes "broker_ok b" and "RemoveTopic t (bpool b) = (e, pl, old)"
  shows "broker_ok (b\<lparr>bpool := pl\<rparr>)" and "pooldone pl = pooldone (bpool b)"
    and "get_topic s pl = (if s = t then None else get_topic s (bpool b))"
    and "get_local k (b\<lparr>bpool := pl\<rparr>) = (if fst k = t then None else get_local k b)"
proof -
  note r = RemoveTopic_ok [of "bpool b" t e pl old]
  show ok: "broker_ok (b\<lparr>bpool := pl\<rparr>)" using r assms by (simp add: broker_ok_def)
  show "pooldone pl = pooldone (bpool b)" using assms(2) by (auto simp: RemoveTopic_def Let_def split: sum.splits)
  show gt: "get_topic s pl = (if s = t then None else get_topic s (bpool b))" for s using r assms by (simp add: broker_ok_def)
  show "get_local k (b\<lparr>bpool := pl\<rparr>) = (if fst k = t then None else get_local k b)"
    using get_local_topic [OF ok, of "fst k" "snd k"] get_local_topic [OF assms(1), of "fst k" "snd k"] gt by (cases k) simp
qed

lemma work_flags:
  assumes "broker_ok b" and "get_local k b = Some p" and "pdone p' = pdone p"
  shows "broker_ok (set_local k p' b)" and "bdone (set_local k p' b) = bdone b"
    and "pooldone (bpool (set_local k p' b)) = pooldone (bpool b)"
    and "map_option tdone (get_topic s (bpool (set_local k p' b))) = map_option tdone (get_topic s (bpool b))"
    and "map_option pdone (get_local j (set_local k p' b)) = map_option pdone (get_local j b)"
proof -
  obtain t i where k: "k = (t, i)" by (cases k)
  obtain tp where tp: "get_topic t (bpool b) = Some tp"
    using assms(2) k get_local_topic [OF assms(1), of t i] by (auto split: option.splits)
  note pl = put_local_topic [OF assms(1) tp, of i p']
  have pok: "pool_ok (bpool b)" using assms(1) by (simp add: broker_ok_def)
  show "broker_ok (set_local k p' b)" using locals.put_ok [OF assms(1,2)] by simp
  show "bdone (set_local k p' b) = bdone b"
    by (auto simp: set_local_def put_local_def split: sum.splits)
  show "pooldone (bpool (set_local k p' b)) = pooldone (bpool b)" using pl(1) by (simp add: set_local_def k)
  show "map_option tdone (get_topic s (bpool (set_local k p' b))) = map_option tdone (get_topic s (bpool b))"
    using topics.get_put [OF pok tp pl(2), of s] pl(1) tp by (simp add: set_local_def k put_partition_def)
  show "map_option pdone (get_local j (set_local k p' b)) = map_option pdone (get_local j b)"
    using locals.get_put [OF assms(1,2), of j p'] assms(2,3) by (simp split: if_splits)
qed

lemma stop_flags:
  "bdone (stop_broker b)" "pooldone (bpool (stop_broker b))"
  "get_topic s (bpool (stop_broker b)) = map_option stop_topic (get_topic s (bpool b))"
  by (simp_all add: stop_broker_def get_topic_def GetTopicProcessor_def processor_at_def split: option.split)

section \<open>The contexts of the components\<close>

abbreviation over :: "life \<Rightarrow> lifecycle \<Rightarrow> bool" where "over v l \<equiv> ctx_done (lvWorld v) (lfCtx l)"

definition topic_over :: "string \<Rightarrow> life \<Rightarrow> bool" where
  "topic_over t v = (case lvTopics v t of None \<Rightarrow> over v (lvPool v) | Some l \<Rightarrow> over v l)"

lemma fresh_not_done: "cancelled_below v \<Longrightarrow> ctx_done (lvWorld v) (cwNext (lvWorld v) # c) = ctx_done (lvWorld v) c"
  by (auto simp: cancelled_below_def)

lemma topic_contexts:
  assumes "cancelled_below v"
  shows "over (life_topic t v) l = over v l" and "lvBroker (life_topic t v) = lvBroker v"
    and "lvPool (life_topic t v) = lvPool v" and "lvParts (life_topic t v) = lvParts v" and "lvGone (life_topic t v) = lvGone v"
    and "map_option (over v) (lvTopics (life_topic t v) s) = (if s = t then Some (topic_over t v) else map_option (over v) (lvTopics v s))"
  using fresh_not_done [OF assms] by (auto simp: life_topic_def derive_simp topic_over_def split: option.splits)

lemma part_contexts:
  assumes "cancelled_below v" and "lvTopics v t = Some d"
  shows "over (life_part t i v) l = over v l" and "lvBroker (life_part t i v) = lvBroker v"
    and "lvPool (life_part t i v) = lvPool v" and "lvTopics (life_part t i v) = lvTopics v" and "lvGone (life_part t i v) = lvGone v"
    and "map_option (over v) (lvParts (life_part t i v) k) = (if k = (t, i) then Some (case lvParts v (t, i) of None \<Rightarrow> over v d | Some m \<Rightarrow> over v m)
      else map_option (over v) (lvParts v k))"
  using fresh_not_done [OF assms(1)] assms(2) by (auto simp: life_part_def derive_simp split: option.splits)

text \<open>Where a number of a component's own is in another context.\<close>

lemma own_in_topic:
  assumes "separate v" and "lvTopics v t = Some l"
  shows "lfCtx l = own l # lfCtx (lvPool v)" and "own l \<notin> set (lfCtx (lvPool v))"
    and "lvTopics v s = Some m \<Longrightarrow> own l \<in> set (lfCtx m) \<longleftrightarrow> s = t"
proof -
  have c: "child m (lvPool v)" if "lvTopics v s = Some m" for s m using assms(1) that by (simp add: separate_def)
  show "lfCtx l = own l # lfCtx (lvPool v)" "own l \<notin> set (lfCtx (lvPool v))" using child_own [OF c [OF assms(2)]] by auto
  then show "own l \<in> set (lfCtx m) \<longleftrightarrow> s = t" if "lvTopics v s = Some m"
    using child_own [OF c [OF that]] that assms unfolding separate_def by (metis list.set_intros(1) option.inject set_ConsD)
qed

lemma own_in_part:
  assumes "separate v" and "lvParts v (u, j) = Some m"
  shows "lvTopics v t = Some l \<Longrightarrow> own l \<in> set (lfCtx m) \<longleftrightarrow> u = t"
    and "lvParts v k = Some l \<Longrightarrow> own l \<in> set (lfCtx m) \<longleftrightarrow> k = (u, j)"
proof -
  obtain d where d: "lvTopics v u = Some d" "child m d" using separate_partD [OF assms] .
  note T = own_in_topic [OF assms(1)]
  have m: "lfCtx m = own m # lfCtx d" "own m \<notin> set (lfCtx d)" using child_own [OF d(2)] by auto
  show "own l \<in> set (lfCtx m) \<longleftrightarrow> u = t" if "lvTopics v t = Some l"
  proof -
    have "own m \<noteq> own l" using assms that unfolding separate_def by blast
    then show ?thesis using m T(3) [OF that d(1)] by auto
  qed
  show "own l \<in> set (lfCtx m) \<longleftrightarrow> k = (u, j)" if l: "lvParts v k = Some l"
  proof -
    obtain s i where k: "k = (s, i)" by (cases k)
    obtain e where e: "lvTopics v s = Some e" "child l e" using separate_partD [OF assms(1) l [unfolded k]] .
    have "own l \<noteq> own d" using assms(1) l d(1) unfolding separate_def by blast
    moreover have "own l \<notin> set (lfCtx (lvPool v))" using child_own [OF e(2)] T(1) [OF e(1)] by auto
    ultimately have "own l \<notin> set (lfCtx d)" using T(1) [OF d(1)] by auto
    moreover have "own m = own l \<longleftrightarrow> k = (u, j)" using assms l unfolding separate_def k by (metis option.inject prod.inject)
    ultimately show ?thesis using m by auto
  qed
qed

lemma over_cancel: "ctx_done (snd (lifecycle_Stop l w)) c \<longleftrightarrow> hd (lfCtx l) \<in> set c \<or> ctx_done w c"
  by (simp add: lifecycle_Stop_def done_cancel)

lemma flags_okD:
  assumes "flags_ok b v"
  shows "bdone b = over v (lvBroker v)" and "pooldone (bpool b) = over v (lvPool v)"
    and "map_option tdone (get_topic t (bpool b)) = map_option (over v) (lvTopics v t)"
    and "map_option pdone (get_local k b) = map_option (over v) (lvParts v k)"
    and "l \<in> lvGone v \<Longrightarrow> over v l"
  using assms unfolding flags_ok_def Let_def by blast+

lemma flags_okI:
  assumes "bdone b = over v (lvBroker v)" and "pooldone (bpool b) = over v (lvPool v)"
    and "\<And>t. map_option tdone (get_topic t (bpool b)) = map_option (over v) (lvTopics v t)"
    and "\<And>k. map_option pdone (get_local k b) = map_option (over v) (lvParts v k)"
    and "\<And>l. l \<in> lvGone v \<Longrightarrow> over v l"
  shows "flags_ok b v"
  using assms by (simp add: flags_ok_def Let_def)

definition life_ok :: "broker \<Rightarrow> life \<Rightarrow> bool" where
  "life_ok b v \<longleftrightarrow> broker_ok b \<and> separate v \<and> cancelled_below v \<and> flags_ok b v"

lemma life_ok_ensure:
  assumes "life_ok b v" and "EnsureLocalPartition env t part b = ((p, created), b')"
  shows "life_ok b' (life_part t (Id_tp part) (life_topic t v))"
proof -
  have ok: "broker_ok b" "separate v" "cancelled_below v" and f: "flags_ok b v" using assms(1) by (auto simp: life_ok_def)
  note F = flags_okD [OF f] and E = ensure_flags [OF ok(1) assms(2)] and G = EnsureLocalPartition_get [OF ok(1) assms(2)]
  let ?u = "life_topic t v" and ?i = "Id_tp part"
  note T = topic_contexts [OF ok(3), of t]
  have u: "separate ?u" "cancelled_below ?u" using separate_topic [OF ok(2)] cancelled_below_step [OF ok(2,3)] by blast+
  have tf: "topic_flag t b = topic_over t v" using F(2) F(3) [of t] by (auto simp: topic_flag_def topic_over_def split: option.splits)
  obtain d where d: "lvTopics ?u t = Some d" "over v d = topic_over t v"
    using T(6) [of t] by (cases "lvTopics ?u t") auto
  note P = part_contexts [OF u(2) d(1), of ?i]
  have pp: "pdone p = (case lvParts v (t, ?i) of None \<Rightarrow> topic_over t v | Some m \<Rightarrow> over v m)"
    using E(4) F(4) [of "(t, ?i)"] tf by (auto split: option.splits)
  have "flags_ok b' (life_part t ?i ?u)"
  proof (rule flags_okI)
    show "map_option tdone (get_topic s (bpool b')) = map_option (over (life_part t ?i ?u)) (lvTopics (life_part t ?i ?u) s)" for s
      using E(3) [of s] F(3) [of s] T(6) [of s] tf by (simp add: P(1,4) T(1))
    show "map_option pdone (get_local k b') = map_option (over (life_part t ?i ?u)) (lvParts (life_part t ?i ?u) k)" for k
      using G(2) [of k] F(4) [of k] P(6) [of k] pp d(2) by (auto simp: P(1) T(1,4) split: option.splits)
  qed (use E F P T in auto)
  then show ?thesis using G(1) separate_part [OF u(1)] cancelled_below_step(2) [OF u] by (simp add: life_ok_def)
qed

lemma life_ok_delete:
  assumes "life_ok b v" and "get_topic t (bpool b) = Some tp" and "DeletePartition ra i force tp = (e, tp', old)"
  shows "life_ok (b\<lparr>bpool := put_topic t tp' (bpool b)\<rparr>) (life_delete t i v)"
proof -
  have ok: "broker_ok b" "separate v" "cancelled_below v" and f: "flags_ok b v" using assms(1) by (auto simp: life_ok_def)
  note F = flags_okD [OF f] and D = delete_flags [OF ok(1) assms(2,3)]
  let ?b = "b\<lparr>bpool := put_topic t tp' (bpool b)\<rparr>" and ?v = "life_delete t i v"
  have "flags_ok ?b ?v"
  proof (cases "lvParts v (t, i)")
    case None
    then have "get_local (t, i) b = None" using F(4) [of "(t, i)"] by simp
    then show ?thesis using None F D(2,3) by (intro flags_okI) (auto simp: life_delete_def)
  next
    case (Some l)
    note O = own_in_part [OF ok(2)] and T = own_in_topic [OF ok(2)]
    obtain c where c: "lvTopics v t = Some c" "child l c" using separate_partD [OF ok(2) Some] .
    have lp: "own l \<notin> set (lfCtx (lvPool v))" using child_own [OF c(2)] T(1) [OF c(1)] by auto
    have lb: "own l \<notin> set (lfCtx (lvBroker v))" using lp ok(2) by (auto simp: separate_def child_def)
    have lt: "own l \<notin> set (lfCtx m)" if "lvTopics v s = Some m" for s m
      using T(1) [OF that] lp ok(2) that Some by (auto simp: separate_def)
    have ov: "over ?v m \<longleftrightarrow> own l \<in> set (lfCtx m) \<or> over v m" for m
      using Some by (simp add: life_delete_def over_cancel own_def)
    have sel: "lvBroker ?v = lvBroker v" "lvPool ?v = lvPool v" "lvTopics ?v = lvTopics v"
      "lvParts ?v = (lvParts v)((t, i) := None)" "lvGone ?v = insert l (lvGone v)"
      using Some by (simp_all add: life_delete_def)
    show ?thesis
    proof (rule flags_okI)
      show "map_option tdone (get_topic s (bpool ?b)) = map_option (over ?v) (lvTopics ?v s)" for s
        using D(2) [of s] F(3) [of s] lt [of s] by (cases "lvTopics v s") (simp_all add: sel ov)
      show "map_option pdone (get_local k ?b) = map_option (over ?v) (lvParts ?v k)" for k
        using D(3) [of k] F(4) [of k] O(2) [of "fst k" "snd k" _ "(t, i)" l] Some
        by (cases "lvParts v k") (auto simp: sel ov)
      show "over ?v m" if "m \<in> lvGone ?v" for m
        using that F(5) child_own [OF c(2)] by (auto simp: sel ov)
    qed (use F lp lb in \<open>simp_all add: sel ov\<close>)
  qed
  then show ?thesis using D(1) separate_ends(1) [OF ok(2)] cancelled_below_step(3) [OF ok(2,3)] by (simp add: life_ok_def)
qed

lemma life_ok_remove:
  assumes "life_ok b v" and "RemoveTopic t (bpool b) = (e, pl, old)"
  shows "life_ok (b\<lparr>bpool := pl\<rparr>) (life_remove t v)"
proof -
  have ok: "broker_ok b" "separate v" "cancelled_below v" and f: "flags_ok b v" using assms(1) by (auto simp: life_ok_def)
  note F = flags_okD [OF f] and R = remove_flags [OF ok(1) assms(2)]
  let ?b = "b\<lparr>bpool := pl\<rparr>" and ?v = "life_remove t v"
  note O = own_in_part [OF ok(2)] and T = own_in_topic [OF ok(2)]
  have "flags_ok ?b ?v"
  proof (cases "lvTopics v t")
    case None
    then have g: "get_topic t (bpool b) = None" using F(3) [of t] by simp
    then have "get_local (t, i) b = None" for i using get_local_topic [OF ok(1), of t i] by simp
    then have "get_local k ?b = get_local k b" for k using R(4) [of k] by (cases k) auto
    moreover have "get_topic s pl = get_topic s (bpool b)" for s using R(3) [of s] g by auto
    ultimately show ?thesis using None F R(2) by (intro flags_okI) (simp_all add: life_remove_def)
  next
    case (Some l)
    have lp: "own l \<notin> set (lfCtx (lvPool v))" using T(2) [OF Some] .
    have lb: "own l \<notin> set (lfCtx (lvBroker v))" using lp ok(2) by (auto simp: separate_def child_def)
    have ov: "over ?v m \<longleftrightarrow> own l \<in> set (lfCtx m) \<or> over v m" for m
      using Some by (simp add: life_remove_def over_cancel own_def)
    have sel: "lvBroker ?v = lvBroker v" "lvPool ?v = lvPool v" "lvTopics ?v = (lvTopics v)(t := None)"
      "lvParts ?v = (\<lambda>(u, i). if u = t then None else lvParts v (u, i))"
      "lvGone ?v = insert l (lvGone v \<union> {k. \<exists>i. lvParts v (t, i) = Some k})"
      using Some by (simp_all add: life_remove_def)
    show ?thesis
    proof (rule flags_okI)
      show "map_option tdone (get_topic s (bpool ?b)) = map_option (over ?v) (lvTopics ?v s)" for s
        using R(3) [of s] F(3) [of s] T(3) [OF Some, of s] by (cases "lvTopics v s") (auto simp: sel ov)
      show "map_option pdone (get_local k ?b) = map_option (over ?v) (lvParts ?v k)" for k
        using R(4) [of k] F(4) [of k] O(1) [of "fst k" "snd k" _ t l] Some
        by (cases k; cases "lvParts v k") (auto simp: sel ov)
      show "over ?v m" if "m \<in> lvGone ?v" for m
        using that F(5) T(1) [OF Some] O(1) [of t _ m t l] Some by (auto simp: sel ov)
    qed (use F R(2) lp lb in \<open>simp_all add: sel ov\<close>)
  qed
  then show ?thesis using R(1) separate_ends(2) [OF ok(2)] cancelled_below_step(4) [OF ok(2,3)] by (simp add: life_ok_def)
qed

lemma life_ok_stop:
  assumes "life_ok b v"
  shows "life_ok (stop_broker b) (life_stop v)"
proof -
  have ok: "broker_ok b" "separate v" "cancelled_below v" and f: "flags_ok b v" using assms(1) by (auto simp: life_ok_def)
  note F = flags_okD [OF f] and B = separate_broker [OF ok(2)]
  have top: "hd (lfCtx (lvBroker v)) \<in> set (lfCtx m)" if "lvTopics v t = Some m" for t m
    using B own_in_topic(1) [OF ok(2) that] by simp
  have part: "hd (lfCtx (lvBroker v)) \<in> set (lfCtx m)" if "lvParts v k = Some m" for k m
  proof -
    note here = that
    obtain t i where k: "k = (t, i)" by (cases k)
    obtain d where "lvTopics v t = Some d" "child m d" using separate_partD [OF ok(2) here [unfolded k]] .
    then show ?thesis using top child_own by fastforce
  qed
  have hb: "hd (lfCtx (lvBroker v)) \<in> set (lfCtx (lvBroker v))" using ok(2) by (simp add: separate_def)
  have ov: "over (life_stop v) m \<longleftrightarrow> hd (lfCtx (lvBroker v)) \<in> set (lfCtx m) \<or> over v m" for m
    by (simp add: life_stop_def over_cancel)
  have sel: "lvBroker (life_stop v) = lvBroker v" "lvPool (life_stop v) = lvPool v" "lvTopics (life_stop v) = lvTopics v"
    "lvParts (life_stop v) = lvParts v" "lvGone (life_stop v) = lvGone v" by (simp_all add: life_stop_def)
  have "flags_ok (stop_broker b) (life_stop v)"
  proof (rule flags_okI)
    show "map_option tdone (get_topic t (bpool (stop_broker b))) = map_option (over (life_stop v)) (lvTopics (life_stop v) t)" for t
      using F(3) [of t] top [of t] by (cases "lvTopics v t") (auto simp: stop_flags sel ov stop_topic_def)
    show "map_option pdone (get_local k (stop_broker b)) = map_option (over (life_stop v)) (lvParts (life_stop v) k)" for k
      using F(4) [of k] part [of k] by (cases "lvParts v k") (auto simp: stop_broker_get sel ov)
  qed (use F B hb in \<open>simp_all add: stop_flags sel ov\<close>)
  then show ?thesis using stop_broker_ok [OF ok(1)] separate_ends(3) [OF ok(2)] cancelled_below_step(5) [OF ok(2,3)] by (simp add: life_ok_def)
qed

lemma life_step_ok:
  assumes "life_step s s'" and "life_ok (fst s) (snd s)"
  shows "life_ok (fst s') (snd s')"
  using assms
proof (induction rule: life_step.induct)
  case (ensure env t part b r b' v)
  obtain p created where "r = (p, created)" by (cases r)
  with ensure show ?case using life_ok_ensure [of b v env t part p created b'] by simp
next
  case (delete t b tp ra i force e tp' old v)
  then show ?case using life_ok_delete by simp
next
  case (remove t b e pl old v)
  then show ?case using life_ok_remove by simp
next
  case (work k b p p' v)
  then have ok: "broker_ok b" and f: "flags_ok b v" by (auto simp: life_ok_def)
  have "flags_ok (set_local k p' b) v"
    using work_flags(2-5) [OF ok work.hyps] flags_okD [OF f] by (intro flags_okI) simp_all
  with work work_flags(1) [OF ok work.hyps] show ?case by (simp add: life_ok_def)
qed (use life_ok_stop in simp)



end
