(* ===== verification/Journey.thy ===== *)
theory Journey
  imports Restart Placement Assignment
begin

text \<open>
  The way of a topic through the components: from its parameters in etcd over the node that applies them to
  the records a consumer reads. The lemmas join the contracts of the store, of the node's partitions and
  of the log; the property is in the root theory.
\<close>

section \<open>A new partition on a node\<close>

definition empty_disk :: "disk_env \<Rightarrow> string \<Rightarrow> int \<Rightarrow> bool" where
  "empty_disk env t i \<longleftrightarrow> fst (env t i) = good_recover \<and> snd (env t i) = []"

text \<open>The partition of the parameters as it starts: an empty log from offset 0.\<close>

definition starts :: "int \<Rightarrow> PartitionsParams \<Rightarrow> partition \<Rightarrow> bool" where
  "starts self part p \<longleftrightarrow> part_rep p 0 [] \<and> replicas p = part_replicas part \<and>
     syncState p = (if LeaderNodeId part = self \<or> IsInSync part self then StateInSync else StateReplicating)"

lemma SetPartitionLeader_bid [simp]: "bid (SetPartitionLeader t i l b) = bid b"
  by (simp add: SetPartitionLeader_def)

lemma put_local_bid [simp]: "bid (put_local t i p b) = bid b"
  by (simp add: put_local_def split: sum.split)

lemma clear_own_leader_bid [simp]: "bid (clear_own_leader t i b) = bid b"
  by (simp add: clear_own_leader_def DeletePartitionLeader_def split: option.split)

lemma fold_clear_bid [simp]: "bid (fold (\<lambda>i. clear_own_leader t (int i)) is b) = bid b"
  by (induction "is" arbitrary: b) simp_all

lemma apply_partition_bid:
  assumes "apply_partition env ra t part n = (jobs, n')"
  shows "bid (cbroker n') = bid (cbroker n)"
  using assms
  by (auto simp: apply_partition_def EnsureLocalPartition_def startCatchUp_def MarkPartitionReplicaInSync_def
      DeleteTopicPartition_def Let_def split: prod.splits if_splits sum.splits option.splits)

text \<open>What a node that has nothing of the partition has after its parameters.\<close>

definition assigned_new :: "coordinator \<Rightarrow> string \<Rightarrow> PartitionsParams \<Rightarrow> bool" where
  "assigned_new n t part \<longleftrightarrow> get_leader (t, PartitionId part) (cbroker n) = Some (LeaderNodeId part) \<and>
     (if ContainsNode part (nodeID n)
      then \<exists>p. get_local (t, PartitionId part) (cbroker n) = Some p \<and> starts (nodeID n) part p
      else get_local (t, PartitionId part) (cbroker n) = None)"

lemma apply_partition_new:
  assumes "broker_ok (cbroker n)" and "t \<noteq> fmt_int (PartitionId part)" and "apply_partition env ra t part n = (jobs, n')"
    and "get_local (t, PartitionId part) (cbroker n) = None" and "empty_disk env t (PartitionId part)"
  shows "assigned_new n' t part"
proof (cases "ContainsNode part (nodeID n)")
  case True
  let ?b = "SetPartitionLeader t (PartitionId part) (LeaderNodeId part) (cbroker n)"
  obtain pp created b2 where e: "EnsureLocalPartition env t (local_part part) ?b = ((pp, created), b2)"
    by (metis prod.collapse)
  have ok: "broker_ok ?b" using assms(1) by simp
  have id: "Id_tp (local_part part) = PartitionId part" by (simp add: local_part_def)
  have "created" using created_iff(1) [OF ok e] assms(4) by (simp add: id)
  then obtain dn where pp: "pp = NewPartitionProcessor good_recover dn (PartitionId part) t 0 3600000000000 (part_replicas part) []"
    using created_iff(2) [OF ok e] assms(5) by (auto simp: local_part_def empty_disk_def)
  have new: "part_rep pp 0 []" "syncState pp = StateReplicating"
    unfolding pp by (rule NewPartitionProcessor_empty; simp add: log_names_def)+
  let ?p = "pp\<lparr>replicas := part_replicas part,
     syncState := (if LeaderNodeId part \<noteq> nodeID n \<and> \<not> IsInSync part (nodeID n) then syncState pp else StateInSync)\<rparr>"
  have "part_rep ?p 0 []" by (rule part_rep_other [OF new(1)]) simp_all
  then have "starts (nodeID n) part ?p" using new(2) by (auto simp: starts_def)
  moreover note A = apply_assigned_partition [OF assms(1) True e assms(3)]
  ultimately show ?thesis using True A(1) A(3,4) [of "(t, PartitionId part)"] by (auto simp: assigned_new_def)
next
  case False
  let ?b = "SetPartitionLeader t (PartitionId part) (LeaderNodeId part) (cbroker n)"
  have "\<not> snd (FindTopicPartition t (PartitionId part) ?b)"
    using assms(4) by (auto simp: FindTopicPartition_def get_local_def local_partition_def split: sum.splits)
  then have "n' = n\<lparr>cbroker := ?b\<rparr>" using assms(3) False by (auto simp: apply_partition_def Let_def)
  then show ?thesis using assms(4) False by (simp add: assigned_new_def set_leader_get)
qed

text \<open>All parameters of the topic.\<close>

lemma apply_partitions_new:
  assumes "broker_ok (cbroker n)" and "distinct (map PartitionId parts)" and "t \<notin> fmt_int ` PartitionId ` set parts"
    and "apply_partitions env ra t parts n = (jobs, n')" and "part \<in> set parts"
    and "get_local (t, PartitionId part) (cbroker n) = None" and "empty_disk env t (PartitionId part)"
  shows "assigned_new n' t part"
  using assms
proof (induction parts arbitrary: n jobs)
  case (Cons q parts)
  obtain jobs1 n1 where 1: "apply_partition env ra t q n = (jobs1, n1)" by (metis prod.collapse)
  obtain jobs2 where 2: "apply_partitions env ra t parts n1 = (jobs2, n')"
    using Cons.prems(4) 1 by (auto split: prod.splits)
  have s: "same_but t {PartitionId q} n n1" using apply_partition_follows [OF Cons.prems(1) _ 1] Cons.prems(3) by auto
  then have n1: "broker_ok (cbroker n1)" "nodeID n1 = nodeID n" by (simp_all add: same_but_def)
  have s2: "same_but t (PartitionId ` set parts) n1 n'"
    using apply_partitions_follow [OF n1(1) _ _ 2] Cons.prems(2,3) by auto
  show ?case
  proof (cases "part = q")
    case True
    have "PartitionId q \<notin> PartitionId ` set parts" using Cons.prems(2) by simp
    with s2 have "assigned_new n' t q \<longleftrightarrow> assigned_new n1 t q" by (simp add: same_but_def assigned_new_def)
    then show ?thesis using apply_partition_new [OF Cons.prems(1) _ 1] Cons.prems(3,6,7) True by simp
  next
    case False
    with Cons.prems(2,5) have m: "part \<in> set parts" "PartitionId part \<noteq> PartitionId q" by (auto simp: image_iff)
    with s Cons.prems(6) have "get_local (t, PartitionId part) (cbroker n1) = None" by (simp add: same_but_def)
    with Cons.IH [OF n1(1) _ _ 2 m(1)] Cons.prems(2,3,7) show ?thesis by auto
  qed
qed simp

lemma apply_partitions_bid:
  "apply_partitions env ra t parts n = (jobs, n') \<Longrightarrow> bid (cbroker n') = bid (cbroker n)"
  by (induction parts arbitrary: n jobs) (auto split: prod.splits dest: apply_partition_bid)

section \<open>Writing on the only in-sync replica\<close>

text \<open>A partition whose leader is alone in sync holds the records \<open>ms\<close>, from offset 0, and accepts writes.\<close>

definition serving :: "string \<Rightarrow> int \<Rightarrow> broker \<Rightarrow> message list \<Rightarrow> bool" where
  "serving t i b ms \<longleftrightarrow> t \<noteq> [] \<and> broker_ok b \<and> IsPartitionLeader t i b \<and>
     (\<exists>p. get_local (t, i) b = Some p \<and> part_rep p 0 ms \<and> syncState p = StateInSync \<and>
        distinct (map Id (replicas p)) \<and> (\<forall>r \<in> set (replicas p). InSync r \<longrightarrow> Id r = bid b))"

lemma produce_serving:
  assumes "serving t i b ms" and "payload_ok payload" and "length ms + 1 < 2 ^ 64"
    and "producerHandler (net_of N b) good_io now respond \<lparr>ppTopicName = t, ppPartitionId = i, ppKey = key, ppMsg = payload\<rparr> b W
      = (r, b', W')"
  shows "r = (respond ProduceAccepted, [ProduceAccepted])"
    and "serving t i b' (ms @ [new_record (of_nat (length ms)) now payload])"
proof -
  obtain p where p: "get_local (t, i) b = Some p" "part_rep p 0 ms" "syncState p = StateInSync" "distinct (map Id (replicas p))"
    "\<forall>r \<in> set (replicas p). InSync r \<longrightarrow> Id r = bid b"
    and b: "t \<noteq> []" "broker_ok b" "IsPartitionLeader t i b"
    using assms(1) by (auto simp: serving_def)
  obtain tp where tp: "GetTopicProcessor t (bpool b) = Inr tp" "GetPartition i tp = Inr p"
    using p(1) by (auto simp: local_partition_get [symmetric] local_partition_def sbind_Inr_conv)
  note ok = part_okD [OF part_rep_okD [OF p(2)]]
  let ?m = "new_record (nextOffset p) now payload"
  have nxt: "nextOffset p = of_nat (length ms)" using ok(3) by simp
  have "log_from 0 (ms @ [?m])" using ok(1,3) assms(2,3) by (simp add: log_from_snoc new_record_def)
  then obtain p' where p': "AppendEntry good_io (Offset ?m) (Timestamp ?m) (Payload ?m) p = ((Offset ?m, None), p')"
    "part_rep p' 0 (ms @ [?m])" "replicas p' = replicas p" "syncState p' = syncState p"
    using AppendEntry_rep [OF p(2)] by blast
  obtain q W1 where q: "produce_replicate (net_of N b) (append_req (net_of N b) (Name tp) i (nextOffset p) payload now)
      (replicas p) W = (q, W1)" by (metis prod.collapse)
  obtain pushed where "q = Inr pushed"
    using produce_replicate_Inr(1) [OF q p(4)] p(5) by (auto simp: Broker.GetNodeId_def)
  with q tp p'(1) have "SendMessage (net_of N b) good_io now t i payload (bpool b) W
      = (None, put_topic t (put_partition i p' tp) (bpool b), W1)"
    by (simp add: SendMessage_def ReplicateAndAppend_def produce_prepare_def GetReplicas_def GetNextOffset_def
        produce_commit_def new_record_def)
  then have r: "r = (respond ProduceAccepted, [ProduceAccepted])" "b' = set_local (t, i) p' b"
    using assms(4) b tp(1) by (auto simp: producerHandler_def set_local_def put_local_def)
  have l: "IsPartitionLeader t i b' = IsPartitionLeader t i b" "bid b' = bid b"
    using r(2) by (simp_all add: set_local_def put_local_def IsPartitionLeader_def GetPartitionLeader_def split: sum.split)
  show "r = (respond ProduceAccepted, [ProduceAccepted])" by (rule r(1))
  show "serving t i b' (ms @ [new_record (of_nat (length ms)) now payload])"
    using b l p(3-5) p'(2-4) nxt r(2) locals.put_ok [OF b(2) p(1) TrueI, of p'] locals.get_put [OF b(2) p(1) TrueI, of "(t, i)" p']
    unfolding serving_def by simp
qed

text \<open>Any number of commands, one after the other, each with its time and whatever the network does to it.\<close>

fun produce_each ::
  "responder \<Rightarrow> string \<Rightarrow> int \<Rightarrow> (network \<times> i64 \<times> string \<times> bytes) list \<Rightarrow> broker \<Rightarrow> world
     \<Rightarrow> (go_error option \<times> response list) list \<times> broker \<times> world" where
  "produce_each respond t i [] b W = ([], b, W)"
| "produce_each respond t i ((N, now, key, payload) # xs) b W =
     (case producerHandler (net_of N b) good_io now respond
        \<lparr>ppTopicName = t, ppPartitionId = i, ppKey = key, ppMsg = payload\<rparr> b W of
        (r, b1, W1) \<Rightarrow> (case produce_each respond t i xs b1 W1 of (rs, b2, W2) \<Rightarrow> (r # rs, b2, W2)))"

fun records_from :: "nat \<Rightarrow> (network \<times> i64 \<times> string \<times> bytes) list \<Rightarrow> message list" where
  "records_from k [] = []"
| "records_from k ((N, now, key, payload) # xs) = new_record (of_nat k) now payload # records_from (Suc k) xs"

lemma length_records_from [simp]: "length (records_from k xs) = length xs"
  by (induction k xs rule: records_from.induct) simp_all

lemma produce_each_serving:
  assumes "serving t i b ms" and "\<forall>(N, now, key, payload) \<in> set xs. payload_ok payload"
    and "length ms + length xs < 2 ^ 64" and "produce_each respond t i xs b W = (rs, b', W')"
  shows "rs = map (\<lambda>_. (respond ProduceAccepted, [ProduceAccepted])) xs
    \<and> serving t i b' (ms @ records_from (length ms) xs)"
  using assms
proof (induction respond t i xs b W arbitrary: ms rs rule: produce_each.induct)
  case (2 respond t i N now key payload xs b W)
  obtain r b1 W1 where 1: "producerHandler (net_of N b) good_io now respond
      \<lparr>ppTopicName = t, ppPartitionId = i, ppKey = key, ppMsg = payload\<rparr> b W = (r, b1, W1)" by (metis prod_cases3)
  obtain rs2 where rs: "produce_each respond t i xs b1 W1 = (rs2, b', W')" "rs = r # rs2"
    using 2(5) 1 by (auto split: prod.splits)
  have ok: "payload_ok payload" "length ms + 1 < 2 ^ 64" using 2(3,4) by auto
  note P = produce_serving [OF 2(2) ok 1]
  have "\<forall>(N, now, key, payload) \<in> set xs. payload_ok payload"
    "length (ms @ [new_record (of_nat (length ms)) now payload]) + length xs < 2 ^ 64" using 2(3,4) by auto
  from 2(1) [OF 1 [symmetric] refl P(2) this rs(1)] P(1) rs(2) show ?case by simp
qed simp

text \<open>What a consumer from the beginning to the end gets, and where its live stream starts.\<close>

lemma consume_serving:
  assumes "serving t i b ms" and "\<forall>x. respond x = None"
  shows "consumerHandler no_faults respond events \<lparr>cpTopicName = t, cpPartitionID = i, cpStart = AtBeginning x, cpFin = AtEnd y\<rparr> b
    = (case consume_stream respond (events (of_nat (length ms))) of
        (r, rs) \<Rightarrow> (r, (if ms = [] then [] else [ConsumeList ms]) @ rs))"
proof -
  obtain p where p: "get_local (t, i) b = Some p" "part_rep p 0 ms" "syncState p = StateInSync" and b: "t \<noteq> []"
    using assms(1) by (auto simp: serving_def)
  obtain tp where tp: "GetTopicProcessor t (bpool b) = Inr tp" "GetPartition i tp = Inr p"
    using p(1) by (auto simp: local_partition_get [symmetric] local_partition_def sbind_Inr_conv)
  note ok = part_okD [OF part_rep_okD [OF p(2)]]
  have "readFrom no_faults 0 n True p p = Inr (ms, Some (of_nat (length ms)))" for n
    using readFrom_loop_rep [OF p(2), of 0 "length ms" True n "[]"] log_from_bound [OF ok(1)] ok(2,3)
    by (simp add: readFrom_def Let_def)
  with tp ok(2) have "ReadMessages no_faults t i (start_spec (AtBeginning x)) (fin_spec (AtEnd y)) (bpool b)
      = Inr (ms, Some (of_nat (length ms)))"
    by (simp add: ReadMessages_def GetStartOffset_def Let_def)
  moreover have "IsPartitionInSync t i b" using tp p(3) by (simp add: IsPartitionInSync_def local_partition_def GetSyncState_def)
  ultimately show ?thesis using b assms(2) by (simp add: consumerHandler_def Let_def)
qed

section \<open>Nodes that may not serve\<close>

lemma produce_each_refused:
  assumes "t \<noteq> []" and "\<not> IsPartitionLeader t i b"
  shows "produce_each respond t i xs b W = (map (\<lambda>_. (respond (ProduceNotLeader t i), [ProduceNotLeader t i])) xs, b, W)"
  using assms by (induction xs) (auto simp: producerHandler_def Let_def)

section \<open>A topic that was created\<close>

lemma CreateTopic_stored:
  assumes "etcd_ok E view meta_clients" and "meta_ok (view e)"
    and "CreateTopic E clock n req vc e = (Inr resp, vc', e')" and "rpSuccess resp"
  shows "\<exists>s t. created_topic req s t \<and> stored_topic (rqTopicName req) (view e') = Some t \<and> rqTopicName req \<noteq> []"
  using assms(1-3)
proof (cases rule: CreateTopic_cases)
  case (placed e2 v pc lc)
  have ok2: "meta_ok (view e2)" using meta_ok_steps [OF placed(4) assms(2)] .
  note com = create_commit [OF assms(1) ok2 placed(5) refl placed(6) refl placed(7)]
  obtain s where "view e' = store_commit [OpPut (topicKey (rqTopicName req)) (VTopic
      \<lparr>tpName = rqTopicName req, DesiredReplicationFactor = (if rqReplicationFactor req \<le> 0 then 3 else rqReplicationFactor req),
       Partitions = place_partitions (nat (rqNumPartitions req)) 0 (nat (if rqReplicationFactor req \<le> 0 then 3 else rqReplicationFactor req))
         (map fst (vNodes v)) pc lc\<rparr>) 0] s"
    using com(3) assms(4) by auto
  then have "stored_topic (rqTopicName req) (view e') = Some
      \<lparr>tpName = rqTopicName req, DesiredReplicationFactor = (if rqReplicationFactor req \<le> 0 then 3 else rqReplicationFactor req),
       Partitions = place_partitions (nat (rqNumPartitions req)) 0 (nat (if rqReplicationFactor req \<le> 0 then 3 else rqReplicationFactor req))
         (map fst (vNodes v)) pc lc\<rparr>" by (simp add: stored_topic_def)
  with com(1) placed(2) show ?thesis by blast
qed (use assms(4) in simp)

lemma topic_of_topicKey [simp]: "topic_of_key (topicKey name) = name"
  by (simp add: topic_of_key_def topicKey_def)

text \<open>The leader of a partition of a created topic serves it, every other node refuses.\<close>

lemma created_partition:
  assumes "created_topic req s t" and "part \<in> set (Partitions t)"
  shows "distinct (map PartitionId (Partitions t))" and "ContainsNode part i \<longleftrightarrow> i \<in> set (ReplicasNodeId part)"
    and "ContainsNode part (LeaderNodeId part)" and "IsInSync part i \<longleftrightarrow> i = LeaderNodeId part" and "distinct (ReplicasNodeId part)"
    and "tpName t = rqTopicName req"
  using assms by (auto simp: created_topic_def ContainsNode_def IsInSync_def distinct_map inj_on_def)

lemma created_follows:
  assumes "created_topic req s t" and "part \<in> set (Partitions t)" and "rqTopicName req \<noteq> []" and "rqTopicName req \<notin> range fmt_int"
    and "broker_ok (cbroker n)" and "bid (cbroker n) = nodeID n"
    and "get_local (rqTopicName req, PartitionId part) (cbroker n) = None" and "empty_disk env (rqTopicName req) (PartitionId part)"
    and "watch_topic_event env ra (WatchPut (topicKey (rqTopicName req)) (VTopic t)) n = (jobs, n')"
  shows "if LeaderNodeId part = nodeID n then serving (rqTopicName req) (PartitionId part) (cbroker n') []
    else \<not> IsPartitionLeader (rqTopicName req) (PartitionId part) (cbroker n')
      \<and> \<not> IsPartitionInSync (rqTopicName req) (PartitionId part) (cbroker n')"
proof -
  note C = created_partition [OF assms(1,2)]
  have a: "apply_partitions env ra (rqTopicName req) (Partitions t) n = (jobs, n')"
    using assms(9) by (simp add: watch_topic_event_def apply_topic_value_def applyTopicParams_def)
  have d: "rqTopicName req \<notin> fmt_int ` PartitionId ` set (Partitions t)" using assms(4) by blast
  note N = apply_partitions_new [OF assms(5) C(1) d a assms(2,7,8), unfolded assigned_new_def]
  have k: "nodeID n' = nodeID n" "broker_ok (cbroker n')"
    using apply_partitions_follow [OF assms(5) C(1) d a] by (simp_all add: same_but_def)
  have bid: "bid (cbroker n') = nodeID n" using apply_partitions_bid [OF a] assms(6) by simp
  show ?thesis
    using N k bid C assms(3) by (auto simp: serving_def starts_def IsPartitionLeader_def get_leader_def part_replicas_def
      comp_def IsPartitionInSync_def GetSyncState_def get_local_def split: if_splits sum.splits)
qed

end
