(* ===== verification/Routes.thy ===== *)
theory Routes
  imports Web
begin

text \<open>
  The routes of the web server (\<open>SetupRouter\<close> in \<open>server/http/server.go\<close>) and a request from its path to
  what it leaves behind. The router itself is a library: it is an argument, with its documented matching
  as the hypothesis \<open>router_ok\<close>. A path is the list of its segments. The handlers are those of \<open>Requests\<close>,
  around them the headers of \<open>Web\<close>.
\<close>

section \<open>The routes\<close>

datatype path_part = Lit string | Param string | CatchAll string

datatype endpoint = EpBroker | EpDescribe | EpCreate | EpOverview | EpNodes | EpTopics | EpLive | EpReady | EpIndex | EpStatic

record route =
  rtMethod :: string
  rtPath :: "path_part list"
  rtEndpoint :: endpoint
  rtCORS :: bool

definition GET :: string where "GET = ''GET''"
definition POST :: string where "POST = ''POST''"
definition OPTIONS :: string where "OPTIONS = ''OPTIONS''"

definition SetupRouter :: "route list" where
  "SetupRouter =
     [\<lparr>rtMethod = GET, rtPath = [Lit ''broker'', Lit ''v1'', Param ''action''], rtEndpoint = EpBroker, rtCORS = True\<rparr>,
      \<lparr>rtMethod = POST, rtPath = [Lit ''broker'', Lit ''v1'', Param ''action''], rtEndpoint = EpBroker, rtCORS = True\<rparr>,
      \<lparr>rtMethod = GET, rtPath = [Lit ''topic'', Lit ''v1'', Lit ''describe'', Param ''name''], rtEndpoint = EpDescribe, rtCORS = True\<rparr>,
      \<lparr>rtMethod = POST, rtPath = [Lit ''topic'', Lit ''v1'', Lit ''create''], rtEndpoint = EpCreate, rtCORS = True\<rparr>,
      \<lparr>rtMethod = GET, rtPath = [Lit ''cluster'', Lit ''v1'', Lit ''overview''], rtEndpoint = EpOverview, rtCORS = True\<rparr>,
      \<lparr>rtMethod = GET, rtPath = [Lit ''cluster'', Lit ''v1'', Lit ''nodes''], rtEndpoint = EpNodes, rtCORS = True\<rparr>,
      \<lparr>rtMethod = GET, rtPath = [Lit ''cluster'', Lit ''v1'', Lit ''topics''], rtEndpoint = EpTopics, rtCORS = True\<rparr>,
      \<lparr>rtMethod = GET, rtPath = [Lit ''healthz''], rtEndpoint = EpLive, rtCORS = False\<rparr>,
      \<lparr>rtMethod = GET, rtPath = [Lit ''readyz''], rtEndpoint = EpReady, rtCORS = False\<rparr>,
      \<lparr>rtMethod = GET, rtPath = [], rtEndpoint = EpIndex, rtCORS = False\<rparr>,
      \<lparr>rtMethod = GET, rtPath = [Lit ''static'', CatchAll ''filepath''], rtEndpoint = EpStatic, rtCORS = False\<rparr>]"

text \<open>The values of the parameters when a path fits: a parameter takes one segment that is not empty.\<close>

fun path_match :: "path_part list \<Rightarrow> string list \<Rightarrow> (string \<times> string) list option" where
  "path_match [] [] = Some []"
| "path_match [] (s # ss) = None"
| "path_match (Lit a # ps) (s # ss) = (if s = a then path_match ps ss else None)"
| "path_match (Param k # ps) (s # ss) = (if s = [] then None else map_option (\<lambda>vs. (k, s) # vs) (path_match ps ss))"
| "path_match [CatchAll k] ss = Some [(k, concat (map (\<lambda>s. CHR ''/'' # s) ss))]"
| "path_match _ _ = None"

text \<open>
  The router calls the handler of a route, the handler for \<open>OPTIONS\<close> on a path that has routes, or
  answers itself (a redirect, 404 or 405).
\<close>

datatype routed = Routed endpoint bool "(string \<times> string) list" | Preflight | RouterAnswer nat

type_synonym web_router = "route list \<Rightarrow> string \<Rightarrow> string list \<Rightarrow> routed"

definition router_ok :: "web_router \<Rightarrow> bool" where
  "router_ok R \<longleftrightarrow>
     (\<forall>rs m p ep cors vs. R rs m p = Routed ep cors vs \<longrightarrow>
        (\<exists>r \<in> set rs. rtMethod r = m \<and> path_match (rtPath r) p = Some vs \<and> rtEndpoint r = ep \<and> rtCORS r = cors)) \<and>
     (\<forall>rs m p. (\<exists>r \<in> set rs. rtMethod r = m \<and> path_match (rtPath r) p \<noteq> None) \<longrightarrow> (\<exists>ep cors vs. R rs m p = Routed ep cors vs)) \<and>
     (\<forall>rs m p. R rs m p = Preflight \<longrightarrow> m = OPTIONS) \<and>
     (\<forall>rs p. (\<forall>r \<in> set rs. rtMethod r \<noteq> OPTIONS) \<and> (\<exists>r \<in> set rs. path_match (rtPath r) p \<noteq> None) \<longrightarrow> R rs OPTIONS p = Preflight)"

section \<open>One request\<close>

record web_request =
  wqMethod :: string
  wqPath :: "string list"
  wqOrigin :: string
  wqProduce :: "ProduceRequest option"
  wqCreate :: "CreateTopicRequest option"
  wqArgs :: "string \<Rightarrow> string"

text \<open>What a request may change: the broker, the cache of the view, the world of the peers and the store.\<close>

record ('w, 'e) web_world =
  wwBroker :: "broker option"
  wwCache :: view_cache
  wwPeers :: 'w
  wwStore :: 'e

text \<open>What the server is given: the peers, disks and clocks, the routes' origins, the coordinator if there is one.\<close>

record ('w, 'e) web_server =
  wsEtcd :: "'e etcd"
  wsNet :: "'w cluster_net"
  wsIO :: lock_io
  wsNow :: i64
  wsClock :: "int \<times> int"
  wsFault :: faults
  wsMarshal :: responder
  wsEvents :: "u64 \<Rightarrow> stream_event list"
  wsDial :: "string \<Rightarrow> bool"
  wsRemote :: "string \<Rightarrow> CreateTopicRequest \<Rightarrow> 'e \<Rightarrow> (cluster_error + CreateTopicResponse) \<times> 'e"
  wsConfigured :: bool
  wsNode :: coordinator
  wsIndex :: "string option"
  wsStatic :: "string \<Rightarrow> nat"
  wsUnicode :: unicode
  wsOrigins :: "string list"

datatype web_answer =
    AProduced "response http_answer"
  | AStream "sse_event list http_answer"
  | AOverview "ClusterOverview http_answer"
  | ANodes "ClusterSnapshot http_answer"
  | ATopics "ClusterTopic list http_answer"
  | ATopic "ClusterTopic http_answer"
  | ACreated "string http_answer"
  | APage "string http_answer"
  | AStatus nat

definition LivenessHandler :: web_answer where "LivenessHandler = AStatus 200"

definition indexHandler :: "string option \<Rightarrow> string http_answer" where
  "indexHandler page = (case page of None \<Rightarrow> HttpError 500 ''ui_unavailable'' | Some body \<Rightarrow> HttpOK 200 body)"

definition broker_endpoint ::
  "('w, 'e) web_server \<Rightarrow> web_request \<Rightarrow> string \<Rightarrow> ('w, 'e) web_world \<Rightarrow> web_answer \<times> ('w, 'e) web_world" where
  "broker_endpoint S q action w =
     (case BrokeringRouter action (wqMethod q = POST) (wqMethod q = GET) of
        RouteProduce \<Rightarrow> (case http_produce (wsNet S) (wsIO S) (wsNow S) (wsMarshal S) (wqProduce q) (wwBroker w) (wwPeers w) of
            (a, b, pw) \<Rightarrow> (AProduced a, w\<lparr>wwBroker := b, wwPeers := pw\<rparr>))
      | RouteConsume \<Rightarrow> (AStream (http_consume (wsFault S) (wsMarshal S) (wsEvents S) (wqArgs q) (wwBroker w)), w)
      | RouteError st code \<Rightarrow> (AProduced (HttpError st code), w))"

definition endpoint_call ::
  "('w, 'e) web_server \<Rightarrow> web_request \<Rightarrow> (string \<times> string) list \<Rightarrow> endpoint \<Rightarrow> ('w, 'e) web_world
     \<Rightarrow> web_answer \<times> ('w, 'e) web_world" where
  "endpoint_call S q vs ep w =
     (let E = wsEtcd S; user = (\<lambda>k. case map_of vs k of None \<Rightarrow> [] | Some v \<Rightarrow> v);
          vc = wwCache w; e = wwStore w
      in case ep of
           EpBroker \<Rightarrow> broker_endpoint S q (user ''action'') w
         | EpDescribe \<Rightarrow> (case DescribeTopicHandler E (wsClock S) (wsConfigured S) (wsNode S) (user ''name'') vc e of
             (a, vc', e') \<Rightarrow> (ATopic a, w\<lparr>wwCache := vc', wwStore := e'\<rparr>))
         | EpCreate \<Rightarrow> (case CreateTopicHandler E (wsClock S) (wsDial S) (wsRemote S) (wsConfigured S) (wsNode S) (wqCreate q) vc e of
             (a, vc', e') \<Rightarrow> (ACreated a, w\<lparr>wwCache := vc', wwStore := e'\<rparr>))
         | EpOverview \<Rightarrow> (case ClusterOverviewHandler E (wsClock S) (wsConfigured S) (wsNode S) vc e of
             (a, vc', e') \<Rightarrow> (AOverview a, w\<lparr>wwCache := vc', wwStore := e'\<rparr>))
         | EpNodes \<Rightarrow> (case ClusterNodesHandler E (wsClock S) (wsConfigured S) (wsNode S) vc e of
             (a, vc', e') \<Rightarrow> (ANodes a, w\<lparr>wwCache := vc', wwStore := e'\<rparr>))
         | EpTopics \<Rightarrow> (case ClusterTopicsHandler E (wsClock S) (wsConfigured S) (wsNode S) vc e of
             (a, vc', e') \<Rightarrow> (ATopics a, w\<lparr>wwCache := vc', wwStore := e'\<rparr>))
         | EpLive \<Rightarrow> (LivenessHandler, w)
         | EpReady \<Rightarrow> (case ReadinessHandler E (wsClock S) (wsConfigured S) (wsNode S) vc e of
             (a, vc', e') \<Rightarrow> (AStatus a, w\<lparr>wwCache := vc', wwStore := e'\<rparr>))
         | EpIndex \<Rightarrow> (APage (indexHandler (wsIndex S)), w)
         | EpStatic \<Rightarrow> (AStatus (wsStatic S (user ''filepath'')), w))"

definition web_serve ::
  "web_router \<Rightarrow> ('w, 'e) web_server \<Rightarrow> web_request \<Rightarrow> ('w, 'e) web_world \<Rightarrow> headers \<times> web_answer \<times> ('w, 'e) web_world" where
  "web_serve R S q w =
     (case R SetupRouter (wqMethod q) (wqPath q) of
        Routed ep cors vs \<Rightarrow>
          let handler = (\<lambda>h (_, w). (h, endpoint_call S q vs ep w))
          in if cors then CORSMiddleware (wsUnicode S) (wsOrigins S) handler (wqOrigin q) [] (AStatus 0, w)
             else handler [] (AStatus 0, w)
      | Preflight \<Rightarrow>
          (case corsPreflightHandler (wsUnicode S) (wsOrigins S) (wqOrigin q) [] of (st, h) \<Rightarrow> (h, AStatus st, w))
      | RouterAnswer st \<Rightarrow> ([], AStatus st, w))"

section \<open>Which request does what\<close>

lemma path_match_Nil: "path_match [] p = Some vs \<longleftrightarrow> p = [] \<and> vs = []"
  by (cases p) auto

lemma path_match_Lit: "path_match (Lit a # ps) p = Some vs \<longleftrightarrow> (\<exists>ss. p = a # ss \<and> path_match ps ss = Some vs)"
  by (cases p) simp_all

lemma path_match_Param:
  "path_match (Param k # ps) p = Some vs \<longleftrightarrow> (\<exists>s ss us. p = s # ss \<and> s \<noteq> [] \<and> vs = (k, s) # us \<and> path_match ps ss = Some us)"
proof (cases p)
  case (Cons s ss)
  then show ?thesis by (cases "path_match ps ss") auto
qed simp

lemma path_match_CatchAll: "path_match [CatchAll k] p = Some vs \<longleftrightarrow> vs = [(k, concat (map (\<lambda>s. CHR ''/'' # s) p))]"
  by (cases p) auto

lemmas path_match_iff = path_match_Nil path_match_Lit path_match_Param path_match_CatchAll

lemma method_distinct [simp]: "GET \<noteq> POST" "POST \<noteq> GET" "GET \<noteq> OPTIONS" "OPTIONS \<noteq> GET" "POST \<noteq> OPTIONS" "OPTIONS \<noteq> POST"
  by (simp_all add: GET_def POST_def OPTIONS_def)

lemma routed_in:
  assumes "router_ok R" and "R SetupRouter m p = Routed ep cors vs"
  shows "\<exists>r \<in> set SetupRouter. rtMethod r = m \<and> path_match (rtPath r) p = Some vs \<and> rtEndpoint r = ep \<and> rtCORS r = cors"
  using assms(1) [unfolded router_ok_def, THEN conjunct1, rule_format, OF assms(2)] .

text \<open>The routes of a method: a \<open>POST\<close> is a command for the broker or the creation of a topic, all others are a \<open>GET\<close>.\<close>

lemma post_routes:
  "filter (\<lambda>r. rtMethod r = POST) SetupRouter =
     [\<lparr>rtMethod = POST, rtPath = [Lit ''broker'', Lit ''v1'', Param ''action''], rtEndpoint = EpBroker, rtCORS = True\<rparr>,
      \<lparr>rtMethod = POST, rtPath = [Lit ''topic'', Lit ''v1'', Lit ''create''], rtEndpoint = EpCreate, rtCORS = True\<rparr>]"
  by (simp add: SetupRouter_def)

lemma other_routes: "list_all (\<lambda>r. rtMethod r = POST \<or> rtMethod r = GET \<and> rtEndpoint r \<noteq> EpCreate) SetupRouter"
  by (simp add: SetupRouter_def)

lemma live_routes: "list_all (\<lambda>r. path_match (rtPath r) [''healthz''] = None \<or> rtEndpoint r = EpLive \<and> \<not> rtCORS r) SetupRouter"
  by (simp add: SetupRouter_def)

lemma routed_post:
  assumes "router_ok R" and "R SetupRouter POST p = Routed ep cors vs"
  shows "cors \<and> ((\<exists>a. p = [''broker'', ''v1'', a] \<and> ep = EpBroker \<and> vs = [(''action'', a)])
    \<or> (p = [''topic'', ''v1'', ''create''] \<and> ep = EpCreate \<and> vs = []))"
proof -
  obtain r where r: "r \<in> set SetupRouter" "rtMethod r = POST" "path_match (rtPath r) p = Some vs" "rtEndpoint r = ep" "rtCORS r = cors"
    using routed_in [OF assms] by blast
  have "r \<in> set (filter (\<lambda>r. rtMethod r = POST) SetupRouter)" using r(1,2) by simp
  then consider "r = \<lparr>rtMethod = POST, rtPath = [Lit ''broker'', Lit ''v1'', Param ''action''], rtEndpoint = EpBroker, rtCORS = True\<rparr>"
    | "r = \<lparr>rtMethod = POST, rtPath = [Lit ''topic'', Lit ''v1'', Lit ''create''], rtEndpoint = EpCreate, rtCORS = True\<rparr>"
    unfolding post_routes by (simp only: list.set insert_iff empty_iff) blast
  then show ?thesis
  proof cases
    case 1
    then show ?thesis using r(3-5) by (simp add: path_match_iff) blast
  next
    case 2
    then show ?thesis using r(3-5) by (simp add: path_match_iff)
  qed
qed

lemma routed_other:
  assumes "router_ok R" and "R SetupRouter m p = Routed ep cors vs" and "m \<noteq> POST"
  shows "m = GET \<and> ep \<noteq> EpCreate"
  using routed_in [OF assms(1,2)] other_routes assms(3) unfolding list_all_iff by blast

lemma routed_live:
  assumes "router_ok R" and "R SetupRouter GET [''healthz''] = Routed ep cors vs"
  shows "ep = EpLive \<and> \<not> cors"
  using routed_in [OF assms] live_routes unfolding list_all_iff by auto

lemma readMemberView_steps:
  "etcd_ok E view P \<Longrightarrow> readMemberView E clock n age vc e = (r, vc', e') \<Longrightarrow> client_steps P (view e) (view e')"
  using readClusterView_steps by (fastforce simp: readMemberView_def split: prod.splits sum.splits option.splits)

text \<open>No handler but the creation of a topic writes to the store.\<close>

lemma endpoint_reads:
  assumes "etcd_ok (wsEtcd S) view P" and "ep \<noteq> EpCreate" and "endpoint_call S q vs ep w = (a, w')"
  shows "client_steps P (view (wwStore w)) (view (wwStore w'))"
proof -
  let ?view = "readClusterView (wsEtcd S) (wsClock S) clusterViewTTL (wwCache w) (wwStore w)"
  let ?member = "readMemberView (wsEtcd S) (wsClock S) (wsNode S) clusterViewTTL (wwCache w) (wwStore w)"
  obtain r1 vc1 e1 r2 vc2 e2 where v: "?view = (r1, vc1, e1)" "?member = (r2, vc2, e2)" by (metis prod_cases3)
  have "client_steps P (view (wwStore w)) (view e1)" "client_steps P (view (wwStore w)) (view e2)"
    using readClusterView_steps [OF assms(1) v(1)] readMemberView_steps [OF assms(1) v(2)] by blast+
  with assms(2,3) v show ?thesis
    by (cases ep)
      (auto simp: endpoint_call_def broker_endpoint_def DescribeTopicHandler_def GetClusterTopic_def ClusterOverviewHandler_def
        ClusterNodesHandler_def ClusterTopicsHandler_def ReadinessHandler_def cluster_read_def GetClusterOverview_def
        GetClusterNodeList_def GetClusterTopicsList_def GetNodeReadiness_def Let_def intro: client_refl
        split: prod.splits sum.splits option.splits if_splits http_route.splits)
qed

text \<open>Only a command or a creation has an effect on the broker and its peers.\<close>

lemma endpoint_broker:
  assumes "wqMethod q \<noteq> POST \<or> ep \<noteq> EpBroker \<or> map_of vs ''action'' \<noteq> Some ''produce''" and "endpoint_call S q vs ep w = (a, w')"
  shows "wwBroker w' = wwBroker w \<and> wwPeers w' = wwPeers w \<and> (ep = EpBroker \<longrightarrow> w' = w)"
  using assms
  by (cases ep)
    (auto simp: endpoint_call_def broker_endpoint_def BrokeringRouter_def Let_def
      split: prod.splits option.splits if_splits http_route.splits)

lemma routed_exists:
  assumes "router_ok R" and "r \<in> set SetupRouter" and "path_match (rtPath r) p \<noteq> None"
  shows "\<exists>ep cors vs. R SetupRouter (rtMethod r) p = Routed ep cors vs"
  using assms(1) [unfolded router_ok_def, THEN conjunct2, THEN conjunct1, rule_format, of SetupRouter "rtMethod r" p] assms(2,3) by blast

lemma produce_routed:
  assumes "router_ok R"
  shows "R SetupRouter POST [''broker'', ''v1'', ''produce''] = Routed EpBroker True [(''action'', ''produce'')]"
proof -
  have "\<lparr>rtMethod = POST, rtPath = [Lit ''broker'', Lit ''v1'', Param ''action''], rtEndpoint = EpBroker, rtCORS = True\<rparr> \<in> set SetupRouter"
    using post_routes [THEN arg_cong, of set] by (simp only: set_filter list.set) blast
  from routed_exists [OF assms this, of "[''broker'', ''v1'', ''produce'']"] routed_post [OF assms] show ?thesis by fastforce
qed

lemma live_is_routed:
  assumes "router_ok R"
  shows "\<exists>ep cors vs. R SetupRouter GET [''healthz''] = Routed ep cors vs"
proof -
  let ?r = "\<lparr>rtMethod = GET, rtPath = [Lit ''healthz''], rtEndpoint = EpLive, rtCORS = False\<rparr>"
  have "list_ex (\<lambda>r. r = ?r) SetupRouter" by (simp add: SetupRouter_def)
  then have "?r \<in> set SetupRouter" unfolding list_ex_iff by blast
  from routed_exists [OF assms this, of "[''healthz'']"] show ?thesis by simp
qed

lemma cors_only_allowed:
  "map_of (applyCORS U origins origin []) ''Access-Control-Allow-Origin'' \<noteq> None \<Longrightarrow> originAllowed U origins origin = origin \<and> origin \<noteq> []"
  "map_of (snd (corsPreflightHandler U origins origin [])) ''Access-Control-Allow-Origin'' \<noteq> None
    \<Longrightarrow> originAllowed U origins origin = origin \<and> origin \<noteq> []"
  by (auto simp: corsPreflightHandler_def applyCORS_def originAllowed_iff update_conv' Let_def split: if_splits)

text \<open>C35. What a web request can do. Over any router that matches paths as documented: a request that is not a
  \<open>POST\<close> (a link, a probe, a preflight, a script tag) never changes the broker or its peers and never writes to
  etcd; a \<open>POST\<close> has an effect at two paths only, that of produce and that of the creation of a topic, and there
  the first is exactly the produce handler. The liveness probe answers 200 whatever the state of
  broker and etcd, without touching either. An answer of any route lets a foreign page read it only when
  its origin is allowed.\<close>

theorem web_requests:
  assumes "router_ok R" and "etcd_ok (wsEtcd S) view P" and "web_serve R S q w = (h, a, w')"
  shows "(wqMethod q \<noteq> POST \<longrightarrow> wwBroker w' = wwBroker w \<and> wwPeers w' = wwPeers w
      \<and> client_steps P (view (wwStore w)) (view (wwStore w')))
    \<and> (wqMethod q = POST \<and> w' \<noteq> w \<longrightarrow> wqPath q \<in> {[''broker'', ''v1'', ''produce''], [''topic'', ''v1'', ''create'']})
    \<and> (wqMethod q = POST \<and> wqPath q = [''broker'', ''v1'', ''produce''] \<longrightarrow>
        (case http_produce (wsNet S) (wsIO S) (wsNow S) (wsMarshal S) (wqProduce q) (wwBroker w) (wwPeers w) of
           (r, b, pw) \<Rightarrow> a = AProduced r \<and> w' = w\<lparr>wwBroker := b, wwPeers := pw\<rparr>))
    \<and> (wqMethod q = GET \<and> wqPath q = [''healthz''] \<longrightarrow> a = AStatus 200 \<and> w' = w)
    \<and> (map_of h ''Access-Control-Allow-Origin'' \<noteq> None \<longrightarrow>
        originAllowed (wsUnicode S) (wsOrigins S) (wqOrigin q) = wqOrigin q \<and> wqOrigin q \<noteq> [])"
proof -
  consider (routed) ep cors vs where "R SetupRouter (wqMethod q) (wqPath q) = Routed ep cors vs"
      "endpoint_call S q vs ep w = (a, w')" "h = (if cors then applyCORS (wsUnicode S) (wsOrigins S) (wqOrigin q) [] else [])"
    | (own) "w' = w" "\<forall>ep cors vs. R SetupRouter (wqMethod q) (wqPath q) \<noteq> Routed ep cors vs"
        "h = [] \<or> h = snd (corsPreflightHandler (wsUnicode S) (wsOrigins S) (wqOrigin q) [])"
    using assms(3) by (cases "R SetupRouter (wqMethod q) (wqPath q)")
      (auto simp: web_serve_def CORSMiddleware_def Let_def split: prod.splits if_splits)
  then show ?thesis
  proof cases
    case own
    have "\<not> (wqMethod q = GET \<and> wqPath q = [''healthz''])" using own(2) live_is_routed [OF assms(1)] by metis
    moreover have "\<not> (wqMethod q = POST \<and> wqPath q = [''broker'', ''v1'', ''produce''])" using own(2) produce_routed [OF assms(1)] by auto
    ultimately show ?thesis using own(1,3) cors_only_allowed(2) by (auto intro: client_refl)
  next
    case routed
    note B = endpoint_broker [OF _ routed(2)]
    have 1: "wqMethod q \<noteq> POST \<longrightarrow> wwBroker w' = wwBroker w \<and> wwPeers w' = wwPeers w
        \<and> client_steps P (view (wwStore w)) (view (wwStore w'))"
      using B endpoint_reads [OF assms(2) _ routed(2)] routed_other [OF assms(1) routed(1)] by blast
    have 2: "wqMethod q = POST \<and> w' \<noteq> w \<longrightarrow> wqPath q \<in> {[''broker'', ''v1'', ''produce''], [''topic'', ''v1'', ''create'']}"
      using routed_post [OF assms(1), of "wqPath q" ep cors vs] routed(1) B by auto blast
    have 3: "wqMethod q = POST \<and> wqPath q = [''broker'', ''v1'', ''produce''] \<longrightarrow>
        (case http_produce (wsNet S) (wsIO S) (wsNow S) (wsMarshal S) (wqProduce q) (wwBroker w) (wwPeers w) of
           (r, b, pw) \<Rightarrow> a = AProduced r \<and> w' = w\<lparr>wwBroker := b, wwPeers := pw\<rparr>)"
      using routed(1,2) produce_routed [OF assms(1)]
      by (auto simp: endpoint_call_def broker_endpoint_def BrokeringRouter_def Let_def split: prod.splits)
    have 4: "wqMethod q = GET \<and> wqPath q = [''healthz''] \<longrightarrow> a = AStatus 200 \<and> w' = w"
      using routed_live [OF assms(1)] routed(1,2) by (auto simp: endpoint_call_def LivenessHandler_def Let_def)
    have 5: "map_of h ''Access-Control-Allow-Origin'' \<noteq> None \<longrightarrow>
        originAllowed (wsUnicode S) (wsOrigins S) (wqOrigin q) = wqOrigin q \<and> wqOrigin q \<noteq> []"
      using routed(3) cors_only_allowed(1) by (auto split: if_splits)
    show ?thesis by (intro conjI 1 2 3 4 5)
  qed
qed

text \<open>The first route that fits.\<close>

definition first_match :: web_router where
  "first_match rs m p =
     (case List.find (\<lambda>r. rtMethod r = m \<and> path_match (rtPath r) p \<noteq> None) rs of
        Some r \<Rightarrow> Routed (rtEndpoint r) (rtCORS r) (the (path_match (rtPath r) p))
      | None \<Rightarrow> if m = OPTIONS \<and> list_ex (\<lambda>r. path_match (rtPath r) p \<noteq> None) rs then Preflight else RouterAnswer 404)"

lemma first_match_ok: "router_ok first_match"
  unfolding router_ok_def
proof (intro conjI allI impI)
  fix rs :: "route list" and m p ep cors vs
  assume "first_match rs m p = Routed ep cors vs"
  then obtain r where "List.find (\<lambda>r. rtMethod r = m \<and> path_match (rtPath r) p \<noteq> None) rs = Some r"
    "ep = rtEndpoint r" "cors = rtCORS r" "vs = the (path_match (rtPath r) p)"
    by (auto simp: first_match_def split: option.splits if_splits)
  then show "\<exists>r \<in> set rs. rtMethod r = m \<and> path_match (rtPath r) p = Some vs \<and> rtEndpoint r = ep \<and> rtCORS r = cors"
    by (auto simp: find_Some_iff)
next
  fix rs :: "route list" and m p
  assume "\<exists>r \<in> set rs. rtMethod r = m \<and> path_match (rtPath r) p \<noteq> None"
  then have "List.find (\<lambda>r. rtMethod r = m \<and> path_match (rtPath r) p \<noteq> None) rs \<noteq> None" unfolding find_None_iff by blast
  then show "\<exists>ep cors vs. first_match rs m p = Routed ep cors vs" by (auto simp: first_match_def)
next
  fix rs :: "route list" and m p
  show "first_match rs m p = Preflight \<Longrightarrow> m = OPTIONS" by (auto simp: first_match_def split: option.splits if_splits)
next
  fix rs :: "route list" and p
  assume a: "(\<forall>r \<in> set rs. rtMethod r \<noteq> OPTIONS) \<and> (\<exists>r \<in> set rs. path_match (rtPath r) p \<noteq> None)"
  then have "List.find (\<lambda>r. rtMethod r = OPTIONS \<and> path_match (rtPath r) p \<noteq> None) rs = None" unfolding find_None_iff by blast
  with a show "first_match rs OPTIONS p = Preflight" by (auto simp: first_match_def list_ex_iff)
qed

text \<open>A record is sent to a node that does not lead the partition, from a page that is not allowed to read the answer.\<close>

definition quiet_server :: "(unit, etcd_store) web_server" where
  "quiet_server = \<lparr>wsEtcd = calm_etcd, wsNet = \<lparr>netNodeId = 1, netEpoch = 0, netHasClient = (\<lambda>_. False),
       netAppendEntries = (\<lambda>_ _ w. (None, w)), netInvalidate = (\<lambda>_ _ w. (None, w))\<rparr>, wsIO = good_io, wsNow = 0,
     wsClock = (0, 0), wsFault = no_faults, wsMarshal = (\<lambda>_. None), wsEvents = (\<lambda>_. []), wsDial = (\<lambda>_. False),
     wsRemote = (\<lambda>_ _ e. (Inl EEtcd, e)), wsConfigured = True, wsNode = sample_coordinator, wsIndex = None,
     wsStatic = (\<lambda>_. 404), wsUnicode = no_unicode, wsOrigins = [''http://a'']\<rparr>"

definition quiet_world :: "(unit, etcd_store) web_world" where
  "quiet_world = \<lparr>wwBroker = Some (NewBroker 1 False), wwCache = \<lparr>vcView = None, vcFetchedAt = 0\<rparr>, wwPeers = (), wwStore = one_node\<rparr>"

definition foreign_produce :: web_request where
  "foreign_produce = \<lparr>wqMethod = POST, wqPath = [''broker'', ''v1'', ''produce''], wqOrigin = ''http://b'',
     wqProduce = Some sample_produce, wqCreate = None, wqArgs = (\<lambda>_. [])\<rparr>"

theorem web_requests_witness:
  "\<exists>h. web_serve first_match quiet_server foreign_produce quiet_world = (h, AProduced (HttpOK 200 (ProduceNotLeader ''t'' 0)), quiet_world)
     \<and> map_of h ''Access-Control-Allow-Origin'' = None"
proof -
  obtain h a w' where s: "web_serve first_match quiet_server foreign_produce quiet_world = (h, a, w')" by (metis prod_cases3)
  have e: "etcd_ok (wsEtcd quiet_server) (\<lambda>s. s) meta_clients" using meta_calm by (simp add: quiet_server_def)
  have "\<not> IsPartitionLeader ''t'' 0 (NewBroker 1 False)"
    by (simp add: IsPartitionLeader_def GetPartitionLeader_def NewBroker_def)
  then have p: "http_produce (wsNet quiet_server) (wsIO quiet_server) (wsNow quiet_server) (wsMarshal quiet_server) (Some sample_produce)
      (Some (NewBroker 1 False)) () = (HttpOK 200 (ProduceNotLeader ''t'' 0), Some (NewBroker 1 False), ())"
    by (simp add: http_produce_def Produce_def Validate_produce_def producerHandler_def produce_of_def sample_produce_def MaxMessageSize_def quiet_server_def)
  note W = web_requests [OF first_match_ok e s]
  have "originAllowed no_unicode [''http://a''] ''http://b'' = []" by code_simp
  then show ?thesis using W s p by (auto simp: foreign_produce_def quiet_world_def quiet_server_def)
qed

end
