(* ===== verification/Spec2Isabelle.thy ===== *)
theory Spec2Isabelle
  imports Watch Session Workers EventBus Client Buffers Boot Stop Lifecycle Journey Routes
begin

text \<open>
  A verification library for the replicated message broker of this repository.

  \<^bold>\<open>The program.\<close> A node (\<open>server/main.go\<close>) keeps partitions of topics, each an append-only log in segment
  files. Clients produce to the leader of a partition and consume from any in-sync replica, over a
  TCP protocol (\<open>server/broker/tcp.go\<close>) or over HTTP (\<open>server/http\<close>). A leader pushes every record to the
  in-sync replicas before it commits it (\<open>server/broker/topic_proccessor.go\<close>); a replica that is behind
  fetches the log until it may join the in-sync set (\<open>CatchUpPartition\<close>). The nodes share their metadata
  in etcd (\<open>server/cluster\<close>): every node registers under a lease and watches the node keys and the topic
  keys; one node is elected controller, creates topics, and reassigns the replicas of dead nodes; each
  node applies the topic parameters that name it and starts catch-ups. A control service
  (\<open>server/grpc\<close>) answers the command line client (\<open>client/cmd\<close>).

  \<^bold>\<open>The theories\<close>, in the order of their imports, with the code they model.

  \<^item> \<open>Prelude\<close>: machine types, Go maps as association lists, \<open>step_machine\<close>, \<open>monotone_machine\<close> and
    \<open>keyed_store\<close>, the contracts most components are instances of. \<open>Bytes\<close>: \<open>encoding/binary\<close>, with the
    contract \<open>field_codec\<close>. \<open>GoFmt\<close>: \<open>strconv\<close> and \<open>fmt\<close>. \<open>GoError\<close>: errors as values.
  \<^item> \<open>LogContract\<close>: what a log promises (\<open>append_log\<close>), provided by the segment file and by the partition.
  \<^item> \<open>Segment\<close>: \<open>persistent/aol/segment.go\<close>. A file is its bytes with what is synced and which writes fail;
    the lemmas show the refinement to a list of records, recovery from any prefix of the bytes, and the
    one failure that breaks it (a write whose \<open>fsync\<close> failed).
  \<^item> \<open>Partition\<close>, \<open>PartitionLog\<close>, \<open>PartitionLife\<close>: \<open>broker/partition_proccessor.go\<close>. The fields of the struct are
    the fields of the record \<open>partition\<close>; the second theory refines every operation to the abstract log,
    the third has recovery of the directory, retention and the consumer stream.
  \<^item> \<open>Topic\<close>, \<open>Pool\<close>, \<open>Broker\<close>: \<open>broker/topic_proccessor.go\<close>, \<open>pool.go\<close>, \<open>broker.go\<close>: the nested maps of a
    node as keyed stores, and every handler. \<open>Cluster\<close>, \<open>CatchUp\<close>: several brokers and a network that may
    lose calls and answers; durability of acknowledged writes, rollback, catch-up, and the interleavings
    that lose a write or block a partition.
  \<^item> \<open>Etcd\<close>: the service as a record of operations, with its documented behaviour as the hypothesis
    \<open>etcd_ok\<close> (\<open>etcd_quiet\<close> when no other client writes). \<open>TopicMeta\<close>: \<open>cluster/topic_metadata.go\<close>.
  \<^item> \<open>Coordinator\<close>, \<open>Election\<close>, \<open>Rebalance\<close>: \<open>cluster/node.go\<close>, \<open>controller.go\<close>, \<open>local_state.go\<close> and the
    election of \<open>cluster/etcd.go\<close>: members, session loss and recovery, one controller per epoch,
    reassignment after a loss and the reconcile pass.
  \<^item> \<open>ClusterView\<close>, \<open>Placement\<close>: \<open>cluster/cluster_view.go\<close>, \<open>utils.go\<close>, \<open>control_api.go\<close>,
    \<open>control_forward.go\<close>: what a node answers about the cluster is one state of the store; where a new
    topic is placed.
  \<^item> \<open>Assignment\<close>: how a node applies topic parameters and catches up (\<open>cluster/etcd.go\<close>). \<open>Watch\<close>: the
    watch loops of the same file and the start of a node; the members follow the store. \<open>Session\<close>: the
    keep-alive goroutines, the recovery loop and the shutdown of the same file, beside each other.
    \<open>Workers\<close>: the loops that act at every tick, retention, reports of local data, reconcile and heartbeat.
  \<^item> \<open>Tcp\<close>: \<open>broker/tcp.go\<close> and the framing of \<open>client/cmd/broker.go\<close>, one connection. \<open>Buffers\<close>: the accept loop
    and all connections over the pool of buffers, as goroutines on a heap. \<open>Requests\<close>: \<open>broker/dto/http.go\<close> and
    \<open>http/handler.go\<close>. \<open>Web\<close>: \<open>http/middleware.go\<close> (who may read an answer) and \<open>http/command_context.go\<close>
    (the event stream, read back as a browser does). \<open>Routes\<close>: \<open>http/server.go\<close>, a request from its path to its
    effect. \<open>Client\<close>: \<open>grpc/control_server.go\<close> and the commands of \<open>client/cmd\<close>. \<open>EventBus\<close>:
    \<open>cluster/eventbus.go\<close> as a step relation of publishers, subscribers and the dispatcher.
  \<^item> \<open>Typing\<close>: what is well-formed in the state of a node, with one lemma per operation that it is kept and
    nothing panics. \<open>Restart\<close>: the manifest of local partitions and the configuration
    (\<open>persistent/db/mongo.go\<close>, \<open>Shutdown\<close>, \<open>InitConfig\<close>). \<open>NodeSteps\<close>: a node's handlers as a step relation, the
    invariants of every reachable state, and what a crash and a restart bring back. \<open>Boot\<close>: \<open>main.go\<close> up
    to the running servers. \<open>Stop\<close>: the order in which it stops, and the connections to other nodes.
    \<open>Lifecycle\<close>: \<open>helper/lifecycle.go\<close>, the contexts of a node as a tree, which the flags of its components follow.
  \<^item> \<open>Journey\<close> and this theory: the way of a topic from its creation to its consumers, which joins
    the creation, the watch, the assignment, the replicated write and the read.

  \<^bold>\<open>Conventions.\<close> Code that is not here (the etcd client, protocol buffers, JSON, gRPC connections, the
  disk, MongoDB) is an argument of the definitions that use it: a function, a list of answers, or a
  record of faults. An error is a value (\<open>go_error\<close>, \<open>cluster_error\<close>, \<open>client_error\<close>), a run-time panic too.
  A stored JSON value is kept by its kind; a key that holds another kind fails to decode. Offsets are
  64-bit words, sizes of frames 32-bit words; ids, counts and times are integers. A goroutine is its
  body as one or several steps, split where another can come between; a started goroutine is a result
  of the operation that starts it. Log lines and metrics are left out.

  \<^bold>\<open>Bounds and fuel.\<close> The catch-up loop may run for ever, so it has fuel: \<open>catch_up_completes\<close> shows that one
  round per 500 missing records and one more is enough, and \<open>catch_up_below_base_never_ends\<close> that no
  amount is for a leader that has deleted the records. The retries of a topic update are the code's
  five. Frames hold 64 KiB, the queue of dead nodes 64 entries, the event bus 256 and a subscriber 64.
  All other loops are structural or have a measure, and end.

  \<^bold>\<open>Not modelled.\<close> What \<open>main.go\<close> does with log files and signals, the encoding of
  JSON and the embedded pages, connecting to and closing MongoDB, the generated code of
  \<open>datatypes/proto-generated\<close> except the message structs, \<open>datatypes/broker/broker.go\<close> and \<open>peer.go\<close>
  (interfaces), \<open>helper/err.go\<close> (an error type nothing uses), the empty \<open>auth\<close> and \<open>user\<close> packages, and the pool of
  readers of the TCP server, which are reset when they are drawn. Time is the order of events: a ticker is the list of
  its ticks. A corrupted length in a segment file can make \<open>Read\<close>
  panic; the reads of a partition treat that as any error of \<open>Read\<close> and stop there.
\<close>

section \<open>From the creation of a topic to its consumers\<close>

text \<open>C2. A created topic works. Once a topic is created, etcd holds its parameters, with as many partitions
  as were asked for; let any node see them in its watch, with an empty disk for the topic. Take a
  partition, any commands to produce to it, with any keys, times and behaviour of the network, and then a consumer
  from the beginning. On the leader every command is accepted, and the consumer gets all records at once, in
  order, at offsets 0, 1, 2 and so on, byte for byte; its live stream starts at the next
  offset. On any other node, the partition's plain replicas included, each command is answered with
  \<open>not a leader\<close>, the consumer with \<open>not in sync\<close>, and nothing is written.\<close>

theorem created_topic_serves:
  assumes "etcd_ok E view meta_clients" and "meta_ok (view e)"
    and "CreateTopic E clock ctl req vc e = (Inr resp, vc', e')" and "rpSuccess resp"
    and "rqTopicName req \<notin> range fmt_int"
    and "broker_ok (cbroker n)" and "bid (cbroker n) = nodeID n"
    and "\<forall>i. get_local (rqTopicName req, i) (cbroker n) = None \<and> empty_disk env (rqTopicName req) i"
    and "\<forall>(N, now, key, payload) \<in> set xs. payload_ok payload" and "length xs < 2 ^ 64" and "\<forall>r. respond r = None"
  shows "\<exists>t. stored_topic (rqTopicName req) (view e') = Some t
    \<and> map PartitionId (Partitions t) = map int [0..<nat (rqNumPartitions req)]
    \<and> (\<forall>part \<in> set (Partitions t).
        case watch_topic_event env ra (WatchPut (topicKey (rqTopicName req)) (VTopic t)) n of (jobs, n') \<Rightarrow>
        case produce_each respond (rqTopicName req) (PartitionId part) xs (cbroker n') W of (rs, b, W') \<Rightarrow>
        let answer = consumerHandler no_faults respond events
              \<lparr>cpTopicName = rqTopicName req, cpPartitionID = PartitionId part, cpStart = AtBeginning x, cpFin = AtEnd y\<rparr> b
        in if LeaderNodeId part = nodeID n then
             rs = map (\<lambda>_. (None, [ProduceAccepted])) xs
             \<and> answer = (case consume_stream respond (events (of_nat (length xs))) of
                 (r, live) \<Rightarrow> (r, (if xs = [] then [] else [ConsumeList (records_from 0 xs)]) @ live))
           else
             rs = map (\<lambda>_. (None, [ProduceNotLeader (rqTopicName req) (PartitionId part)])) xs \<and> b = cbroker n'
             \<and> answer = (None, [ConsumeNotInSync (rqTopicName req) (PartitionId part)]))"
proof -
  obtain s t where t: "created_topic req s t" "stored_topic (rqTopicName req) (view e') = Some t" "rqTopicName req \<noteq> []"
    using CreateTopic_stored [OF assms(1-4)] by blast
  obtain jobs n' where w: "watch_topic_event env ra (WatchPut (topicKey (rqTopicName req)) (VTopic t)) n = (jobs, n')"
    by (metis prod.collapse)
  have "case produce_each respond (rqTopicName req) (PartitionId part) xs (cbroker n') W of (rs, b, W') \<Rightarrow>
      let answer = consumerHandler no_faults respond events
            \<lparr>cpTopicName = rqTopicName req, cpPartitionID = PartitionId part, cpStart = AtBeginning x, cpFin = AtEnd y\<rparr> b
      in if LeaderNodeId part = nodeID n then
           rs = map (\<lambda>_. (None, [ProduceAccepted])) xs
           \<and> answer = (case consume_stream respond (events (of_nat (length xs))) of
               (r, live) \<Rightarrow> (r, (if xs = [] then [] else [ConsumeList (records_from 0 xs)]) @ live))
         else
           rs = map (\<lambda>_. (None, [ProduceNotLeader (rqTopicName req) (PartitionId part)])) xs \<and> b = cbroker n'
           \<and> answer = (None, [ConsumeNotInSync (rqTopicName req) (PartitionId part)])"
    if part: "part \<in> set (Partitions t)" for part
  proof -
    obtain rs b W' where p: "produce_each respond (rqTopicName req) (PartitionId part) xs (cbroker n') W = (rs, b, W')"
      by (metis prod_cases3)
    note F = created_follows [OF t(1) part t(3) assms(5-7) _ _ w, simplified assms(8)]
    show ?thesis
    proof (cases "LeaderNodeId part = nodeID n")
      case True
      with F have "serving (rqTopicName req) (PartitionId part) (cbroker n') []" by simp
      from produce_each_serving [OF this assms(9) _ p] assms(10,11)
      have "rs = map (\<lambda>_. (None, [ProduceAccepted])) xs" "serving (rqTopicName req) (PartitionId part) b (records_from 0 xs)"
        by simp_all
      with consume_serving [OF this(2) assms(11)] True p show ?thesis by (simp add: Let_def flip: length_0_conv)
    next
      case False
      with F have f: "\<not> IsPartitionLeader (rqTopicName req) (PartitionId part) (cbroker n')"
        "\<not> IsPartitionInSync (rqTopicName req) (PartitionId part) (cbroker n')" by simp_all
      with False p produce_each_refused [OF t(3) f(1)] t(3) assms(11) show ?thesis by (simp add: consumerHandler_def Let_def)
    qed
  qed
  with t(1,2) w show ?thesis by (auto simp: created_topic_def)
qed

text \<open>Two partitions created on the only node of a cluster; two commands and a consumer at the leader of one of them.\<close>

definition plain_node :: "int \<Rightarrow> coordinator" where
  "plain_node i = NewNodeCoordinator i (NewBroker i False) sample_addresses"

lemma plain_node_ok:
  "broker_ok (cbroker (plain_node i))" "bid (cbroker (plain_node i)) = nodeID (plain_node i)" "nodeID (plain_node i) = i"
  "get_local k (cbroker (plain_node i)) = None"
  using NewProcessorPool_ok [of False]
  by (simp_all add: plain_node_def NewNodeCoordinator_def NewBroker_def broker_ok_def get_local_def
      local_partition_def GetTopicProcessor_def NewProcessorPool_def)

definition two_commands :: "(network \<times> i64 \<times> string \<times> bytes) list" where
  "two_commands = [(perfect_net, 5, ''k'', [1]), (perfect_net, 6, [], [2, 3])]"

theorem created_topic_serves_witness:
  "\<exists>t part jobs n' rs b W'. part \<in> set (Partitions t)
    \<and> watch_topic_event Pool.sample_env True (WatchPut (topicKey ''t'') (VTopic t)) (plain_node (LeaderNodeId part)) = (jobs, n')
    \<and> produce_each (\<lambda>_. None) ''t'' (PartitionId part) two_commands (cbroker n') (\<lambda>i. NewBroker i False) = (rs, b, W')
    \<and> consumerHandler no_faults (\<lambda>_. None) (\<lambda>_. [])
        \<lparr>cpTopicName = ''t'', cpPartitionID = PartitionId part, cpStart = AtBeginning True, cpFin = AtEnd True\<rparr> b
      = (None, [ConsumeList [new_record 0 5 [1], new_record 1 6 [2, 3]]])"
proof -
  obtain resp vc' s' where run: "CreateTopic calm_etcd (0, 0) sample_coordinator sample_request
      \<lparr>vcView = None, vcFetchedAt = 0\<rparr> one_node = (Inr resp, vc', s')" "rpSuccess resp"
    using sample_create by blast
  have name: "rqTopicName sample_request = ''t''" "rqNumPartitions sample_request = 2" by (simp_all add: sample_request_def)
  have "CHR ''t'' \<notin> set (fmt_int i)" for i
    using dec_digits [of "nat i"] dec_digits [of "nat (- i)"] by (auto simp: fmt_int_def is_digit_def)
  then have num: "rqTopicName sample_request \<notin> range fmt_int" unfolding name by (metis imageE list.set_intros(1))
  have pay: "\<forall>(N, now, key, payload) \<in> set two_commands. payload_ok payload" "length two_commands < 2 ^ 64"
    by (simp_all add: two_commands_def payload_ok_def)
  note P = created_topic_serves [OF meta_calm one_node_ok run num plain_node_ok(1,2) _ pay, where env = Pool.sample_env
      and ra = True and respond = "\<lambda>_. None" and events = "\<lambda>_. []" and W = "\<lambda>i. NewBroker i False" and x = True and y = True]
  have env: "\<forall>i. get_local (rqTopicName sample_request, i) (cbroker (plain_node j)) = None \<and> empty_disk Pool.sample_env (rqTopicName sample_request) i" for j
    by (simp add: plain_node_ok empty_disk_def Pool.sample_env_def)
  have "\<exists>t. stored_topic (rqTopicName sample_request) s' = Some t
      \<and> map PartitionId (Partitions t) = map int [0..<nat (rqNumPartitions sample_request)]"
    using P [OF env, of 0] by blast
  then obtain t where t: "stored_topic (rqTopicName sample_request) s' = Some t" "map PartitionId (Partitions t) = [0, 1]"
    by (auto simp: name upt_rec)
  then obtain part where part: "part \<in> set (Partitions t)" by (cases "Partitions t") auto
  let ?n = "plain_node (LeaderNodeId part)"
  obtain jobs n' where w: "watch_topic_event Pool.sample_env True (WatchPut (topicKey ''t'') (VTopic t)) ?n = (jobs, n')"
    by (metis prod.collapse)
  obtain rs b W' where p: "produce_each (\<lambda>_. None) ''t'' (PartitionId part) two_commands (cbroker n') (\<lambda>i. NewBroker i False) = (rs, b, W')"
    by (metis prod_cases3)
  have "records_from 0 two_commands = [new_record 0 5 [1], new_record 1 6 [2, 3]]" "two_commands \<noteq> []"
    by (simp_all add: two_commands_def)
  moreover note P [OF env, of "LeaderNodeId part", unfolded t(1) option.inject, simplified ex_simps simp_thms,
      THEN conjunct2, THEN bspec, OF TrueI part]
  ultimately have "consumerHandler no_faults (\<lambda>_. None) (\<lambda>_. [])
        \<lparr>cpTopicName = ''t'', cpPartitionID = PartitionId part, cpStart = AtBeginning True, cpFin = AtEnd True\<rparr> b
      = (None, [ConsumeList [new_record 0 5 [1], new_record 1 6 [2, 3]]])"
    using w p by (simp add: name plain_node_ok(3) Let_def)
  with part w p show ?thesis by blast
qed

end
